(* ===== verification/Xv6_Prelude.thy ===== *)
theory Xv6_Prelude
  imports Main "HOL-Library.Word"
begin

unbundle bit_operations_syntax

text \<open>
  Shared vocabulary of the development: the C integer types of \<^verbatim>\<open>types.h\<close>, the
  result type of kernel operations, byte strings with their little-endian readings,
  and the list and word facts the components use.  The machine is the 32-bit x86
  that the Makefile targets: \<open>uint\<close> is 32 bits wide, \<open>ushort\<close> 16, \<open>uchar\<close> 8, and
  memory is little-endian.
\<close>

named_theorems res_simps \<open>unfolding of the result combinators\<close>
named_theorems byte_simps \<open>reading and writing of byte strings\<close>

section \<open>Integer types\<close>

type_synonym u8 = "8 word"
type_synonym u16 = "16 word"
type_synonym u32 = "32 word"

section \<open>Results of kernel operations\<close>

text \<open>
  An operation ends in one of these ways: it returns a value; it calls \<open>panic\<close>
  with a message; it performs an access that C leaves undefined (out of the bounds
  of an object, or through a null pointer); it would have to sleep until another
  process acts; or a loop of the model ran out of its step budget, which the
  theorems rule out.
\<close>

datatype err = Panic string | Fault string | Blocked string | NoFuel

datatype 'a res = Ok 'a | Fail err

primrec bindr :: "'a res \<Rightarrow> ('a \<Rightarrow> 'b res) \<Rightarrow> 'b res" where
  "bindr (Ok x) f = f x"
| "bindr (Fail e) f = Fail e"

lemma bindr_cong [fundef_cong]:
  "m = m' \<Longrightarrow> (\<And>x. m' = Ok x \<Longrightarrow> f x = g x) \<Longrightarrow> bindr m f = bindr m' g"
  by (cases m') auto

lemma bindr_eq_Ok [res_simps]: "bindr m f = Ok y \<longleftrightarrow> (\<exists>x. m = Ok x \<and> f x = Ok y)"
  by (cases m) auto

lemma bindr_eq_Fail [res_simps]:
  "bindr m f = Fail e \<longleftrightarrow> m = Fail e \<or> (\<exists>x. m = Ok x \<and> f x = Fail e)"
  by (cases m) auto

lemma bindr_Ok_right [simp]: "bindr m Ok = m"
  by (cases m) auto

lemma bindr_assoc: "bindr (bindr m f) g = bindr m (\<lambda>x. bindr (f x) g)"
  by (cases m) auto

lemma bindrE:
  assumes "bindr m f = Ok y"
  obtains x where "m = Ok x" "f x = Ok y"
  using assms by (auto simp: res_simps)

section \<open>Slices of lists\<close>

text \<open>
  \<open>slice off n xs\<close> reads \<open>n\<close> elements from position \<open>off\<close>; \<open>splice off ys xs\<close>
  overwrites the elements from position \<open>off\<close> with \<open>ys\<close>: what \<open>memmove\<close> does
  out of and into a buffer.
\<close>

definition slice :: "nat \<Rightarrow> nat \<Rightarrow> 'a list \<Rightarrow> 'a list" where
  "slice off n xs = take n (drop off xs)"

definition splice :: "nat \<Rightarrow> 'a list \<Rightarrow> 'a list \<Rightarrow> 'a list" where
  "splice off ys xs = take off xs @ ys @ drop (off + length ys) xs"

lemma length_slice [simp]: "off + n \<le> length xs \<Longrightarrow> length (slice off n xs) = n"
  by (simp add: slice_def)

lemma nth_slice [byte_simps]: "off + n \<le> length xs \<Longrightarrow> i < n \<Longrightarrow> slice off n xs ! i = xs ! (off + i)"
  by (simp add: slice_def)

lemma length_splice [simp]: "off + length ys \<le> length xs \<Longrightarrow> length (splice off ys xs) = length xs"
  by (simp add: splice_def)

lemma nth_splice [byte_simps]:
  assumes "off + length ys \<le> length xs" "i < length xs"
  shows "splice off ys xs ! i =
    (if off \<le> i \<and> i < off + length ys then ys ! (i - off) else xs ! i)"
proof -
  consider "i < off" | "off \<le> i" "i < off + length ys" | "off + length ys \<le> i"
    by linarith
  then show ?thesis
    using assms by cases (auto simp: splice_def nth_append)
qed

lemma slice_splice_same [simp]:
  "off + length ys \<le> length xs \<Longrightarrow> n = length ys \<Longrightarrow> slice off n (splice off ys xs) = ys"
  by (simp add: slice_def splice_def)

lemma slice_splice_inside:
  assumes "off + length ys \<le> length xs" "off \<le> o'" "o' + n \<le> off + length ys"
  shows "slice o' n (splice off ys xs) = slice (o' - off) n ys"
  using assms by (intro nth_equalityI) (auto simp: byte_simps)

lemma slice_splice_disjoint [simp]:
  assumes "off + length ys \<le> length xs" "o' + n \<le> length xs" "o' + n \<le> off \<or> off + length ys \<le> o'"
  shows "slice o' n (splice off ys xs) = slice o' n xs"
  using assms by (intro nth_equalityI) (auto simp: byte_simps)

lemma splice_slice_same [simp]: "off + n \<le> length xs \<Longrightarrow> splice off (slice off n xs) xs = xs"
  by (intro nth_equalityI) (auto simp: byte_simps)

lemma slice_all [simp]: "n = length xs \<Longrightarrow> slice 0 n xs = xs"
  by (simp add: slice_def)

lemma splice_all [simp]: "length ys = length xs \<Longrightarrow> splice 0 ys xs = ys"
  by (simp add: splice_def)

lemma slice_0_n [simp]: "slice off 0 xs = []"
  by (simp add: slice_def)

lemma splice_Nil [simp]: "splice off [] xs = xs"
  by (simp add: splice_def)

lemma slice_append_slices:
  assumes "off + (m + n) \<le> length xs"
  shows "slice off m xs @ slice (off + m) n xs = slice off (m + n) xs"
  using assms by (simp add: slice_def take_add add.commute)

lemma splice_splice_adjacent:
  assumes "off + (length ys + length zs) \<le> length xs"
  shows "splice (off + length ys) zs (splice off ys xs) = splice off (ys @ zs) xs"
  using assms by (intro nth_equalityI) (auto simp: byte_simps nth_append)

section \<open>Little-endian integers\<close>

definition le16 :: "u16 \<Rightarrow> u8 list" where
  "le16 w = [ucast w, ucast (drop_bit 8 w)]"

definition le32 :: "u32 \<Rightarrow> u8 list" where
  "le32 w = [ucast w, ucast (drop_bit 8 w), ucast (drop_bit 16 w), ucast (drop_bit 24 w)]"

definition of_le16 :: "u8 list \<Rightarrow> u16" where
  "of_le16 bs = ucast (bs ! 0) OR push_bit 8 (ucast (bs ! 1))"

definition of_le32 :: "u8 list \<Rightarrow> u32" where
  "of_le32 bs = ucast (bs ! 0) OR push_bit 8 (ucast (bs ! 1)) OR
     push_bit 16 (ucast (bs ! 2)) OR push_bit 24 (ucast (bs ! 3))"

lemma length_le16 [simp]: "length (le16 w) = 2"
  by (simp add: le16_def)

lemma length_le32 [simp]: "length (le32 w) = 4"
  by (simp add: le32_def)

lemma of_le16_le16 [simp]: "of_le16 (le16 w) = w"
proof (rule bit_word_eqI)
  fix n assume "n < LENGTH(16)"
  then show "bit (of_le16 (le16 w)) n = bit w n"
    by (cases "n < 8") (auto simp: of_le16_def le16_def bit_simps)
qed

lemma of_le32_le32 [simp]: "of_le32 (le32 w) = w"
proof (rule bit_word_eqI)
  fix n assume n: "n < LENGTH(32)"
  consider "n < 8" | "8 \<le> n" "n < 16" | "16 \<le> n" "n < 24" | "24 \<le> n"
    by linarith
  then show "bit (of_le32 (le32 w)) n = bit w n"
    using n by cases (auto simp: of_le32_def le32_def bit_simps)
qed

lemma le32_of_le32:
  assumes "length bs = 4"
  shows "le32 (of_le32 bs) = bs"
proof -
  obtain a b c d where bs: "bs = [a, b, c, d]"
    using assms by (auto simp: length_Suc_conv numeral_eq_Suc)
  have "ucast (of_le32 bs) = a" "ucast (drop_bit 8 (of_le32 bs)) = b"
    "ucast (drop_bit 16 (of_le32 bs)) = c" "ucast (drop_bit 24 (of_le32 bs)) = d"
    by (rule bit_word_eqI; auto simp: bs of_le32_def bit_simps dest: bit_imp_le_length)+
  then show ?thesis
    by (simp add: le32_def bs)
qed

text \<open>Reading and writing an integer at a byte offset of a buffer.\<close>

definition get16 :: "nat \<Rightarrow> u8 list \<Rightarrow> u16" where
  "get16 off xs = of_le16 (slice off 2 xs)"

definition get32 :: "nat \<Rightarrow> u8 list \<Rightarrow> u32" where
  "get32 off xs = of_le32 (slice off 4 xs)"

definition put16 :: "nat \<Rightarrow> u16 \<Rightarrow> u8 list \<Rightarrow> u8 list" where
  "put16 off w xs = splice off (le16 w) xs"

definition put32 :: "nat \<Rightarrow> u32 \<Rightarrow> u8 list \<Rightarrow> u8 list" where
  "put32 off w xs = splice off (le32 w) xs"

lemma length_put16 [simp]: "off + 2 \<le> length xs \<Longrightarrow> length (put16 off w xs) = length xs"
  by (simp add: put16_def)

lemma length_put32 [simp]: "off + 4 \<le> length xs \<Longrightarrow> length (put32 off w xs) = length xs"
  by (simp add: put32_def)

lemma get16_put16_same [simp]: "off + 2 \<le> length xs \<Longrightarrow> get16 off (put16 off w xs) = w"
  by (simp add: get16_def put16_def)

lemma get32_put32_same [simp]: "off + 4 \<le> length xs \<Longrightarrow> get32 off (put32 off w xs) = w"
  by (simp add: get32_def put32_def)

lemma get32_put32_other [simp]:
  "off + 4 \<le> length xs \<Longrightarrow> o' + 4 \<le> length xs \<Longrightarrow> o' + 4 \<le> off \<or> off + 4 \<le> o' \<Longrightarrow>
   get32 o' (put32 off w xs) = get32 o' xs"
  by (simp add: get32_def put32_def)

text \<open>An array of 32-bit words seen as the bytes it occupies, and back.\<close>

definition words_bytes :: "u32 list \<Rightarrow> u8 list" where
  "words_bytes ws = concat (map le32 ws)"

fun bytes_words :: "u8 list \<Rightarrow> u32 list" where
  "bytes_words (a # b # c # d # bs) = of_le32 [a, b, c, d] # bytes_words bs"
| "bytes_words bs = []"

lemma length_words_bytes [simp]: "length (words_bytes ws) = 4 * length ws"
  by (induction ws) (auto simp: words_bytes_def)

lemma bytes_words_words_bytes [simp]: "bytes_words (words_bytes ws) = ws"
proof (induction ws)
  case Nil
  then show ?case by (simp add: words_bytes_def)
next
  case (Cons w ws)
  obtain a b c d where w: "le32 w = [a, b, c, d]"
    by (auto simp: le32_def)
  have "of_le32 [a, b, c, d] = w"
    using of_le32_le32 [of w] by (simp add: w)
  with Cons w show ?case
    by (simp add: words_bytes_def)
qed

lemma words_bytes_bytes_words: "length bs = 4 * n \<Longrightarrow> words_bytes (bytes_words bs) = bs"
proof (induction bs arbitrary: n rule: bytes_words.induct)
  case (1 a b c d bs)
  then have "words_bytes (bytes_words bs) = bs"
    by (cases n) auto
  then show ?case
    using le32_of_le32 [of "[a, b, c, d]"] by (simp add: words_bytes_def)
qed (auto simp: words_bytes_def, presburger+)

lemma length_bytes_words: "length bs = 4 * n \<Longrightarrow> length (bytes_words bs) = n"
  using length_words_bytes [of "bytes_words bs"] words_bytes_bytes_words [of bs n] by simp

section \<open>Words\<close>

lemma unat_add_no_wrap:
  "unat (a::'a::len word) + unat b < 2 ^ LENGTH('a) \<Longrightarrow> unat (a + b) = unat a + unat b"
  by (simp add: unat_word_ariths)

lemma unat_of_nat32 [simp]: "n < 2 ^ 32 \<Longrightarrow> unat (of_nat n :: u32) = n"
  by (simp add: unat_of_nat take_bit_nat_eq_self)

lemma unat_u32_bound: "unat (w :: u32) < 2 ^ 32"
  using unsigned_less [of w, where 'a = nat] by simp

lemma uint_eq_iff [simp]: "uint (a :: 'a::len word) = uint b \<longleftrightarrow> a = b"
  by (simp add: word_uint_eq_iff)

lemma unat_uminus32:
  assumes "(x :: u32) \<noteq> 0"
  shows "unat (- x) = 2 ^ 32 - unat x"
proof -
  have "unat (- x + x) = (unat (- x) + unat x) mod 2 ^ 32"
    by (simp only: unat_word_ariths) simp
  then have "(unat (- x) + unat x) mod 2 ^ 32 = 0" by simp
  moreover have "0 < unat x" using assms by (simp add: unat_gt_0)
  moreover have "unat (- x) < 2 ^ 32" "unat x < 2 ^ 32" by (rule unat_u32_bound)+
  ultimately have "unat (- x) + unat x = 2 ^ 32"
    using mod_if [of "unat (- x) + unat x" "2 ^ 32"]
    by (cases "unat (- x) + unat x < 2 ^ 32") (simp_all add: mod_if split: if_splits)
  then show ?thesis by simp
qed

text \<open>C characters: the bytes of a string literal.\<close>

definition cbytes :: "string \<Rightarrow> u8 list" where
  "cbytes s = map of_char s"

end
