(* ===== verification/Xv6_Bio.thy ===== *)
theory Xv6_Bio
  imports Xv6_Prelude
begin

text \<open>
  The block device and the buffer cache: \<^verbatim>\<open>sleeplock.c\<close>, the in-memory disk driver
  \<^verbatim>\<open>memide.c\<close> and \<^verbatim>\<open>bio.c\<close>.

  The state is the disk image, the array of \<open>NBUF\<close> buffers and the list head
  \<open>bcache.head\<close>, which is itself a \<open>struct buf\<close> and is kept at index \<open>HEAD = NBUF\<close> of the
  same array; the pointers \<open>prev\<close> and \<open>next\<close> are indices into it.  \<open>dhist\<close> is a history
  variable: the sequence of blocks written to the device, which is what survives a
  crash.  Operations run without interleaving: where the code would sleep on a lock
  held by another process the result is \<open>Blocked\<close>.  An uncontended spin lock changes
  nothing that the operations read, so \<open>bcache.lock\<close> and the \<open>lk\<close> inside a sleep lock
  do not appear.

  The lemmas give the cache's contract over an abstract state: \<open>view s b\<close> is the
  content of block \<open>b\<close> as any caller of \<open>bread\<close> sees it, \<open>dirty s\<close> and \<open>locked s\<close> the
  blocks whose buffer has \<open>B_DIRTY\<close> set or is locked.
\<close>

section \<open>State\<close>

definition BSIZE :: nat where "BSIZE = 512"

definition NBUF :: nat where "NBUF = 30"

definition FSSIZE :: nat where "FSSIZE = 1000"

definition HEAD :: nat where "HEAD = NBUF"

type_synonym block = "u8 list"

record sleeplock =
  sl_locked :: bool
  sl_pid :: int

record buf =
  b_valid :: bool
  b_dirty :: bool
  b_dev :: u32
  b_blockno :: u32
  b_lock :: sleeplock
  b_refcnt :: u32
  b_prev :: nat
  b_next :: nat
  b_data :: block

record bstate =
  cur_pid :: int
  memdisk :: "u32 \<Rightarrow> block"
  disksize :: u32
  dhist :: "(u32 \<times> block) list"
  bufs :: "buf list"

section \<open>Sleep locks\<close>

definition initsleeplock :: sleeplock where
  "initsleeplock = \<lparr>sl_locked = False, sl_pid = 0\<rparr>"

definition acquiresleep :: "int \<Rightarrow> sleeplock \<Rightarrow> sleeplock res" where
  "acquiresleep pid lk =
     (if sl_locked lk then Fail (Blocked ''acquiresleep'')
      else Ok (lk\<lparr>sl_locked := True, sl_pid := pid\<rparr>))"

definition releasesleep :: "sleeplock \<Rightarrow> sleeplock" where
  "releasesleep lk = lk\<lparr>sl_locked := False, sl_pid := 0\<rparr>"

definition holdingsleep :: "sleeplock \<Rightarrow> bool" where
  "holdingsleep lk = sl_locked lk"

section \<open>The disk driver\<close>

definition upd_buf :: "nat \<Rightarrow> (buf \<Rightarrow> buf) \<Rightarrow> 'a bstate_scheme \<Rightarrow> 'a bstate_scheme" where
  "upd_buf i f s = s\<lparr>bufs := (bufs s)[i := f (bufs s ! i)]\<rparr>"

definition iderw :: "nat \<Rightarrow> 'a bstate_scheme \<Rightarrow> 'a bstate_scheme res" where
  "iderw i s =
     (let b = bufs s ! i in
      if \<not> holdingsleep (b_lock b) then Fail (Panic ''iderw: buf not locked'')
      else if b_valid b \<and> \<not> b_dirty b then Fail (Panic ''iderw: nothing to do'')
      else if b_dev b \<noteq> 1 then Fail (Panic ''iderw: request not for disk 1'')
      else if b_blockno b \<ge> disksize s then Fail (Panic ''iderw: block out of range'')
      else if b_dirty b then
        Ok (upd_buf i (\<lambda>b. b\<lparr>b_dirty := False, b_valid := True\<rparr>)
             (s\<lparr>memdisk := (memdisk s)(b_blockno b := b_data b),
                dhist := dhist s @ [(b_blockno b, b_data b)]\<rparr>))
      else
        Ok (upd_buf i (\<lambda>b. b\<lparr>b_data := memdisk s (b_blockno b), b_valid := True\<rparr>) s))"

section \<open>The buffer cache\<close>

text \<open>The four assignments that put \<open>b\<close> at the front of the list, and the two that take it out.\<close>

definition link_front :: "nat \<Rightarrow> buf list \<Rightarrow> buf list" where
  "link_front b bs =
     (let bs = bs[b := (bs ! b)\<lparr>b_next := b_next (bs ! HEAD)\<rparr>];
          bs = bs[b := (bs ! b)\<lparr>b_prev := HEAD\<rparr>];
          n = b_next (bs ! HEAD);
          bs = bs[n := (bs ! n)\<lparr>b_prev := b\<rparr>]
      in bs[HEAD := (bs ! HEAD)\<lparr>b_next := b\<rparr>])"

definition unlink_buf :: "nat \<Rightarrow> buf list \<Rightarrow> buf list" where
  "unlink_buf b bs =
     (let n = b_next (bs ! b);
          bs = bs[n := (bs ! n)\<lparr>b_prev := b_prev (bs ! b)\<rparr>];
          p = b_prev (bs ! b)
      in bs[p := (bs ! p)\<lparr>b_next := b_next (bs ! b)\<rparr>])"

fun binit_loop :: "nat list \<Rightarrow> buf list \<Rightarrow> buf list" where
  "binit_loop [] bs = bs"
| "binit_loop (b # is) bs =
     binit_loop is (link_front b (bs[b := (bs ! b)\<lparr>b_lock := initsleeplock\<rparr>]))"

definition binit :: "'a bstate_scheme \<Rightarrow> 'a bstate_scheme" where
  "binit s =
     s\<lparr>bufs := binit_loop [0..<NBUF]
         ((bufs s)[HEAD := (bufs s ! HEAD)\<lparr>b_prev := HEAD, b_next := HEAD\<rparr>])\<rparr>"

primrec bget_find :: "nat \<Rightarrow> nat \<Rightarrow> u32 \<Rightarrow> u32 \<Rightarrow> buf list \<Rightarrow> nat option res" where
  "bget_find 0 b dev blockno bs = Fail NoFuel"
| "bget_find (Suc n) b dev blockno bs =
     (if b = HEAD then Ok None
      else if b_dev (bs ! b) = dev \<and> b_blockno (bs ! b) = blockno then Ok (Some b)
      else bget_find n (b_next (bs ! b)) dev blockno bs)"

primrec bget_recycle :: "nat \<Rightarrow> nat \<Rightarrow> buf list \<Rightarrow> nat option res" where
  "bget_recycle 0 b bs = Fail NoFuel"
| "bget_recycle (Suc n) b bs =
     (if b = HEAD then Ok None
      else if b_refcnt (bs ! b) = 0 \<and> \<not> b_dirty (bs ! b) then Ok (Some b)
      else bget_recycle n (b_prev (bs ! b)) bs)"

definition lock_buf :: "nat \<Rightarrow> 'a bstate_scheme \<Rightarrow> 'a bstate_scheme res" where
  "lock_buf i s =
     bindr (acquiresleep (cur_pid s) (b_lock (bufs s ! i))) (\<lambda>lk.
     Ok (upd_buf i (\<lambda>b. b\<lparr>b_lock := lk\<rparr>) s))"

definition bget :: "u32 \<Rightarrow> u32 \<Rightarrow> 'a bstate_scheme \<Rightarrow> (nat \<times> 'a bstate_scheme) res" where
  "bget dev blockno s =
     bindr (bget_find (Suc NBUF) (b_next (bufs s ! HEAD)) dev blockno (bufs s)) (\<lambda>r.
     case r of
       Some i \<Rightarrow>
         bindr (lock_buf i (upd_buf i (\<lambda>b. b\<lparr>b_refcnt := b_refcnt b + 1\<rparr>) s)) (\<lambda>s. Ok (i, s))
     | None \<Rightarrow>
         bindr (bget_recycle (Suc NBUF) (b_prev (bufs s ! HEAD)) (bufs s)) (\<lambda>r.
         case r of
           Some i \<Rightarrow>
             bindr (lock_buf i (upd_buf i (\<lambda>b. b\<lparr>b_dev := dev, b_blockno := blockno,
                 b_valid := False, b_dirty := False, b_refcnt := 1\<rparr>) s)) (\<lambda>s. Ok (i, s))
         | None \<Rightarrow> Fail (Panic ''bget: no buffers'')))"

definition bread :: "u32 \<Rightarrow> u32 \<Rightarrow> 'a bstate_scheme \<Rightarrow> (nat \<times> 'a bstate_scheme) res" where
  "bread dev blockno s =
     bindr (bget dev blockno s) (\<lambda>(i, s).
     if \<not> b_valid (bufs s ! i) then bindr (iderw i s) (\<lambda>s. Ok (i, s)) else Ok (i, s))"

definition bwrite :: "nat \<Rightarrow> 'a bstate_scheme \<Rightarrow> 'a bstate_scheme res" where
  "bwrite i s =
     (if \<not> holdingsleep (b_lock (bufs s ! i)) then Fail (Panic ''bwrite'')
      else iderw i (upd_buf i (\<lambda>b. b\<lparr>b_dirty := True\<rparr>) s))"

definition brelse :: "nat \<Rightarrow> 'a bstate_scheme \<Rightarrow> 'a bstate_scheme res" where
  "brelse i s =
     (if \<not> holdingsleep (b_lock (bufs s ! i)) then Fail (Panic ''brelse'')
      else
        (let s = upd_buf i (\<lambda>b. b\<lparr>b_lock := releasesleep (b_lock b)\<rparr>) s;
             s = upd_buf i (\<lambda>b. b\<lparr>b_refcnt := b_refcnt b - 1\<rparr>) s
         in if b_refcnt (bufs s ! i) = 0
            then Ok (s\<lparr>bufs := link_front i (unlink_buf i (bufs s))\<rparr>)
            else Ok s))"

text \<open>Access to the data of a buffer through its pointer, as the callers do.\<close>

definition bdata :: "nat \<Rightarrow> 'a bstate_scheme \<Rightarrow> block" where
  "bdata i s = b_data (bufs s ! i)"

definition set_bdata :: "nat \<Rightarrow> block \<Rightarrow> 'a bstate_scheme \<Rightarrow> 'a bstate_scheme" where
  "set_bdata i d s = upd_buf i (\<lambda>b. b\<lparr>b_data := d\<rparr>) s"

section \<open>The list of buffers\<close>

text \<open>
  \<open>links bs a xs c\<close>: from node \<open>a\<close> the pointers lead through \<open>xs\<close> to node \<open>c\<close>, forwards by
  \<open>next\<close> and backwards by \<open>prev\<close>.  \<open>lru bs xs\<close>: the ring through the head holds every
  buffer once, in the order \<open>xs\<close>.
\<close>

fun links :: "buf list \<Rightarrow> nat \<Rightarrow> nat list \<Rightarrow> nat \<Rightarrow> bool" where
  "links bs a [] c \<longleftrightarrow> b_next (bs ! a) = c \<and> b_prev (bs ! c) = a"
| "links bs a (x # xs) c \<longleftrightarrow> b_next (bs ! a) = x \<and> b_prev (bs ! x) = a \<and> links bs x xs c"

definition lru :: "buf list \<Rightarrow> nat list \<Rightarrow> bool" where
  "lru bs xs \<longleftrightarrow> length bs = Suc NBUF \<and> distinct xs \<and> set xs = {..<NBUF} \<and> links bs HEAD xs HEAD"

lemma links_append [simp]:
  "links bs a (xs @ x # ys) c \<longleftrightarrow> links bs a xs x \<and> links bs x ys c"
  by (induction xs arbitrary: a) auto

lemma links_cong:
  assumes "\<And>i. i \<in> insert a (set xs) \<Longrightarrow> b_next (bs' ! i) = b_next (bs ! i)"
    and "\<And>i. i \<in> insert c (set xs) \<Longrightarrow> b_prev (bs' ! i) = b_prev (bs ! i)"
  shows "links bs' a xs c \<longleftrightarrow> links bs a xs c"
  using assms by (induction xs arbitrary: a) auto

lemma links_next_hd: "links bs a xs c \<Longrightarrow> b_next (bs ! a) = hd (xs @ [c])"
  by (cases xs) auto

lemma links_prev_last: "links bs a xs c \<Longrightarrow> b_prev (bs ! c) = last (a # xs)"
  by (induction xs arbitrary: a) auto

lemma bget_find_links:
  assumes "links bs a xs HEAD" "HEAD \<notin> set xs" "length xs < n"
  shows "bget_find n (b_next (bs ! a)) dev blockno bs =
    Ok (find (\<lambda>i. b_dev (bs ! i) = dev \<and> b_blockno (bs ! i) = blockno) xs)"
  using assms
proof (induction xs arbitrary: a n)
  case Nil
  then show ?case by (cases n) auto
next
  case (Cons x xs)
  then obtain k where "n = Suc k" by (cases n) auto
  with Cons show ?case by auto
qed

lemma bget_recycle_links:
  assumes "links bs HEAD xs c" "HEAD \<notin> set xs" "length xs < n"
  shows "bget_recycle n (b_prev (bs ! c)) bs =
    Ok (find (\<lambda>i. b_refcnt (bs ! i) = 0 \<and> \<not> b_dirty (bs ! i)) (rev xs))"
  using assms
proof (induction xs arbitrary: c n rule: rev_induct)
  case Nil
  then show ?case by (cases n) auto
next
  case (snoc x xs)
  then obtain k where "n = Suc k" by (cases n) auto
  with snoc show ?case by auto
qed

declare bget_find.simps [simp del] bget_recycle.simps [simp del]

lemma links_retarget:
  assumes "links bs a xs b" "distinct (a # xs)"
    and "\<And>i. i \<in> set (butlast (a # xs)) \<Longrightarrow> b_next (bs' ! i) = b_next (bs ! i)"
    and "\<And>i. i \<in> set xs \<Longrightarrow> b_prev (bs' ! i) = b_prev (bs ! i)"
    and "b_next (bs' ! last (a # xs)) = d" "b_prev (bs' ! d) = last (a # xs)"
  shows "links bs' a xs d"
  using assms by (induction xs arbitrary: a) auto

lemma nth_update_at: "i < length xs \<Longrightarrow> xs[i := v] ! j = (if j = i then v else xs ! j)"
  by (cases "j = i") auto

lemma nth_update_record:
  "i < length bs \<Longrightarrow> bs[j := v] ! i = (if i = j then v else bs ! i)"
  by (simp add: nth_list_update)

lemma unlink_buf_pointers:
  assumes "b < length bs" "b_next (bs ! b) < length bs" "b_prev (bs ! b) < length bs"
    and "b_next (bs ! b) \<noteq> b" "b_prev (bs ! b) \<noteq> b" "i < length bs"
  shows "b_next (unlink_buf b bs ! i) = (if i = b_prev (bs ! b) then b_next (bs ! b) else b_next (bs ! i))"
    and "b_prev (unlink_buf b bs ! i) = (if i = b_next (bs ! b) then b_prev (bs ! b) else b_prev (bs ! i))"
  using assms by (auto simp: unlink_buf_def Let_def nth_update_record)

lemma link_front_pointers:
  assumes "b < length bs" "HEAD < length bs" "b \<noteq> HEAD"
    and "b_next (bs ! HEAD) < length bs" "b_next (bs ! HEAD) \<noteq> b" "i < length bs"
  shows "b_next (link_front b bs ! i) =
      (if i = b then b_next (bs ! HEAD) else if i = HEAD then b else b_next (bs ! i))"
    and "b_prev (link_front b bs ! i) =
      (if i = b_next (bs ! HEAD) then b else if i = b then HEAD else b_prev (bs ! i))"
  using assms by (auto simp: link_front_def Let_def nth_update_record)

lemma length_unlink_buf [simp]: "length (unlink_buf b bs) = length bs"
  by (simp add: unlink_buf_def Let_def)

lemma length_link_front [simp]: "length (link_front b bs) = length bs"
  by (simp add: link_front_def Let_def)

text \<open>Everything of a buffer but its place in the list.\<close>

definition bcore :: "buf \<Rightarrow> buf" where
  "bcore b = b\<lparr>b_prev := 0, b_next := 0\<rparr>"

lemma bcore_sel [simp]:
  "b_valid (bcore b) = b_valid b" "b_dirty (bcore b) = b_dirty b" "b_dev (bcore b) = b_dev b"
  "b_blockno (bcore b) = b_blockno b" "b_lock (bcore b) = b_lock b"
  "b_refcnt (bcore b) = b_refcnt b" "b_data (bcore b) = b_data b"
  by (simp_all add: bcore_def)

lemma bcore_pointers [simp]:
  "bcore (b\<lparr>b_prev := x\<rparr>) = bcore b" "bcore (b\<lparr>b_next := x\<rparr>) = bcore b"
  by (simp_all add: bcore_def)

lemma map_update_same: "f v = f (xs ! i) \<Longrightarrow> map f (xs[i := v]) = map f xs"
  by (metis list_update_id map_update)

lemma map_bcore_unlink [simp]: "map bcore (unlink_buf b bs) = map bcore bs"
  by (simp add: unlink_buf_def Let_def map_update_same)

lemma map_bcore_link_front [simp]: "map bcore (link_front b bs) = map bcore bs"
  by (simp add: link_front_def Let_def map_update_same del: list_update_overwrite)

lemma links_bounds:
  "links bs a xs c \<Longrightarrow> i \<in> set xs \<Longrightarrow>
   b_next (bs ! i) \<in> insert c (set xs) \<and> b_prev (bs ! i) \<in> insert a (set xs)"
proof (induction xs arbitrary: a)
  case (Cons x xs)
  have nx: "b_next (bs ! x) \<in> insert c (set xs)"
    using Cons.prems(1) by (cases xs) auto
  show ?case
  proof (cases "i = x")
    case True
    with Cons.prems nx show ?thesis by auto
  next
    case False
    with Cons.prems Cons.IH [of x] show ?thesis by auto
  qed
qed simp

lemma butlast_distinct:
  "distinct (a # xs) \<Longrightarrow> i \<in> set (butlast (a # xs)) \<Longrightarrow> i \<noteq> last (a # xs) \<and> i \<in> set (a # xs)"
  by (cases xs rule: rev_cases) (auto simp: butlast_append split: if_splits)

lemma unlink_ring:
  assumes ring: "links bs a as b" "links bs b cs c"
    and dist: "distinct (a # as @ b # cs)" "c \<notin> set (as @ b # cs)"
    and lt: "\<And>i. i \<in> insert c (set (a # as @ b # cs)) \<Longrightarrow> i < length bs"
  shows "links (unlink_buf b bs) a (as @ cs) c"
proof -
  let ?p = "last (a # as)" and ?n = "hd (cs @ [c])"
  have p: "b_prev (bs ! b) = ?p" and n: "b_next (bs ! b) = ?n"
    using ring by (simp_all add: links_prev_last links_next_hd)
  have p_in: "?p \<in> set (a # as)" by (rule last_in_set) simp
  have n_in: "?n \<in> insert c (set cs)" by (cases cs) auto
  have idx: "b < length bs" "b_next (bs ! b) < length bs" "b_prev (bs ! b) < length bs"
      "b_next (bs ! b) \<noteq> b" "b_prev (bs ! b) \<noteq> b"
    unfolding p n using p_in n_in dist lt by auto
  note ptr = unlink_buf_pointers [OF idx, unfolded p n]
  have left: "links (unlink_buf b bs) a as ?n"
  proof (rule links_retarget [OF ring(1)])
    show "distinct (a # as)" using dist by simp
    show "b_next (unlink_buf b bs ! i) = b_next (bs ! i)" if "i \<in> set (butlast (a # as))" for i
    proof -
      have "i \<noteq> ?p" "i \<in> set (a # as)"
        using butlast_distinct [OF _ that] dist(1) by (simp_all del: butlast.simps last.simps)
      moreover from this(2) have "i < length bs" by (intro lt) auto
      ultimately show ?thesis by (simp only: ptr if_False)
    qed
    show "b_prev (unlink_buf b bs ! i) = b_prev (bs ! i)" if "i \<in> set as" for i
      using that n_in dist lt by (auto simp: ptr)
    have "?p < length bs" by (rule lt) (use p_in in simp)
    then show "b_next (unlink_buf b bs ! ?p) = ?n" by (simp only: ptr if_True refl)
    have "?n < length bs" by (rule lt) (use n_in in auto)
    then show "b_prev (unlink_buf b bs ! ?n) = ?p" by (simp only: ptr if_True refl)
  qed
  show ?thesis
  proof (cases cs)
    case Nil
    with left show ?thesis by simp
  next
    case (Cons y ys)
    have "links (unlink_buf b bs) y ys c \<longleftrightarrow> links bs y ys c"
    proof (rule links_cong)
      show "b_next (unlink_buf b bs ! i) = b_next (bs ! i)" if "i \<in> insert y (set ys)" for i
      proof -
        have "i \<in> set cs" using that Cons by simp
        moreover from this have "i \<noteq> ?p" using p_in dist(1) by (auto simp del: last.simps)
        moreover from calculation have "i < length bs" by (intro lt) simp
        ultimately show ?thesis by (simp only: ptr if_False)
      qed
      show "b_prev (unlink_buf b bs ! i) = b_prev (bs ! i)" if "i \<in> insert c (set ys)" for i
      proof -
        have "i \<noteq> ?n" using that dist Cons by auto
        moreover have "i < length bs" by (rule lt) (use that Cons in auto)
        ultimately show ?thesis by (simp only: ptr if_False)
      qed
    qed
    with left ring(2) Cons show ?thesis by simp
  qed
qed

lemma link_front_ring:
  assumes ring: "links bs HEAD xs HEAD" and dist: "distinct xs" "b \<notin> set xs" "b \<noteq> HEAD" "HEAD \<notin> set xs"
    and lt: "\<And>i. i \<in> insert b (insert HEAD (set xs)) \<Longrightarrow> i < length bs"
  shows "links (link_front b bs) HEAD (b # xs) HEAD"
proof -
  have n_in: "b_next (bs ! HEAD) \<in> insert HEAD (set xs)"
    using links_next_hd [OF ring] by (cases xs) auto
  have idx: "b < length bs" "HEAD < length bs" "b \<noteq> HEAD"
      "b_next (bs ! HEAD) < length bs" "b_next (bs ! HEAD) \<noteq> b"
    using n_in dist lt by auto
  note ptr = link_front_pointers [OF idx]
  show ?thesis
  proof (cases xs)
    case Nil
    with ring idx show ?thesis by (auto simp: ptr)
  next
    case (Cons y ys)
    have y: "b_next (bs ! HEAD) = y" using ring Cons by simp
    have "links (link_front b bs) y ys HEAD \<longleftrightarrow> links bs y ys HEAD"
    proof (rule links_cong)
      show "b_next (link_front b bs ! i) = b_next (bs ! i)" if "i \<in> insert y (set ys)" for i
      proof -
        have "i \<noteq> b" "i \<noteq> HEAD" using that dist Cons by auto
        moreover have "i < length bs" by (rule lt) (use that Cons in auto)
        ultimately show ?thesis by (simp only: ptr if_False)
      qed
      show "b_prev (link_front b bs ! i) = b_prev (bs ! i)" if "i \<in> insert HEAD (set ys)" for i
      proof -
        have "i \<noteq> b" "i \<noteq> y" using that dist Cons by auto
        moreover have "i < length bs" by (rule lt) (use that Cons in auto)
        ultimately show ?thesis by (simp only: ptr y if_False)
      qed
    qed
    moreover have "y < length bs" using idx(4) y by simp
    ultimately show ?thesis using ring Cons y idx dist by (auto simp: ptr)
  qed
qed

lemma lru_move_front:
  assumes lru: "lru bs xs" and b: "b \<in> set xs"
  shows "lru (link_front b (unlink_buf b bs)) (b # remove1 b xs)"
proof -
  obtain as cs where xs: "xs = as @ b # cs" and nas: "b \<notin> set as"
    using split_list_first [OF b] by blast
  have len: "length bs = Suc NBUF" and dist: "distinct xs" and all: "set xs = {..<NBUF}"
    and ring: "links bs HEAD as b" "links bs b cs HEAD"
    using lru by (auto simp: lru_def xs)
  have hd_notin: "HEAD \<notin> set xs" by (simp add: all HEAD_def)
  have lt: "i < length bs" if "i \<in> insert HEAD (set xs)" for i
    using that by (auto simp: len all HEAD_def)
  have "links (unlink_buf b bs) HEAD (as @ cs) HEAD"
    using ring by (rule unlink_ring) (use dist hd_notin lt in \<open>auto simp: xs\<close>)
  then have "links (link_front b (unlink_buf b bs)) HEAD (b # as @ cs) HEAD"
    by (rule link_front_ring) (use dist hd_notin lt in \<open>auto simp: xs\<close>)
  with len dist all show ?thesis
    by (auto simp: lru_def xs remove1_append nas)
qed

lemma binit_loop_ring:
  assumes "links bs HEAD xs HEAD" "length bs = Suc NBUF" "distinct (is @ xs)" "set (is @ xs) \<subseteq> {..<NBUF}"
  shows "links (binit_loop is bs) HEAD (rev is @ xs) HEAD \<and> length (binit_loop is bs) = Suc NBUF"
  using assms
proof (induction "is" arbitrary: bs xs)
  case Nil
  then show ?case by simp
next
  case (Cons b "is")
  let ?bs = "bs[b := (bs ! b)\<lparr>b_lock := initsleeplock\<rparr>]"
  have "links ?bs HEAD xs HEAD"
  proof -
    have "links ?bs HEAD xs HEAD \<longleftrightarrow> links bs HEAD xs HEAD"
      using Cons.prems by (intro links_cong) (auto simp: nth_list_update HEAD_def)
    with Cons.prems show ?thesis by simp
  qed
  then have "links (link_front b ?bs) HEAD (b # xs) HEAD"
    by (rule link_front_ring) (use Cons.prems in \<open>auto simp: HEAD_def\<close>)
  with Cons.prems Cons.IH [of "link_front b ?bs" "b # xs"] show ?case
    by auto
qed

lemma binit_lru:
  assumes "length (bufs s) = Suc NBUF"
  shows "lru (bufs (binit s)) (rev [0..<NBUF])"
proof -
  let ?bs = "(bufs s)[HEAD := (bufs s ! HEAD)\<lparr>b_prev := HEAD, b_next := HEAD\<rparr>]"
  have "links ?bs HEAD [] HEAD"
    using assms by (simp add: HEAD_def)
  then have "links (binit_loop [0..<NBUF] ?bs) HEAD (rev [0..<NBUF] @ []) HEAD \<and>
      length (binit_loop [0..<NBUF] ?bs) = Suc NBUF"
    using assms by (intro binit_loop_ring) auto
  then show ?thesis
    by (auto simp: lru_def binit_def)
qed

section \<open>Invariant and abstract state\<close>

text \<open>
  Between operations a buffer is either unused since boot (device 0) or holds a block of
  device 1; it has one reference exactly while it is locked, and an unlocked clean buffer
  agrees with the disk.
\<close>

definition bufok :: "(u32 \<Rightarrow> block) \<Rightarrow> u32 \<Rightarrow> buf \<Rightarrow> bool" where
  "bufok disk n b \<longleftrightarrow>
     length (b_data b) = BSIZE \<and>
     (b_valid b \<longrightarrow> b_dev b = 1 \<and> b_blockno b < n) \<and>
     (\<not> b_valid b \<longrightarrow> b_dev b = 0 \<and> \<not> b_dirty b \<and> \<not> sl_locked (b_lock b)) \<and>
     b_refcnt b = (if sl_locked (b_lock b) then 1 else 0) \<and>
     (b_valid b \<longrightarrow> \<not> b_dirty b \<longrightarrow> \<not> sl_locked (b_lock b) \<longrightarrow> b_data b = disk (b_blockno b))"

definition bio_inv :: "'a bstate_scheme \<Rightarrow> bool" where
  "bio_inv s \<longleftrightarrow>
     (\<exists>xs. lru (bufs s) xs) \<and>
     (\<forall>i<NBUF. bufok (memdisk s) (disksize s) (bufs s ! i)) \<and>
     (\<forall>b. length (memdisk s b) = BSIZE) \<and>
     (\<forall>i<NBUF. \<forall>j<NBUF. b_valid (bufs s ! i) \<longrightarrow> b_valid (bufs s ! j) \<longrightarrow>
        b_blockno (bufs s ! i) = b_blockno (bufs s ! j) \<longrightarrow> i = j)"

definition cached :: "'a bstate_scheme \<Rightarrow> u32 \<Rightarrow> nat option" where
  "cached s b = find (\<lambda>i. b_valid (bufs s ! i) \<and> b_blockno (bufs s ! i) = b) [0..<NBUF]"

definition view :: "'a bstate_scheme \<Rightarrow> u32 \<Rightarrow> block" where
  "view s b = (case cached s b of Some i \<Rightarrow> bdata i s | None \<Rightarrow> memdisk s b)"

definition dirty :: "'a bstate_scheme \<Rightarrow> u32 set" where
  "dirty s = {b. \<exists>i<NBUF. b_dirty (bufs s ! i) \<and> b_blockno (bufs s ! i) = b}"

definition locked :: "'a bstate_scheme \<Rightarrow> u32 set" where
  "locked s = {b. \<exists>i<NBUF. sl_locked (b_lock (bufs s ! i)) \<and> b_blockno (bufs s ! i) = b}"

definition holds :: "'a bstate_scheme \<Rightarrow> nat \<Rightarrow> u32 \<Rightarrow> bool" where
  "holds s i b \<longleftrightarrow> i < NBUF \<and> b_valid (bufs s ! i) \<and> b_blockno (bufs s ! i) = b \<and>
     sl_locked (b_lock (bufs s ! i))"

lemma bio_inv_length: "bio_inv s \<Longrightarrow> length (bufs s) = Suc NBUF"
  by (auto simp: bio_inv_def lru_def)

lemma bio_inv_bufok: "bio_inv s \<Longrightarrow> i < NBUF \<Longrightarrow> bufok (memdisk s) (disksize s) (bufs s ! i)"
  by (auto simp: bio_inv_def)

lemma bio_inv_uniq:
  "bio_inv s \<Longrightarrow> i < NBUF \<Longrightarrow> j < NBUF \<Longrightarrow> b_valid (bufs s ! i) \<Longrightarrow> b_valid (bufs s ! j) \<Longrightarrow>
   b_blockno (bufs s ! i) = b_blockno (bufs s ! j) \<Longrightarrow> i = j"
  by (auto simp: bio_inv_def)

lemma bio_inv_disk: "bio_inv s \<Longrightarrow> length (memdisk s b) = BSIZE"
  by (auto simp: bio_inv_def)

lemma find_None_upt: "find P [0..<n] = None \<longleftrightarrow> (\<forall>i<n. \<not> P i)"
  by (auto simp: find_None_iff)

lemma find_Some_upt: "find P [0..<n] = Some i \<Longrightarrow> i < n \<and> P i"
  by (auto simp: find_Some_iff)

lemma view_in_buf:
  assumes "bio_inv s" "i < NBUF" "b_valid (bufs s ! i)" "b_blockno (bufs s ! i) = b"
  shows "view s b = b_data (bufs s ! i)"
proof (cases "cached s b")
  case None
  with assms show ?thesis by (auto simp: cached_def find_None_upt)
next
  case (Some j)
  then have "j < NBUF" "b_valid (bufs s ! j)" "b_blockno (bufs s ! j) = b"
    by (auto simp: cached_def dest!: find_Some_upt)
  then have "j = i" using assms by (intro bio_inv_uniq [of s]) auto
  with Some show ?thesis by (simp add: view_def bdata_def)
qed

lemma view_on_disk:
  "(\<And>i. i < NBUF \<Longrightarrow> b_valid (bufs s ! i) \<Longrightarrow> b_blockno (bufs s ! i) \<noteq> b) \<Longrightarrow> view s b = memdisk s b"
  unfolding view_def cached_def by (subst iffD2 [OF find_None_upt]) auto

lemma holds_view: "bio_inv s \<Longrightarrow> holds s i b \<Longrightarrow> bdata i s = view s b"
  by (auto simp: holds_def view_in_buf bdata_def)

lemma length_view: "bio_inv s \<Longrightarrow> length (view s b) = BSIZE"
  by (cases "cached s b")
    (auto simp: view_def bio_inv_disk bdata_def cached_def bufok_def dest!: find_Some_upt bio_inv_bufok)

text \<open>
  How a change of one buffer, with the disk changed at most at the block it holds, changes
  the abstract state.
\<close>

lemma bio_inv_upd:
  assumes inv: "bio_inv s" and i: "i < NBUF"
    and bufs': "bufs s' = (bufs s)[i := b']" "b_next b' = b_next (bufs s ! i)" "b_prev b' = b_prev (bufs s ! i)"
    and disk: "\<And>b. b_valid b' \<Longrightarrow> b \<noteq> b_blockno b' \<Longrightarrow> memdisk s' b = memdisk s b"
      "\<not> b_valid b' \<Longrightarrow> memdisk s' = memdisk s" "\<And>b. length (memdisk s' b) = BSIZE"
      "disksize s' = disksize s"
    and ok: "bufok (memdisk s') (disksize s') b'"
    and uniq: "\<And>j. j < NBUF \<Longrightarrow> j \<noteq> i \<Longrightarrow> b_valid b' \<Longrightarrow> b_valid (bufs s ! j) \<Longrightarrow>
      b_blockno (bufs s ! j) \<noteq> b_blockno b'"
  shows "bio_inv s'"
proof -
  have len: "length (bufs s) = Suc NBUF" using inv by (rule bio_inv_length)
  have il: "i < length (bufs s)" using i len by simp
  obtain xs where xs: "lru (bufs s) xs" using inv by (auto simp: bio_inv_def)
  have "links (bufs s') HEAD xs HEAD \<longleftrightarrow> links (bufs s) HEAD xs HEAD"
    using bufs' by (intro links_cong) (auto simp: nth_update_at il)
  with xs have "lru (bufs s') xs" by (simp add: lru_def bufs')
  moreover have "bufok (memdisk s') (disksize s') (bufs s' ! j)" if "j < NBUF" for j
  proof (cases "j = i")
    case True
    with ok i len show ?thesis by (simp add: bufs')
  next
    case False
    have "bufok (memdisk s) (disksize s) (bufs s ! j)" using inv that by (rule bio_inv_bufok)
    moreover have "memdisk s' (b_blockno (bufs s ! j)) = memdisk s (b_blockno (bufs s ! j))"
      if "b_valid (bufs s ! j)"
      using disk uniq [of j] \<open>j < NBUF\<close> False that by (cases "b_valid b'") auto
    ultimately show ?thesis using False by (auto simp: bufok_def bufs' disk)
  qed
  moreover have "j = k" if "j < NBUF" "k < NBUF" "b_valid (bufs s' ! j)" "b_valid (bufs s' ! k)"
      "b_blockno (bufs s' ! j) = b_blockno (bufs s' ! k)" for j k
    using that uniq [of j] uniq [of k] bio_inv_uniq [OF inv, of j k] i len
    by (auto simp: bufs' nth_list_update split: if_splits)
  ultimately show ?thesis
    using disk by (auto simp: bio_inv_def)
qed

lemma nth_upd_buf [simp]:
  "i < length (bufs s) \<Longrightarrow> bufs (upd_buf i f s) ! j = (if j = i then f (bufs s ! i) else bufs s ! j)"
  by (auto simp: upd_buf_def nth_update_at)

lemma upd_buf_sel [simp]:
  "memdisk (upd_buf i f s) = memdisk s" "disksize (upd_buf i f s) = disksize s"
  "dhist (upd_buf i f s) = dhist s" "cur_pid (upd_buf i f s) = cur_pid s"
  "bstate.more (upd_buf i f s) = bstate.more s" "length (bufs (upd_buf i f s)) = length (bufs s)"
  by (simp_all add: upd_buf_def)

lemma upd_buf_upd_buf [simp]:
  "i < length (bufs s) \<Longrightarrow> upd_buf i f (upd_buf i g s) = upd_buf i (\<lambda>b. f (g b)) s"
  by (simp add: upd_buf_def)

lemma bio_inv_upd_buf:
  assumes inv: "bio_inv s" and i: "i < NBUF"
    and "b_next (f (bufs s ! i)) = b_next (bufs s ! i)" "b_prev (f (bufs s ! i)) = b_prev (bufs s ! i)"
    and "bufok (memdisk s) (disksize s) (f (bufs s ! i))"
    and "\<And>j. j < NBUF \<Longrightarrow> j \<noteq> i \<Longrightarrow> b_valid (f (bufs s ! i)) \<Longrightarrow> b_valid (bufs s ! j) \<Longrightarrow>
      b_blockno (bufs s ! j) \<noteq> b_blockno (f (bufs s ! i))"
  shows "bio_inv (upd_buf i f s)"
  by (rule bio_inv_upd [OF inv i, where b' = "f (bufs s ! i)"])
    (use assms bio_inv_disk [OF inv] in \<open>simp_all add: upd_buf_def\<close>)

lemma bio_inv_upd_same_block:
  assumes inv: "bio_inv s" and i: "i < NBUF"
    and ptr: "b_next (f (bufs s ! i)) = b_next (bufs s ! i)" "b_prev (f (bufs s ! i)) = b_prev (bufs s ! i)"
    and ok: "bufok (memdisk s) (disksize s) (f (bufs s ! i))"
    and same: "b_valid (f (bufs s ! i)) = b_valid (bufs s ! i)" "b_blockno (f (bufs s ! i)) = b_blockno (bufs s ! i)"
  shows "bio_inv (upd_buf i f s)"
proof (rule bio_inv_upd_buf [where f = f, OF inv i ptr ok])
  fix j assume "j < NBUF" "j \<noteq> i" "b_valid (f (bufs s ! i))" "b_valid (bufs s ! j)"
  then show "b_blockno (bufs s ! j) \<noteq> b_blockno (f (bufs s ! i))"
    using bio_inv_uniq [OF inv _ i, of j] same by auto
qed

section \<open>The operations on the abstract state\<close>

lemma lru_length: "lru bs xs \<Longrightarrow> length xs = NBUF"
  by (metis card_lessThan distinct_card lru_def)

lemma lru_head_notin: "lru bs xs \<Longrightarrow> HEAD \<notin> set xs"
  by (auto simp: lru_def HEAD_def)

lemma bget_find_spec:
  assumes "bio_inv s"
  obtains r where "bget_find (Suc NBUF) (b_next (bufs s ! HEAD)) dev b (bufs s) = Ok r"
    "\<And>i. r = Some i \<Longrightarrow> i < NBUF \<and> b_dev (bufs s ! i) = dev \<and> b_blockno (bufs s ! i) = b"
    "\<And>i. r = None \<Longrightarrow> i < NBUF \<Longrightarrow> b_dev (bufs s ! i) = dev \<Longrightarrow> b_blockno (bufs s ! i) \<noteq> b"
proof -
  obtain xs where xs: "lru (bufs s) xs" using assms by (auto simp: bio_inv_def)
  let ?r = "find (\<lambda>i. b_dev (bufs s ! i) = dev \<and> b_blockno (bufs s ! i) = b) xs"
  have all: "set xs = {..<NBUF}" using xs by (simp add: lru_def)
  have eq: "bget_find (Suc NBUF) (b_next (bufs s ! HEAD)) dev b (bufs s) = Ok ?r"
    using xs lru_length [OF xs] lru_head_notin [OF xs]
    by (intro bget_find_links) (auto simp: lru_def)
  show ?thesis
  proof (rule that [OF eq])
    show "i < NBUF \<and> b_dev (bufs s ! i) = dev \<and> b_blockno (bufs s ! i) = b" if "?r = Some i" for i
      using that all nth_mem by (fastforce simp: find_Some_iff)
    show "b_blockno (bufs s ! i) \<noteq> b" if "?r = None" "i < NBUF" "b_dev (bufs s ! i) = dev" for i
      using that all by (auto simp: find_None_iff)
  qed
qed

lemma bget_recycle_spec:
  assumes "bio_inv s"
  obtains r where "bget_recycle (Suc NBUF) (b_prev (bufs s ! HEAD)) (bufs s) = Ok r"
    "\<And>i. r = Some i \<Longrightarrow> i < NBUF \<and> b_refcnt (bufs s ! i) = 0 \<and> \<not> b_dirty (bufs s ! i)"
    "\<And>i. r = None \<Longrightarrow> i < NBUF \<Longrightarrow> b_refcnt (bufs s ! i) = 0 \<Longrightarrow> b_dirty (bufs s ! i)"
proof -
  obtain xs where xs: "lru (bufs s) xs" using assms by (auto simp: bio_inv_def)
  let ?r = "find (\<lambda>i. b_refcnt (bufs s ! i) = 0 \<and> \<not> b_dirty (bufs s ! i)) (rev xs)"
  have all: "set (rev xs) = {..<NBUF}" using xs by (simp add: lru_def)
  have eq: "bget_recycle (Suc NBUF) (b_prev (bufs s ! HEAD)) (bufs s) = Ok ?r"
    using xs lru_length [OF xs] lru_head_notin [OF xs]
    by (intro bget_recycle_links) (auto simp: lru_def)
  show ?thesis
  proof (rule that [OF eq])
    show "i < NBUF \<and> b_refcnt (bufs s ! i) = 0 \<and> \<not> b_dirty (bufs s ! i)" if "?r = Some i" for i
      using that all nth_mem [of _ "rev xs"] by (fastforce simp: find_Some_iff)
    show "b_dirty (bufs s ! i)" if "?r = None" "i < NBUF" "b_refcnt (bufs s ! i) = 0" for i
      using that all by (auto simp: find_None_iff)
  qed
qed

text \<open>What a successful \<open>bread\<close> does to the buffer it returns: a hit locks it, a miss also loads it.\<close>

definition hit_buf :: "int \<Rightarrow> buf \<Rightarrow> buf" where
  "hit_buf pid x = x\<lparr>b_refcnt := 1, b_lock := \<lparr>sl_locked = True, sl_pid = pid\<rparr>\<rparr>"

definition miss_buf :: "int \<Rightarrow> u32 \<Rightarrow> block \<Rightarrow> buf \<Rightarrow> buf" where
  "miss_buf pid b d x = x\<lparr>b_valid := True, b_dirty := False, b_dev := 1, b_blockno := b,
     b_refcnt := 1, b_lock := \<lparr>sl_locked = True, sl_pid = pid\<rparr>, b_data := d\<rparr>"

lemma sleeplock_eq: "lk\<lparr>sl_locked := a, sl_pid := p\<rparr> = \<lparr>sl_locked = a, sl_pid = p\<rparr>"
  by (cases lk) simp

lemma upd_buf_cong: "f (bufs s ! i) = g (bufs s ! i) \<Longrightarrow> upd_buf i f s = upd_buf i g s"
  by (simp add: upd_buf_def)

lemma bread_hit:
  assumes inv: "bio_inv s" and i: "i < NBUF" "b_valid (bufs s ! i)" "b_blockno (bufs s ! i) = b"
    and free: "\<not> sl_locked (b_lock (bufs s ! i))"
  shows "bread 1 b s = Ok (i, upd_buf i (hit_buf (cur_pid s)) s)"
proof -
  have len: "i < length (bufs s)" using i bio_inv_length [OF inv] by simp
  have ok: "bufok (memdisk s) (disksize s) (bufs s ! i)" using inv i(1) by (rule bio_inv_bufok)
  obtain r where r: "bget_find (Suc NBUF) (b_next (bufs s ! HEAD)) 1 b (bufs s) = Ok r"
    "\<And>j. r = Some j \<Longrightarrow> j < NBUF \<and> b_dev (bufs s ! j) = 1 \<and> b_blockno (bufs s ! j) = b"
    "\<And>j. r = None \<Longrightarrow> j < NBUF \<Longrightarrow> b_dev (bufs s ! j) = 1 \<Longrightarrow> b_blockno (bufs s ! j) \<noteq> b"
    using bget_find_spec [OF inv] by blast
  have dev: "b_dev (bufs s ! i) = 1" using ok i by (simp add: bufok_def)
  obtain j where j: "r = Some j" using r(3) [of i] dev i by (cases r) auto
  have "b_valid (bufs s ! j)"
    using r(2) [OF j] bio_inv_bufok [OF inv, of j] by (auto simp: bufok_def)
  then have "j = i" using bio_inv_uniq [OF inv, of j i] r(2) [OF j] i by auto
  with r(1) j ok free i(2) len show ?thesis
    unfolding bread_def bget_def lock_buf_def acquiresleep_def hit_buf_def
    by (auto simp: sleeplock_eq bufok_def intro!: upd_buf_cong)
qed

lemma bread_Ok_cases:
  assumes inv: "bio_inv s" and rd: "bread dev b s = Ok (i, s')"
  shows "dev = 1 \<and> i < NBUF \<and> \<not> sl_locked (b_lock (bufs s ! i)) \<and>
    (b_valid (bufs s ! i) \<and> b_blockno (bufs s ! i) = b \<and> s' = upd_buf i (hit_buf (cur_pid s)) s \<or>
     (\<forall>j<NBUF. b_valid (bufs s ! j) \<longrightarrow> b_blockno (bufs s ! j) \<noteq> b) \<and> \<not> b_dirty (bufs s ! i) \<and>
     b < disksize s \<and> s' = upd_buf i (miss_buf (cur_pid s) b (memdisk s b)) s)"
proof -
  have len: "length (bufs s) = Suc NBUF" by (rule bio_inv_length [OF inv])
  obtain r where r: "bget_find (Suc NBUF) (b_next (bufs s ! HEAD)) dev b (bufs s) = Ok r"
    "\<And>j. r = Some j \<Longrightarrow> j < NBUF \<and> b_dev (bufs s ! j) = dev \<and> b_blockno (bufs s ! j) = b"
    "\<And>j. r = None \<Longrightarrow> j < NBUF \<Longrightarrow> b_dev (bufs s ! j) = dev \<Longrightarrow> b_blockno (bufs s ! j) \<noteq> b"
    using bget_find_spec [OF inv] by blast
  show ?thesis
  proof (cases r)
    case (Some j)
    note j = r(2) [OF Some] and ok = bio_inv_bufok [OF inv, of j]
    show ?thesis
    proof (cases "b_valid (bufs s ! j)")
      case True
      with rd r(1) Some j ok len show ?thesis
        unfolding bread_def bget_def lock_buf_def acquiresleep_def hit_buf_def
        by (auto simp: sleeplock_eq bufok_def res_simps split: if_splits intro!: upd_buf_cong)
    next
      case False
      with rd r(1) Some j ok len show ?thesis
        unfolding bread_def bget_def lock_buf_def acquiresleep_def iderw_def
        by (auto simp: bufok_def res_simps Let_def split: if_splits)
    qed
  next
    case None
    obtain q where q: "bget_recycle (Suc NBUF) (b_prev (bufs s ! HEAD)) (bufs s) = Ok q"
      "\<And>i. q = Some i \<Longrightarrow> i < NBUF \<and> b_refcnt (bufs s ! i) = 0 \<and> \<not> b_dirty (bufs s ! i)"
      "\<And>i. q = None \<Longrightarrow> i < NBUF \<Longrightarrow> b_refcnt (bufs s ! i) = 0 \<Longrightarrow> b_dirty (bufs s ! i)"
      using bget_recycle_spec [OF inv] by blast
    show ?thesis
    proof (cases q)
      case None': None
      with rd r(1) None q(1) show ?thesis by (simp add: bread_def bget_def)
    next
      case (Some j)
      note j = q(2) [OF Some] and ok = bio_inv_bufok [OF inv, of j]
      have nolock: "\<not> sl_locked (b_lock (bufs s ! j))" using j ok by (auto simp: bufok_def split: if_splits)
      from rd r(1) None q(1) Some j len nolock have "dev = 1" "i = j" "b < disksize s"
          "s' = upd_buf j (miss_buf (cur_pid s) b (memdisk s b)) s"
        unfolding bread_def bget_def lock_buf_def acquiresleep_def iderw_def miss_buf_def
        by (auto simp: sleeplock_eq res_simps Let_def holdingsleep_def not_le split: if_splits intro!: upd_buf_cong)
      moreover have "b_blockno (bufs s ! k) \<noteq> b" if "k < NBUF" "b_valid (bufs s ! k)" for k
        using r(3) [OF None, of k] bio_inv_bufok [OF inv, of k] that \<open>dev = 1\<close> by (auto simp: bufok_def)
      ultimately show ?thesis using j nolock by auto
    qed
  qed
qed

lemma view_upd_same:
  assumes "i < length (bufs s)" "b_valid (f (bufs s ! i)) = b_valid (bufs s ! i)"
    "b_blockno (f (bufs s ! i)) = b_blockno (bufs s ! i)" "b_data (f (bufs s ! i)) = b_data (bufs s ! i)"
  shows "view (upd_buf i f s) = view s"
proof
  fix b
  have "cached (upd_buf i f s) b = cached s b"
    unfolding cached_def using assms by (intro find_cong) auto
  then show "view (upd_buf i f s) b = view s b"
    using assms by (auto simp: view_def bdata_def split: option.splits)
qed

lemma ex_upd_iff:
  assumes "i < length (bufs s)" "i < NBUF" "P (f (bufs s ! i)) = P (bufs s ! i)"
  shows "(\<exists>j<NBUF. P (bufs (upd_buf i f s) ! j)) \<longleftrightarrow> (\<exists>j<NBUF. P (bufs s ! j))"
  using assms by (metis nth_upd_buf)

lemma dirty_upd_same:
  "i < NBUF \<Longrightarrow> i < length (bufs s) \<Longrightarrow> b_dirty (f (bufs s ! i)) = b_dirty (bufs s ! i) \<Longrightarrow>
   (b_dirty (bufs s ! i) \<Longrightarrow> b_blockno (f (bufs s ! i)) = b_blockno (bufs s ! i)) \<Longrightarrow>
   dirty (upd_buf i f s) = dirty s"
  unfolding dirty_def by (intro Collect_cong ex_upd_iff) auto

lemma locked_upd_lock:
  assumes "i < NBUF" "i < length (bufs s)" "\<not> sl_locked (b_lock (bufs s ! i))"
    "sl_locked (b_lock (f (bufs s ! i)))"
  shows "locked (upd_buf i f s) = insert (b_blockno (f (bufs s ! i))) (locked s)"
  using assms by (auto simp: locked_def split: if_splits)

lemma locked_in_buf:
  assumes "bio_inv s" "i < NBUF" "b_valid (bufs s ! i)"
  shows "b_blockno (bufs s ! i) \<in> locked s \<longleftrightarrow> sl_locked (b_lock (bufs s ! i))"
proof
  assume "b_blockno (bufs s ! i) \<in> locked s"
  then obtain j where j: "j < NBUF" "sl_locked (b_lock (bufs s ! j))" "b_blockno (bufs s ! j) = b_blockno (bufs s ! i)"
    by (auto simp: locked_def)
  then have "b_valid (bufs s ! j)" using bio_inv_bufok [OF assms(1), of j] by (auto simp: bufok_def)
  then have "j = i" using j assms by (intro bio_inv_uniq [OF assms(1)]) auto
  with j show "sl_locked (b_lock (bufs s ! i))" by simp
qed (use assms in \<open>auto simp: locked_def\<close>)

lemma uncached_not_locked:
  assumes "bio_inv s" "\<And>j. j < NBUF \<Longrightarrow> b_valid (bufs s ! j) \<Longrightarrow> b_blockno (bufs s ! j) \<noteq> b"
  shows "b \<notin> locked s" "b \<notin> dirty s"
  using assms bio_inv_bufok [OF assms(1)] by (auto simp: locked_def dirty_def bufok_def)

text \<open>The parts of the state that reading a block never touches.\<close>

definition same_disk :: "'a bstate_scheme \<Rightarrow> 'a bstate_scheme \<Rightarrow> bool" where
  "same_disk s s' \<longleftrightarrow> memdisk s' = memdisk s \<and> dhist s' = dhist s \<and> disksize s' = disksize s \<and>
     cur_pid s' = cur_pid s \<and> bstate.more s' = bstate.more s"

lemma same_disk_refl [simp]: "same_disk s s"
  by (simp add: same_disk_def)

lemma same_disk_trans [trans]: "same_disk s t \<Longrightarrow> same_disk t u \<Longrightarrow> same_disk s u"
  by (simp add: same_disk_def)

lemma same_disk_upd_buf [simp]: "same_disk s (upd_buf i f s)"
  by (simp add: same_disk_def)

lemma bread_hit_post:
  assumes inv: "bio_inv s" and i: "i < NBUF" "b_valid (bufs s ! i)" "b_blockno (bufs s ! i) = b"
    and free: "\<not> sl_locked (b_lock (bufs s ! i))"
  defines "s' \<equiv> upd_buf i (hit_buf (cur_pid s)) s"
  shows "bio_inv s' \<and> holds s' i b \<and> b \<notin> locked s \<and> b < disksize s \<and> (\<forall>j c. holds s j c \<longrightarrow> holds s' j c) \<and>
    view s' = view s \<and> dirty s' = dirty s \<and> locked s' = insert b (locked s)"
proof -
  have il: "i < length (bufs s)" using i bio_inv_length [OF inv] by simp
  have ok: "bufok (memdisk s) (disksize s) (bufs s ! i)" using inv i(1) by (rule bio_inv_bufok)
  have "bio_inv s'"
    unfolding s'_def using inv i(1)
    by (rule bio_inv_upd_same_block) (use ok i in \<open>simp_all add: hit_buf_def bufok_def\<close>)
  moreover have "view s' = view s"
    unfolding s'_def using il by (intro view_upd_same) (auto simp: hit_buf_def)
  moreover have "dirty s' = dirty s"
    unfolding s'_def using il i by (intro dirty_upd_same) (auto simp: hit_buf_def)
  moreover have "locked s' = insert b (locked s)"
    unfolding s'_def using il i free by (subst locked_upd_lock) (auto simp: hit_buf_def)
  ultimately show ?thesis
    using il i free ok locked_in_buf [OF inv i(1,2)]
    by (auto simp: s'_def holds_def hit_buf_def bufok_def)
qed

lemma bread_miss_view:
  assumes inv: "bio_inv s" "bio_inv s'" and i: "i < NBUF" "\<not> b_dirty (bufs s ! i)"
    and free: "\<not> sl_locked (b_lock (bufs s ! i))"
    and uncached: "\<And>j. j < NBUF \<Longrightarrow> b_valid (bufs s ! j) \<Longrightarrow> b_blockno (bufs s ! j) \<noteq> b"
    and s': "s' = upd_buf i (miss_buf pid b (memdisk s b)) s"
  shows "view s' = view s"
proof
  fix c
  have il: "i < length (bufs s)" using i bio_inv_length [OF inv(1)] by simp
  have ok: "bufok (memdisk s) (disksize s) (bufs s ! i)" using inv(1) i(1) by (rule bio_inv_bufok)
  have nth: "bufs s' ! j = (if j = i then miss_buf pid b (memdisk s b) (bufs s ! i) else bufs s ! j)" for j
    using il by (simp add: s')
  have disk: "memdisk s' = memdisk s" by (simp add: s')
  consider "c = b" | j where "j < NBUF" "j \<noteq> i" "b_valid (bufs s ! j)" "b_blockno (bufs s ! j) = c"
    | "c \<noteq> b" "\<And>j. j < NBUF \<Longrightarrow> j \<noteq> i \<Longrightarrow> b_valid (bufs s ! j) \<Longrightarrow> b_blockno (bufs s ! j) \<noteq> c"
    by blast
  then show "view s' c = view s c"
  proof cases
    case 1
    have "view s' b = memdisk s b"
      using i by (subst view_in_buf [OF inv(2), of i]) (simp_all add: nth miss_buf_def)
    moreover have "view s b = memdisk s b" by (intro view_on_disk uncached)
    ultimately show ?thesis using 1 by simp
  next
    case 2
    have "view s' c = b_data (bufs s ! j)"
      using 2 by (subst view_in_buf [OF inv(2), of j]) (simp_all add: nth)
    moreover have "view s c = b_data (bufs s ! j)"
      using 2 by (intro view_in_buf [OF inv(1), of j]) simp_all
    ultimately show ?thesis by simp
  next
    case 3
    have "view s' c = memdisk s c"
      unfolding disk [symmetric] using 3 by (intro view_on_disk) (auto simp: nth miss_buf_def split: if_splits)
    moreover have "view s c = memdisk s c"
    proof (cases "b_valid (bufs s ! i) \<and> b_blockno (bufs s ! i) = c")
      case True
      then show ?thesis
        using i free ok by (subst view_in_buf [OF inv(1), of i]) (auto simp: bufok_def)
    next
      case False
      then show ?thesis using 3 by (intro view_on_disk) metis
    qed
    ultimately show ?thesis by simp
  qed
qed

lemma bread_miss_post:
  assumes inv: "bio_inv s" and i: "i < NBUF" "\<not> b_dirty (bufs s ! i)"
    and free: "\<not> sl_locked (b_lock (bufs s ! i))" and b: "b < disksize s"
    and uncached: "\<And>j. j < NBUF \<Longrightarrow> b_valid (bufs s ! j) \<Longrightarrow> b_blockno (bufs s ! j) \<noteq> b"
  defines "s' \<equiv> upd_buf i (miss_buf (cur_pid s) b (memdisk s b)) s"
  shows "bio_inv s' \<and> holds s' i b \<and> b \<notin> locked s \<and> b < disksize s \<and> (\<forall>j c. holds s j c \<longrightarrow> holds s' j c) \<and>
    view s' = view s \<and> dirty s' = dirty s \<and> locked s' = insert b (locked s)"
proof -
  have il: "i < length (bufs s)" using i bio_inv_length [OF inv] by simp
  have inv': "bio_inv s'"
    unfolding s'_def using inv i(1)
    by (rule bio_inv_upd_buf) (use b uncached bio_inv_disk [OF inv] in \<open>simp_all add: miss_buf_def bufok_def\<close>)
  moreover have "view s' = view s"
    using inv inv' i free uncached s'_def [THEN meta_eq_to_obj_eq] by (rule bread_miss_view)
  moreover have "dirty s' = dirty s"
    unfolding s'_def using il i by (intro dirty_upd_same) (auto simp: miss_buf_def)
  moreover have "locked s' = insert b (locked s)"
    unfolding s'_def using il i free by (subst locked_upd_lock) (auto simp: miss_buf_def)
  ultimately show ?thesis
    using il i free b uncached_not_locked [OF inv uncached]
    by (auto simp: s'_def holds_def miss_buf_def)
qed

lemma bread_spec:
  assumes "bio_inv s" "bread dev b s = Ok (i, s')"
  shows "dev = 1" "bio_inv s'" "holds s' i b" "b \<notin> locked s" "b < disksize s"
    "holds s j c \<Longrightarrow> holds s' j c" "view s' = view s" "dirty s' = dirty s"
    "locked s' = insert b (locked s)" "same_disk s s'"
proof -
  have "dev = 1 \<and> same_disk s s' \<and> bio_inv s' \<and> holds s' i b \<and> b \<notin> locked s \<and> b < disksize s \<and>
      (\<forall>j c. holds s j c \<longrightarrow> holds s' j c) \<and>
      view s' = view s \<and> dirty s' = dirty s \<and> locked s' = insert b (locked s)"
    using bread_Ok_cases [OF assms] bread_hit_post [OF assms(1), of i b] bread_miss_post [OF assms(1), of i b]
    by auto
  then show "dev = 1" "bio_inv s'" "holds s' i b" "b \<notin> locked s" "b < disksize s"
    "holds s j c \<Longrightarrow> holds s' j c" "view s' = view s" "dirty s' = dirty s"
    "locked s' = insert b (locked s)" "same_disk s s'"
    by auto
qed

text \<open>
  \<open>bread\<close> succeeds on any block of the disk that is not locked while fewer than \<open>NBUF\<close>
  blocks are locked or dirty: some buffer can then be recycled.
\<close>

lemma recyclable_exists:
  assumes inv: "bio_inv s" and card: "card (locked s \<union> dirty s) < NBUF"
  obtains i where "i < NBUF" "b_refcnt (bufs s ! i) = 0" "\<not> b_dirty (bufs s ! i)"
proof -
  let ?A = "{i. i < NBUF \<and> (sl_locked (b_lock (bufs s ! i)) \<or> b_dirty (bufs s ! i))}"
  have valid: "b_valid (bufs s ! i)" if "i \<in> ?A" for i
    using that bio_inv_bufok [OF inv, of i] by (auto simp: bufok_def)
  have "inj_on (\<lambda>i. b_blockno (bufs s ! i)) ?A"
    using valid bio_inv_uniq [OF inv] by (auto intro!: inj_onI)
  then have "card ?A = card ((\<lambda>i. b_blockno (bufs s ! i)) ` ?A)" by (simp add: card_image)
  also have "(\<lambda>i. b_blockno (bufs s ! i)) ` ?A = locked s \<union> dirty s"
    by (auto simp: locked_def dirty_def)
  finally have lt: "card ?A < card {..<NBUF}" using card by simp
  have "\<exists>i<NBUF. i \<notin> ?A"
  proof (rule ccontr)
    assume "\<not> (\<exists>i<NBUF. i \<notin> ?A)"
    then have "?A = {..<NBUF}" by blast
    with lt show False by (simp only: less_irrefl)
  qed
  then obtain i where i: "i < NBUF" "\<not> sl_locked (b_lock (bufs s ! i))" "\<not> b_dirty (bufs s ! i)"
    by blast
  show ?thesis
    using i bio_inv_bufok [OF inv i(1)] by (intro that [of i]) (simp_all add: bufok_def)
qed

lemma bread_progress:
  assumes inv: "bio_inv s" and b: "b < disksize s" "b \<notin> locked s" and card: "card (locked s \<union> dirty s) < NBUF"
  shows "\<exists>i s'. bread 1 b s = Ok (i, s')"
proof (cases "\<exists>i<NBUF. b_valid (bufs s ! i) \<and> b_blockno (bufs s ! i) = b")
  case True
  then obtain i where i: "i < NBUF" "b_valid (bufs s ! i)" "b_blockno (bufs s ! i) = b" by blast
  then have "\<not> sl_locked (b_lock (bufs s ! i))" using b by (auto simp: locked_def)
  with bread_hit [OF inv i] show ?thesis by blast
next
  case False
  have len: "length (bufs s) = Suc NBUF" by (rule bio_inv_length [OF inv])
  obtain r where r: "bget_find (Suc NBUF) (b_next (bufs s ! HEAD)) 1 b (bufs s) = Ok r"
    "\<And>j. r = Some j \<Longrightarrow> j < NBUF \<and> b_dev (bufs s ! j) = 1 \<and> b_blockno (bufs s ! j) = b"
    "\<And>j. r = None \<Longrightarrow> j < NBUF \<Longrightarrow> b_dev (bufs s ! j) = 1 \<Longrightarrow> b_blockno (bufs s ! j) \<noteq> b"
    using bget_find_spec [OF inv] by blast
  have rN: "r = None"
  proof (cases r)
    case (Some j)
    have "b_valid (bufs s ! j)"
      using r(2) [OF Some] bio_inv_bufok [OF inv, of j] by (auto simp: bufok_def)
    with r(2) [OF Some] False show ?thesis by blast
  qed
  obtain q where q: "bget_recycle (Suc NBUF) (b_prev (bufs s ! HEAD)) (bufs s) = Ok q"
    "\<And>i. q = Some i \<Longrightarrow> i < NBUF \<and> b_refcnt (bufs s ! i) = 0 \<and> \<not> b_dirty (bufs s ! i)"
    "\<And>i. q = None \<Longrightarrow> i < NBUF \<Longrightarrow> b_refcnt (bufs s ! i) = 0 \<Longrightarrow> b_dirty (bufs s ! i)"
    using bget_recycle_spec [OF inv] by blast
  obtain k where "k < NBUF" "b_refcnt (bufs s ! k) = 0" "\<not> b_dirty (bufs s ! k)"
    using recyclable_exists [OF inv card] by blast
  then obtain i where i: "q = Some i" using q(3) [of k] by (cases q) auto
  have "\<not> sl_locked (b_lock (bufs s ! i))"
    using q(2) [OF i] bio_inv_bufok [OF inv, of i] by (auto simp: bufok_def split: if_splits)
  with r(1) rN q(1) i q(2) [OF i] len b(1) show ?thesis
    unfolding bread_def bget_def lock_buf_def acquiresleep_def iderw_def
    by (auto simp: Let_def holdingsleep_def)
qed

text \<open>Changing the data of a held buffer changes the view of its block.\<close>

lemma set_bdata_spec:
  assumes inv: "bio_inv s" and h: "holds s i b" and len: "length d = BSIZE"
  shows "bio_inv (set_bdata i d s)" "holds (set_bdata i d s) j c \<longleftrightarrow> holds s j c"
    "view (set_bdata i d s) = (view s)(b := d)" "dirty (set_bdata i d s) = dirty s"
    "locked (set_bdata i d s) = locked s" "same_disk s (set_bdata i d s)"
proof -
  have i: "i < NBUF" "b_valid (bufs s ! i)" "b_blockno (bufs s ! i) = b" "sl_locked (b_lock (bufs s ! i))"
    using h by (auto simp: holds_def)
  have il: "i < length (bufs s)" using i bio_inv_length [OF inv] by simp
  have ok: "bufok (memdisk s) (disksize s) (bufs s ! i)" using inv i(1) by (rule bio_inv_bufok)
  show inv': "bio_inv (set_bdata i d s)"
    unfolding set_bdata_def using inv i(1)
    by (rule bio_inv_upd_same_block) (use ok len i in \<open>simp_all add: bufok_def\<close>)
  show "holds (set_bdata i d s) j c \<longleftrightarrow> holds s j c"
    using il by (auto simp: holds_def set_bdata_def)
  show "view (set_bdata i d s) = (view s)(b := d)"
  proof
    fix c
    show "view (set_bdata i d s) c = ((view s)(b := d)) c"
    proof (cases "c = b")
      case True
      with i il show ?thesis
        by (subst view_in_buf [OF inv', of i]) (auto simp: set_bdata_def)
    next
      case False
      have "cached (set_bdata i d s) c = cached s c"
        unfolding cached_def using il by (intro find_cong) (auto simp: set_bdata_def)
      with False il i show ?thesis
        by (auto simp: view_def bdata_def set_bdata_def cached_def split: option.splits dest!: find_Some_upt)
    qed
  qed
  show "dirty (set_bdata i d s) = dirty s"
    unfolding set_bdata_def using il i by (intro dirty_upd_same) auto
  show "locked (set_bdata i d s) = locked s"
    unfolding locked_def set_bdata_def using il i by (intro Collect_cong ex_upd_iff) auto
  show "same_disk s (set_bdata i d s)" by (simp add: set_bdata_def)
qed

text \<open>Setting \<open>B_DIRTY\<close> on a held buffer, as \<open>log_write\<close> does, pins its block.\<close>

lemma set_dirty_spec:
  assumes inv: "bio_inv s" and h: "holds s i b"
  defines "s' \<equiv> upd_buf i (\<lambda>b. b\<lparr>b_dirty := True\<rparr>) s"
  shows "bio_inv s'" "holds s' j c \<longleftrightarrow> holds s j c" "view s' = view s"
    "dirty s' = insert b (dirty s)" "locked s' = locked s" "same_disk s s'"
proof -
  have i: "i < NBUF" "b_valid (bufs s ! i)" "b_blockno (bufs s ! i) = b" "sl_locked (b_lock (bufs s ! i))"
    using h by (auto simp: holds_def)
  have il: "i < length (bufs s)" using i bio_inv_length [OF inv] by simp
  have ok: "bufok (memdisk s) (disksize s) (bufs s ! i)" using inv i(1) by (rule bio_inv_bufok)
  show "bio_inv s'"
    unfolding s'_def using inv i(1)
    by (rule bio_inv_upd_same_block) (use ok i in \<open>simp_all add: bufok_def\<close>)
  show "holds s' j c \<longleftrightarrow> holds s j c"
    using il by (auto simp: holds_def s'_def)
  show "view s' = view s"
    unfolding s'_def using il by (intro view_upd_same) auto
  show "dirty s' = insert b (dirty s)"
    using il i by (auto simp: s'_def dirty_def split: if_splits)
  show "locked s' = locked s"
    unfolding locked_def s'_def using il i by (intro Collect_cong ex_upd_iff) auto
  show "same_disk s s'" by (simp add: s'_def)
qed

text \<open>\<open>bwrite\<close> of a held buffer writes the view of its block to the disk and cleans it.\<close>

lemma bwrite_spec:
  assumes inv: "bio_inv s" and h: "holds s i b"
  obtains s' where "bwrite i s = Ok s'" "bio_inv s'" "\<And>j c. holds s' j c \<longleftrightarrow> holds s j c"
    "view s' = view s" "dirty s' = dirty s - {b}" "locked s' = locked s"
    "memdisk s' = (memdisk s)(b := view s b)" "dhist s' = dhist s @ [(b, view s b)]"
    "disksize s' = disksize s" "cur_pid s' = cur_pid s" "bstate.more s' = bstate.more s"
proof -
  have i: "i < NBUF" "b_valid (bufs s ! i)" "b_blockno (bufs s ! i) = b" "sl_locked (b_lock (bufs s ! i))"
    using h by (auto simp: holds_def)
  have il: "i < length (bufs s)" using i bio_inv_length [OF inv] by simp
  have ok: "bufok (memdisk s) (disksize s) (bufs s ! i)" using inv i(1) by (rule bio_inv_bufok)
  have v: "view s b = b_data (bufs s ! i)" using inv i by (intro view_in_buf) auto
  define t where "t = s\<lparr>memdisk := (memdisk s)(b := view s b), dhist := dhist s @ [(b, view s b)]\<rparr>"
  define s' where "s' = upd_buf i (\<lambda>b. b\<lparr>b_dirty := False, b_valid := True\<rparr>) t"
  have bufs: "bufs t = bufs s" and il': "i < length (bufs t)" using il by (simp_all add: t_def)
  have eq: "bwrite i s = Ok s'"
    using i il ok unfolding bwrite_def iderw_def Let_def holdingsleep_def s'_def t_def
    by (auto simp: bufok_def v upd_buf_def nth_update_at)
  have bufs': "bufs s' = (bufs s)[i := (bufs s ! i)\<lparr>b_dirty := False, b_valid := True\<rparr>]"
    by (simp add: s'_def upd_buf_def bufs)
  have inv': "bio_inv s'"
    using inv i(1) bufs'
  proof (rule bio_inv_upd)
    show "length (memdisk s' c) = BSIZE" for c
      using bio_inv_disk [OF inv] ok by (simp add: s'_def t_def v bufok_def)
    show "b_blockno (bufs s ! j) \<noteq> b_blockno ((bufs s ! i)\<lparr>b_dirty := False, b_valid := True\<rparr>)"
      if "j < NBUF" "j \<noteq> i" "b_valid (bufs s ! j)" for j
      using bio_inv_uniq [OF inv that(1) i(1) that(3) i(2)] that by auto
  qed (use ok i in \<open>simp_all add: s'_def t_def bufok_def v\<close>)
  have view': "view s' = view s"
  proof
    fix c
    have same: "cached s' c = cached s c"
      unfolding cached_def using il i by (intro find_cong) (auto simp: bufs' nth_update_at)
    show "view s' c = view s c"
    proof (cases "cached s c")
      case None
      then have "c \<noteq> b" using i by (auto simp: cached_def find_None_upt)
      with None same show ?thesis by (simp add: view_def s'_def t_def)
    next
      case (Some j)
      with same il show ?thesis by (simp add: view_def bdata_def bufs' nth_update_at)
    qed
  qed
  have dirty_clean: "dirty s' = dirty s - {b}"
  proof (intro set_eqI)
    fix c
    have "c \<noteq> b" if "j < NBUF" "j \<noteq> i" "b_dirty (bufs s ! j)" "b_blockno (bufs s ! j) = c" for j
    proof -
      have "b_valid (bufs s ! j)" using bio_inv_bufok [OF inv that(1)] that(3) by (auto simp: bufok_def)
      with bio_inv_uniq [OF inv that(1) i(1)] i that show ?thesis by auto
    qed
    moreover have "b_dirty (bufs s' ! j) \<longleftrightarrow> j \<noteq> i \<and> b_dirty (bufs s ! j)"
      "b_blockno (bufs s' ! j) = b_blockno (bufs s ! j)" if "j < NBUF" for j
      using il by (simp_all add: bufs' nth_update_at)
    ultimately show "c \<in> dirty s' \<longleftrightarrow> c \<in> dirty s - {b}"
      unfolding dirty_def using i(3) by auto
  qed
  show ?thesis
  proof (rule that [OF eq inv' _ view'])
    show "holds s' j c \<longleftrightarrow> holds s j c" for j c
      using il i by (auto simp: holds_def bufs' nth_update_at)
    show "dirty s' = dirty s - {b}"
      by (rule dirty_clean)
    show "locked s' = locked s"
      using il i by (auto simp: locked_def bufs' nth_update_at split: if_splits)
  qed (simp_all add: s'_def t_def)
qed

text \<open>Relinking the list changes nothing but the order of the buffers.\<close>

lemma bcore_nth:
  "map bcore xs = map bcore ys \<Longrightarrow> i < length xs \<Longrightarrow> bcore (xs ! i) = bcore (ys ! i)"
  by (metis length_map nth_map)

lemma bcore_eqD:
  assumes "bcore a = bcore b"
  shows "b_valid a = b_valid b" "b_dirty a = b_dirty b" "b_dev a = b_dev b" "b_blockno a = b_blockno b"
    "b_lock a = b_lock b" "b_refcnt a = b_refcnt b" "b_data a = b_data b"
  using assms by (cases a; cases b; simp add: bcore_def)+

lemma relink_same:
  assumes inv: "bio_inv s" and lru: "lru bs xs" and core: "map bcore bs = map bcore (bufs s)"
  defines "s' \<equiv> s\<lparr>bufs := bs\<rparr>"
  shows "bio_inv s'" "holds s' j c \<longleftrightarrow> holds s j c" "view s' = view s" "dirty s' = dirty s"
    "locked s' = locked s" "same_disk s s'"
proof -
  have len: "length bs = Suc NBUF" using lru by (simp add: lru_def)
  have eq: "bcore (bs ! i) = bcore (bufs s ! i)" if "i < NBUF" for i
    using core that len by (intro bcore_nth) auto
  note f = bcore_eqD [OF eq]
  have ok: "bufok d n (bs ! i) = bufok d n (bufs s ! i)" if "i < NBUF" for d n i
    using that by (simp add: bufok_def f)
  show "bio_inv s'"
    using inv lru by (auto simp: bio_inv_def s'_def ok f)
  show "holds s' j c \<longleftrightarrow> holds s j c" by (auto simp: holds_def s'_def f)
  have "cached s' c = cached s c" for c
    unfolding cached_def by (intro find_cong) (auto simp: s'_def f)
  then show "view s' = view s"
    by (auto simp: fun_eq_iff view_def bdata_def s'_def cached_def f split: option.splits dest!: find_Some_upt)
  show "dirty s' = dirty s" by (auto simp: dirty_def s'_def f)
  show "locked s' = locked s" by (auto simp: locked_def s'_def f)
  show "same_disk s s'" by (simp add: s'_def same_disk_def)
qed

text \<open>
  \<open>brelse\<close> of a held buffer whose data are on the disk, or which is pinned by \<open>B_DIRTY\<close>,
  unlocks its block.
\<close>

lemma locked_upd_unlock:
  assumes inv: "bio_inv s" and i: "i < NBUF" "b_valid (bufs s ! i)"
    and f: "\<not> sl_locked (b_lock (f (bufs s ! i)))"
  shows "locked (upd_buf i f s) = locked s - {b_blockno (bufs s ! i)}"
proof (intro set_eqI)
  fix c
  have il: "i < length (bufs s)" using i bio_inv_length [OF inv] by simp
  have "b_blockno (bufs s ! j) \<noteq> b_blockno (bufs s ! i)"
    if "j < NBUF" "j \<noteq> i" "sl_locked (b_lock (bufs s ! j))" for j
    using bio_inv_bufok [OF inv that(1)] bio_inv_uniq [OF inv that(1) i(1) _ i(2)] that
    by (auto simp: bufok_def)
  moreover have "sl_locked (b_lock (bufs (upd_buf i f s) ! j)) \<longleftrightarrow> j \<noteq> i \<and> sl_locked (b_lock (bufs s ! j))"
    "j \<noteq> i \<Longrightarrow> b_blockno (bufs (upd_buf i f s) ! j) = b_blockno (bufs s ! j)" for j
    using il f by simp_all
  ultimately show "c \<in> locked (upd_buf i f s) \<longleftrightarrow> c \<in> locked s - {b_blockno (bufs s ! i)}"
    unfolding locked_def by (simp del: nth_upd_buf) metis
qed

lemma brelse_spec:
  assumes inv: "bio_inv s" and h: "holds s i b" and clean: "b \<notin> dirty s \<Longrightarrow> view s b = memdisk s b"
  obtains s' where "brelse i s = Ok s'" "bio_inv s'" "\<And>j c. holds s' j c \<longleftrightarrow> holds s j c \<and> j \<noteq> i"
    "view s' = view s" "dirty s' = dirty s" "locked s' = locked s - {b}" "same_disk s s'"
proof -
  have i: "i < NBUF" "b_valid (bufs s ! i)" "b_blockno (bufs s ! i) = b" "sl_locked (b_lock (bufs s ! i))"
    using h by (auto simp: holds_def)
  have il: "i < length (bufs s)" using i bio_inv_length [OF inv] by simp
  have ok: "bufok (memdisk s) (disksize s) (bufs s ! i)" using inv i(1) by (rule bio_inv_bufok)
  have v: "view s b = b_data (bufs s ! i)" using inv i by (intro view_in_buf) auto
  have nd: "b \<notin> dirty s" if "\<not> b_dirty (bufs s ! i)"
  proof
    assume "b \<in> dirty s"
    then obtain j where j: "j < NBUF" "b_dirty (bufs s ! j)" "b_blockno (bufs s ! j) = b"
      by (auto simp: dirty_def)
    then have "b_valid (bufs s ! j)" using bio_inv_bufok [OF inv j(1)] by (auto simp: bufok_def)
    with bio_inv_uniq [OF inv j(1) i(1)] i j that show False by auto
  qed
  define f :: "buf \<Rightarrow> buf" where "f = (\<lambda>b. b\<lparr>b_lock := releasesleep (b_lock b), b_refcnt := b_refcnt b - 1\<rparr>)"
  define t where "t = upd_buf i f s"
  have inv_t: "bio_inv t"
    unfolding t_def using inv i(1)
    by (rule bio_inv_upd_same_block)
      (use ok i nd clean v in \<open>auto simp: bufok_def f_def releasesleep_def\<close>)
  obtain xs where lru: "lru (bufs t) xs" using inv_t by (auto simp: bio_inv_def)
  then have "i \<in> set xs" using i by (simp add: lru_def)
  note relink = relink_same [OF inv_t lru_move_front [OF lru this], simplified]
  have eq: "brelse i s = Ok (t\<lparr>bufs := link_front i (unlink_buf i (bufs t))\<rparr>)"
    using i il ok by (simp add: brelse_def Let_def t_def f_def holdingsleep_def bufok_def upd_buf_def)
  have t: "holds t j c \<longleftrightarrow> holds s j c \<and> j \<noteq> i" "view t = view s" "dirty t = dirty s"
    "locked t = locked s - {b}" "same_disk s t" for j c
  proof -
    show "holds t j c \<longleftrightarrow> holds s j c \<and> j \<noteq> i"
      using il by (auto simp: holds_def t_def f_def releasesleep_def)
    show "view t = view s"
      unfolding t_def using il by (intro view_upd_same) (auto simp: f_def)
    show "dirty t = dirty s"
      unfolding t_def using il i by (intro dirty_upd_same) (auto simp: f_def)
    show "locked t = locked s - {b}"
      unfolding t_def using locked_upd_unlock [OF inv i(1,2), of f] i(3) by (simp add: f_def releasesleep_def)
    show "same_disk s t" by (simp add: t_def)
  qed
  show ?thesis
    by (rule that [OF eq]) (use relink t same_disk_trans [OF t(5) relink(6)] in \<open>simp_all\<close>)
qed

text \<open>
  At boot the buffers are zero-filled memory; \<open>binit\<close> establishes the invariant with
  every block clean, unlocked and only on the disk.
\<close>

definition bss_buf :: buf where
  "bss_buf = \<lparr>b_valid = False, b_dirty = False, b_dev = 0, b_blockno = 0,
     b_lock = \<lparr>sl_locked = False, sl_pid = 0\<rparr>, b_refcnt = 0, b_prev = 0, b_next = 0,
     b_data = replicate BSIZE 0\<rparr>"

lemma map_bcore_binit_loop:
  "(\<forall>b \<in> set bs. b_lock b = initsleeplock) \<Longrightarrow> set is \<subseteq> {..<length bs} \<Longrightarrow>
   map bcore (binit_loop is bs) = map bcore bs"
proof (induction "is" arbitrary: bs)
  case (Cons i "is")
  have len: "i < length bs" using Cons.prems by simp
  then have same: "bs[i := (bs ! i)\<lparr>b_lock := initsleeplock\<rparr>] = bs"
    using Cons.prems(1) by (simp add: list_update_same_conv)
  have core: "map bcore (link_front i bs) = map bcore bs" by simp
  have "\<forall>b \<in> set (link_front i bs). b_lock b = initsleeplock"
  proof
    fix b assume "b \<in> set (link_front i bs)"
    then have "bcore b \<in> set (map bcore bs)" using core by (metis image_eqI list.set_map)
    then obtain c where "c \<in> set bs" "bcore b = bcore c" by auto
    with Cons.prems(1) show "b_lock b = initsleeplock" by (metis bcore_eqD(5))
  qed
  with Cons.IH [of "link_front i bs"] Cons.prems(2) core same show ?case
    by (simp add: map_eq_imp_length_eq [OF core])
qed simp

lemma binit_spec:
  assumes bss: "bufs s = replicate (Suc NBUF) bss_buf" and disk: "\<And>b. length (memdisk s b) = BSIZE"
  shows "bio_inv (binit s)" "view (binit s) = memdisk s" "dirty (binit s) = {}" "locked (binit s) = {}"
    "same_disk s (binit s)"
proof -
  let ?bs = "(bufs s)[HEAD := (bufs s ! HEAD)\<lparr>b_prev := HEAD, b_next := HEAD\<rparr>]"
  have len: "length ?bs = Suc NBUF" by (simp add: bss del: replicate_Suc)
  have all: "b_lock b = initsleeplock" if "b \<in> set ?bs" for b
  proof -
    have "b \<in> insert ((bufs s ! HEAD)\<lparr>b_prev := HEAD, b_next := HEAD\<rparr>) (set (bufs s))"
      using set_update_subset_insert that by fastforce
    then show ?thesis by (auto simp: bss bss_buf_def initsleeplock_def HEAD_def simp del: replicate_Suc)
  qed
  have "map bcore (bufs (binit s)) = map bcore ?bs"
    unfolding binit_def using all len by (simp, intro map_bcore_binit_loop) auto
  also have "\<dots> = map bcore (bufs s)" by (simp add: map_update_same)
  finally have core: "map bcore (bufs (binit s)) = map bcore (bufs s)" .
  have f: "b_valid (bufs (binit s) ! i) = False" "b_dirty (bufs (binit s) ! i) = False"
    "b_lock (bufs (binit s) ! i) = initsleeplock" "b_dev (bufs (binit s) ! i) = 0"
    "b_refcnt (bufs (binit s) ! i) = 0" "b_data (bufs (binit s) ! i) = replicate BSIZE 0" if "i < NBUF" for i
  proof -
    have "bcore (bufs (binit s) ! i) = bcore (bufs s ! i)"
      using bcore_nth [OF core, of i] that map_eq_imp_length_eq [OF core] by (simp add: bss)
    moreover have "bufs s ! i = bss_buf" using that by (simp add: bss del: replicate.simps)
    ultimately have "bcore (bufs (binit s) ! i) = bcore bss_buf" by simp
    note bcore_eqD [OF this]
    then show "b_valid (bufs (binit s) ! i) = False" "b_dirty (bufs (binit s) ! i) = False"
      "b_lock (bufs (binit s) ! i) = initsleeplock" "b_dev (bufs (binit s) ! i) = 0"
      "b_refcnt (bufs (binit s) ! i) = 0" "b_data (bufs (binit s) ! i) = replicate BSIZE 0"
      by (simp_all add: bss_buf_def initsleeplock_def)
  qed
  have lru: "lru (bufs (binit s)) (rev [0..<NBUF])" by (rule binit_lru) (simp add: bss)
  show same: "same_disk s (binit s)" by (simp add: same_disk_def binit_def)
  have md: "memdisk (binit s) = memdisk s" by (simp add: binit_def)
  show "bio_inv (binit s)"
    unfolding bio_inv_def using lru disk by (auto simp: bufok_def f initsleeplock_def md)
  show "view (binit s) = memdisk s"
    by (rule ext) (subst view_on_disk; simp add: f md)
  show "dirty (binit s) = {}" "locked (binit s) = {}"
    by (auto simp: dirty_def locked_def f initsleeplock_def)
qed

text \<open>A dirty block is in the cache, so that reading it needs no free buffer.\<close>

lemma bread_dirty:
  assumes inv: "bio_inv s" and b: "b \<in> dirty s" "b \<notin> locked s"
  shows "\<exists>i s'. bread 1 b s = Ok (i, s')"
proof -
  obtain i where i: "i < NBUF" "b_dirty (bufs s ! i)" "b_blockno (bufs s ! i) = b"
    using b by (auto simp: dirty_def)
  then have "b_valid (bufs s ! i)" using bio_inv_bufok [OF inv i(1)] by (auto simp: bufok_def)
  moreover have "\<not> sl_locked (b_lock (bufs s ! i))" using b i by (auto simp: locked_def)
  ultimately show ?thesis using bread_hit [OF inv i(1) _ i(3)] by blast
qed

lemma unlocked_clean:
  assumes inv: "bio_inv s" and b: "b \<notin> locked s" "b \<notin> dirty s"
  shows "view s b = memdisk s b"
proof (cases "\<exists>i<NBUF. b_valid (bufs s ! i) \<and> b_blockno (bufs s ! i) = b")
  case True
  then obtain i where i: "i < NBUF" "b_valid (bufs s ! i)" "b_blockno (bufs s ! i) = b" by blast
  then have "\<not> sl_locked (b_lock (bufs s ! i))" "\<not> b_dirty (bufs s ! i)"
    using b by (auto simp: locked_def dirty_def)
  with i bio_inv_bufok [OF inv i(1)] show ?thesis
    by (simp add: view_in_buf [OF inv i] bufok_def)
next
  case False
  then show ?thesis by (intro view_on_disk) blast
qed

lemma dirty_valid_block: "bio_inv s \<Longrightarrow> b \<in> dirty s \<Longrightarrow> b < disksize s"
  by (auto simp: dirty_def bufok_def dest!: bio_inv_bufok)

lemma finite_locked [simp]: "finite (locked s)"
proof -
  have "locked s \<subseteq> (\<lambda>i. b_blockno (bufs s ! i)) ` {..<NBUF}" by (auto simp: locked_def)
  then show ?thesis by (rule finite_subset) simp
qed

lemma finite_dirty [simp]: "finite (dirty s)"
proof -
  have "dirty s \<subseteq> (\<lambda>i. b_blockno (bufs s ! i)) ` {..<NBUF}" by (auto simp: dirty_def)
  then show ?thesis by (rule finite_subset) simp
qed

section \<open>The interface of the cache\<close>

text \<open>
  What the layers above rely on: the five operations on buffers, and the laws that relate
  them to the abstract state.  \<open>frame\<close> relates states that differ only in the cache and
  the disk.  The two lemmas of the locale are the idioms of the callers: read a block and
  release it, and read a block, replace its data, write it through and release it.
\<close>

locale block_cache =
  fixes read_b :: "u32 \<Rightarrow> 's \<Rightarrow> (nat \<times> 's) res"
    and write_b :: "nat \<Rightarrow> 's \<Rightarrow> 's res"
    and release_b :: "nat \<Rightarrow> 's \<Rightarrow> 's res"
    and get_b :: "nat \<Rightarrow> 's \<Rightarrow> block"
    and put_b :: "nat \<Rightarrow> block \<Rightarrow> 's \<Rightarrow> 's"
    and inv :: "'s \<Rightarrow> bool"
    and contents :: "'s \<Rightarrow> u32 \<Rightarrow> block"
    and disk :: "'s \<Rightarrow> u32 \<Rightarrow> block"
    and hist :: "'s \<Rightarrow> (u32 \<times> block) list"
    and pinned :: "'s \<Rightarrow> u32 set"
    and busy :: "'s \<Rightarrow> u32 set"
    and held :: "'s \<Rightarrow> nat \<Rightarrow> u32 \<Rightarrow> bool"
    and size :: "'s \<Rightarrow> u32"
    and capacity :: nat
    and frame :: "'s \<Rightarrow> 's \<Rightarrow> bool"
  assumes frame_trans: "frame s t \<Longrightarrow> frame t u \<Longrightarrow> frame s u"
    and frame_size: "frame s t \<Longrightarrow> size t = size s"
    and held_get: "inv s \<Longrightarrow> held s i b \<Longrightarrow> get_b i s = contents s b"
    and read_progress: "inv s \<Longrightarrow> b < size s \<Longrightarrow> b \<notin> busy s \<Longrightarrow>
      b \<in> pinned s \<or> card (busy s \<union> pinned s) < capacity \<Longrightarrow> \<exists>i s'. read_b b s = Ok (i, s')"
    and read_law: "inv s \<Longrightarrow> read_b b s = Ok (i, s') \<Longrightarrow>
      inv s' \<and> held s' i b \<and> contents s' = contents s \<and>
      disk s' = disk s \<and> hist s' = hist s \<and> pinned s' = pinned s \<and> b \<notin> busy s \<and>
      busy s' = insert b (busy s) \<and> frame s s' \<and> (\<forall>j c. held s j c \<longrightarrow> held s' j c \<and> j \<noteq> i)"
    and put_law: "inv s \<Longrightarrow> held s i b \<Longrightarrow> length d = BSIZE \<Longrightarrow>
      inv (put_b i d s) \<and> (\<forall>j c. held (put_b i d s) j c \<longleftrightarrow> held s j c) \<and>
      contents (put_b i d s) = (contents s)(b := d) \<and> disk (put_b i d s) = disk s \<and>
      hist (put_b i d s) = hist s \<and> pinned (put_b i d s) = pinned s \<and>
      busy (put_b i d s) = busy s \<and> frame s (put_b i d s)"
    and write_law: "inv s \<Longrightarrow> held s i b \<Longrightarrow> \<exists>s'. write_b i s = Ok s' \<and>
      inv s' \<and> (\<forall>j c. held s' j c \<longleftrightarrow> held s j c) \<and> contents s' = contents s \<and>
      disk s' = (disk s)(b := contents s b) \<and> hist s' = hist s @ [(b, contents s b)] \<and>
      pinned s' = pinned s - {b} \<and> busy s' = busy s \<and> frame s s'"
    and release_law: "inv s \<Longrightarrow> held s i b \<Longrightarrow> b \<in> pinned s \<or> contents s b = disk s b \<Longrightarrow>
      \<exists>s'. release_b i s = Ok s' \<and> inv s' \<and> (\<forall>j c. held s' j c \<longleftrightarrow> held s j c \<and> j \<noteq> i) \<and>
      contents s' = contents s \<and> disk s' = disk s \<and> hist s' = hist s \<and>
      pinned s' = pinned s \<and> busy s' = busy s - {b} \<and> frame s s'"
    and clean_law: "inv s \<Longrightarrow> b \<notin> busy s \<Longrightarrow> b \<notin> pinned s \<Longrightarrow> contents s b = disk s b"
    and contents_length: "inv s \<Longrightarrow> length (contents s b) = BSIZE"
begin

definition can_read :: "u32 \<Rightarrow> 's \<Rightarrow> bool" where
  "can_read b s \<longleftrightarrow> b < size s \<and> b \<notin> busy s \<and> (b \<in> pinned s \<or> card (busy s \<union> pinned s) < capacity)"

text \<open>The abstract state is unchanged, and the same buffers are held.\<close>

definition same :: "'s \<Rightarrow> 's \<Rightarrow> bool" where
  "same s s' \<longleftrightarrow> contents s' = contents s \<and> disk s' = disk s \<and> hist s' = hist s \<and>
     pinned s' = pinned s \<and> busy s' = busy s \<and> frame s s' \<and> (\<forall>j c. held s j c \<longrightarrow> held s' j c)"

lemma read_release:
  assumes inv: "inv s" and can: "can_read b s"
  obtains i s1 s2 where "read_b b s = Ok (i, s1)" "get_b i s1 = contents s b" "release_b i s1 = Ok s2"
    "inv s2" "same s s2" "frame s s1"
proof -
  obtain i s1 where r: "read_b b s = Ok (i, s1)"
    using read_progress inv can unfolding can_read_def by blast
  note rl = read_law [OF inv r]
  have g: "get_b i s1 = contents s b" using held_get [of s1 i b] rl by simp
  have "b \<in> pinned s1 \<or> contents s1 b = disk s1 b"
    using rl clean_law [OF inv, of b] by auto
  then obtain s2 where rel: "release_b i s1 = Ok s2" "inv s2"
    "\<forall>j c. held s2 j c \<longleftrightarrow> held s1 j c \<and> j \<noteq> i" "contents s2 = contents s1" "disk s2 = disk s1"
    "hist s2 = hist s1" "pinned s2 = pinned s1" "busy s2 = busy s1 - {b}" "frame s1 s2"
    using release_law [of s1 i b] rl by blast
  have "same s s2"
    unfolding same_def using rl rel frame_trans [of s s1 s2] by auto
  with that r g rel rl show ?thesis by blast
qed

lemma read_put_write_release:
  assumes inv: "inv s" and can: "can_read b s" and len: "length d = BSIZE"
  obtains i s1 s2 s3 where "read_b b s = Ok (i, s1)" "get_b i s1 = contents s b"
    "write_b i (put_b i d s1) = Ok s2" "release_b i s2 = Ok s3" "inv s3"
    "contents s3 = (contents s)(b := d)" "disk s3 = (disk s)(b := d)"
    "hist s3 = hist s @ [(b, d)]" "pinned s3 = pinned s - {b}" "busy s3 = busy s"
    "frame s s1" "frame s s3"
proof -
  obtain i s1 where r: "read_b b s = Ok (i, s1)"
    using read_progress inv can unfolding can_read_def by blast
  note rl = read_law [OF inv r]
  have g: "get_b i s1 = contents s b" using held_get [of s1 i b] rl by simp
  have pl: "inv (put_b i d s1) \<and> (\<forall>j c. held (put_b i d s1) j c \<longleftrightarrow> held s1 j c) \<and>
      contents (put_b i d s1) = (contents s1)(b := d) \<and> disk (put_b i d s1) = disk s1 \<and>
      hist (put_b i d s1) = hist s1 \<and> pinned (put_b i d s1) = pinned s1 \<and>
      busy (put_b i d s1) = busy s1 \<and> frame s1 (put_b i d s1)"
    using put_law [of s1 i b d] rl len by blast
  then have held: "held (put_b i d s1) i b" using rl by blast
  obtain s2 where w: "write_b i (put_b i d s1) = Ok s2" "inv s2"
    "\<forall>j c. held s2 j c \<longleftrightarrow> held (put_b i d s1) j c" "contents s2 = contents (put_b i d s1)"
    "disk s2 = (disk (put_b i d s1))(b := contents (put_b i d s1) b)"
    "hist s2 = hist (put_b i d s1) @ [(b, contents (put_b i d s1) b)]"
    "pinned s2 = pinned (put_b i d s1) - {b}" "busy s2 = busy (put_b i d s1)" "frame (put_b i d s1) s2"
    using write_law [of "put_b i d s1" i b] pl held by blast
  have "contents s2 b = disk s2 b" using w by simp
  then obtain s3 where rel: "release_b i s2 = Ok s3" "inv s3"
    "contents s3 = contents s2" "disk s3 = disk s2" "hist s3 = hist s2" "pinned s3 = pinned s2"
    "busy s3 = busy s2 - {b}" "frame s2 s3"
    using release_law [of s2 i b] w held by blast
  have fr: "frame s s1" "frame s1 (put_b i d s1)" using rl pl by simp_all
  then have "frame s s3" using w(9) rel(8) by (rule frame_trans [OF frame_trans [OF frame_trans]])
  moreover have "busy s = busy s2 - {b}" using rl pl w by auto
  ultimately show ?thesis using g fr rl pl w rel by (intro that [OF r _ w(1) rel(1)]) simp_all
qed

text \<open>
  Copying a block onto another, with both buffers held: the tail that \<open>install_trans\<close> and
  \<open>write_log\<close> share, and the two orders in which they read the blocks.
\<close>

lemma put_write_release_both:
  assumes inv: "inv s" and held: "held s i a" "held s j b" and ij: "i \<noteq> j" and ab: "a \<noteq> b"
    and len: "length d = BSIZE" and ok: "a \<in> pinned s \<or> contents s a = disk s a"
  obtains s1 s2 s3 where "write_b j (put_b j d s) = Ok s1" "release_b i s1 = Ok s2" "release_b j s2 = Ok s3"
    "inv s3" "contents s3 = (contents s)(b := d)" "disk s3 = (disk s)(b := d)"
    "hist s3 = hist s @ [(b, d)]" "pinned s3 = pinned s - {b}" "busy s3 = busy s - {a, b}" "frame s s3"
proof -
  note pl = put_law [OF inv held(2) len]
  then have h: "held (put_b j d s) i a" "held (put_b j d s) j b" "frame s (put_b j d s)" using held by simp_all
  obtain s1 where w: "write_b j (put_b j d s) = Ok s1" "inv s1" "\<forall>k c. held s1 k c \<longleftrightarrow> held (put_b j d s) k c"
    "contents s1 = contents (put_b j d s)" "disk s1 = (disk (put_b j d s))(b := contents (put_b j d s) b)"
    "hist s1 = hist (put_b j d s) @ [(b, contents (put_b j d s) b)]"
    "pinned s1 = pinned (put_b j d s) - {b}" "busy s1 = busy (put_b j d s)" "frame (put_b j d s) s1"
    using write_law [of "put_b j d s" j b] pl h by blast
  have "a \<in> pinned s1 \<or> contents s1 a = disk s1 a" using ok ab pl w by auto
  then obtain s2 where r1: "release_b i s1 = Ok s2" "inv s2" "\<forall>k c. held s2 k c \<longleftrightarrow> held s1 k c \<and> k \<noteq> i"
    "contents s2 = contents s1" "disk s2 = disk s1" "hist s2 = hist s1" "pinned s2 = pinned s1"
    "busy s2 = busy s1 - {a}" "frame s1 s2"
    using release_law [of s1 i a] w h by blast
  have "contents s2 b = disk s2 b" "held s2 j b" using pl w r1 h ij by auto
  then obtain s3 where r2: "release_b j s2 = Ok s3" "inv s3" "contents s3 = contents s2" "disk s3 = disk s2"
    "hist s3 = hist s2" "pinned s3 = pinned s2" "busy s3 = busy s2 - {b}" "frame s2 s3"
    using release_law [of s2 j b] r1(2) by blast
  have "frame s s3"
    using h(3) w(9) r1(9) r2(8) by (rule frame_trans [OF frame_trans [OF frame_trans]])
  moreover have "busy s3 = busy s - {a, b}" using pl w r1 r2 by auto
  ultimately show ?thesis using pl w r1 r2 by (intro that [OF w(1) r1(1) r2(1)]) simp_all
qed

definition can_read_both :: "u32 \<Rightarrow> u32 \<Rightarrow> 's \<Rightarrow> bool" where
  "can_read_both a b s \<longleftrightarrow> a \<noteq> b \<and> can_read a s \<and> b < size s \<and> b \<notin> busy s \<and>
     (b \<in> pinned s \<or> card (insert a (busy s \<union> pinned s)) < capacity)"

lemma read_both:
  assumes inv: "inv s" and can: "can_read_both a b s"
  obtains i j s1 s2 where "read_b a s = Ok (i, s1)" "read_b b s1 = Ok (j, s2)" "inv s2" "held s2 i a" "held s2 j b"
    "i \<noteq> j" "get_b i s2 = contents s a" "get_b j s2 = contents s b" "contents s2 = contents s" "disk s2 = disk s"
    "hist s2 = hist s" "pinned s2 = pinned s" "busy s2 = insert a (insert b (busy s))" "frame s s1" "frame s s2"
proof -
  obtain i s1 where r: "read_b a s = Ok (i, s1)"
    using read_progress inv can unfolding can_read_both_def can_read_def by blast
  note rl = read_law [OF inv r]
  have "b < size s1 \<and> b \<notin> busy s1 \<and> (b \<in> pinned s1 \<or> card (busy s1 \<union> pinned s1) < capacity)"
    using can rl frame_size [of s s1] by (auto simp: can_read_both_def)
  then obtain j s2 where r2: "read_b b s1 = Ok (j, s2)" using read_progress rl by blast
  have "inv s1" using rl by simp
  note rl2 = read_law [OF this r2]
  have "frame s s2" using frame_trans [of s s1 s2] rl rl2 by simp
  moreover have "get_b i s2 = contents s a" "get_b j s2 = contents s b"
    using held_get [of s2 i a] held_get [of s2 j b] rl rl2 by auto
  moreover have "busy s2 = insert a (insert b (busy s))" using rl rl2 by auto
  ultimately show ?thesis using rl rl2 by (intro that [OF r r2]) auto
qed

lemma copy_src_dst:
  assumes inv: "inv s" and can: "can_read_both a b s"
  obtains i j s1 s2 s3 s4 s5 where "read_b a s = Ok (i, s1)" "read_b b s1 = Ok (j, s2)"
    "write_b j (put_b j (get_b i s2) s2) = Ok s3" "release_b i s3 = Ok s4" "release_b j s4 = Ok s5" "inv s5"
    "contents s5 = (contents s)(b := contents s a)" "disk s5 = (disk s)(b := contents s a)"
    "hist s5 = hist s @ [(b, contents s a)]" "pinned s5 = pinned s - {b}" "busy s5 = busy s"
    "frame s s1" "frame s s5"
proof -
  obtain i j s1 s2 where r: "read_b a s = Ok (i, s1)" "read_b b s1 = Ok (j, s2)" "inv s2" "held s2 i a" "held s2 j b"
    "i \<noteq> j" "get_b i s2 = contents s a" "get_b j s2 = contents s b" "contents s2 = contents s" "disk s2 = disk s"
    "hist s2 = hist s" "pinned s2 = pinned s" "busy s2 = insert a (insert b (busy s))" "frame s s1" "frame s s2"
    by (rule read_both [OF inv can])
  have ab: "a \<noteq> b" "a \<notin> busy s" "b \<notin> busy s" using can by (auto simp: can_read_both_def can_read_def)
  have len: "length (get_b i s2) = BSIZE" using r(7) contents_length [OF inv] by simp
  have ok: "a \<in> pinned s2 \<or> contents s2 a = disk s2 a" using r ab clean_law [OF inv, of a] by auto
  show ?thesis
  proof (rule put_write_release_both [OF r(3,4,5,6) ab(1) len ok])
    fix s3 s4 s5
    assume e: "write_b j (put_b j (get_b i s2) s2) = Ok s3" "release_b i s3 = Ok s4" "release_b j s4 = Ok s5"
      and q: "inv s5" "contents s5 = (contents s2)(b := get_b i s2)" "disk s5 = (disk s2)(b := get_b i s2)"
        "hist s5 = hist s2 @ [(b, get_b i s2)]" "pinned s5 = pinned s2 - {b}" "busy s5 = busy s2 - {a, b}"
        "frame s2 s5"
    have "busy s5 = busy s" using q(6) r(13) ab by auto
    with q r frame_trans [OF r(15) q(7)] show ?thesis by (intro that [OF r(1,2) e]) simp_all
  qed
qed

lemma copy_dst_src:
  assumes inv: "inv s" and can: "can_read_both b a s"
  obtains i j s1 s2 s3 s4 s5 where "read_b b s = Ok (j, s1)" "read_b a s1 = Ok (i, s2)"
    "write_b j (put_b j (get_b i s2) s2) = Ok s3" "release_b i s3 = Ok s4" "release_b j s4 = Ok s5" "inv s5"
    "contents s5 = (contents s)(b := contents s a)" "disk s5 = (disk s)(b := contents s a)"
    "hist s5 = hist s @ [(b, contents s a)]" "pinned s5 = pinned s - {b}" "busy s5 = busy s"
    "frame s s1" "frame s s5"
proof -
  obtain i j s1 s2 where r: "read_b b s = Ok (j, s1)" "read_b a s1 = Ok (i, s2)" "inv s2" "held s2 j b" "held s2 i a"
    "j \<noteq> i" "get_b j s2 = contents s b" "get_b i s2 = contents s a" "contents s2 = contents s" "disk s2 = disk s"
    "hist s2 = hist s" "pinned s2 = pinned s" "busy s2 = insert b (insert a (busy s))" "frame s s1" "frame s s2"
    by (rule read_both [OF inv can])
  have ab: "a \<noteq> b" "a \<notin> busy s" "b \<notin> busy s" using can by (auto simp: can_read_both_def can_read_def)
  have len: "length (get_b i s2) = BSIZE" using r(8) contents_length [OF inv] by simp
  have ok: "a \<in> pinned s2 \<or> contents s2 a = disk s2 a" using r ab clean_law [OF inv, of a] by auto
  show ?thesis
  proof (rule put_write_release_both [OF r(3,5,4) r(6) [symmetric] ab(1) len ok])
    fix s3 s4 s5
    assume e: "write_b j (put_b j (get_b i s2) s2) = Ok s3" "release_b i s3 = Ok s4" "release_b j s4 = Ok s5"
      and q: "inv s5" "contents s5 = (contents s2)(b := get_b i s2)" "disk s5 = (disk s2)(b := get_b i s2)"
        "hist s5 = hist s2 @ [(b, get_b i s2)]" "pinned s5 = pinned s2 - {b}" "busy s5 = busy s2 - {a, b}"
        "frame s2 s5"
    have "busy s5 = busy s" using q(6) r(13) ab by auto
    with q r frame_trans [OF r(15) q(7)] show ?thesis by (intro that [OF r(1,2) e]) simp_all
  qed
qed

end

text \<open>The buffer cache provides the interface.\<close>

definition same_frame :: "'a bstate_scheme \<Rightarrow> 'a bstate_scheme \<Rightarrow> bool" where
  "same_frame s s' \<longleftrightarrow>
     disksize s' = disksize s \<and> cur_pid s' = cur_pid s \<and> bstate.more s' = bstate.more s"

interpretation bio: block_cache "bread 1" bwrite brelse bdata set_bdata bio_inv view memdisk dhist
  dirty locked holds disksize NBUF same_frame
proof
  fix s t u :: "'a bstate_scheme" and b i s' d
  show "same_frame s t \<Longrightarrow> same_frame t u \<Longrightarrow> same_frame s u"
    by (simp add: same_frame_def)
  show "same_frame s t \<Longrightarrow> disksize t = disksize s"
    by (simp add: same_frame_def)
  show "bio_inv s \<Longrightarrow> holds s i b \<Longrightarrow> bdata i s = view s b"
    by (rule holds_view)
  show "\<exists>i s'. bread 1 b s = Ok (i, s')"
    if "bio_inv s" "b < disksize s" "b \<notin> locked s" "b \<in> dirty s \<or> card (locked s \<union> dirty s) < NBUF"
    using that bread_progress bread_dirty by blast
  show "bio_inv s' \<and> holds s' i b \<and> view s' = view s \<and>
      memdisk s' = memdisk s \<and> dhist s' = dhist s \<and> dirty s' = dirty s \<and> b \<notin> locked s \<and>
      locked s' = insert b (locked s) \<and> same_frame s s' \<and> (\<forall>j c. holds s j c \<longrightarrow> holds s' j c \<and> j \<noteq> i)"
    if inv: "bio_inv s" and r: "bread 1 b s = Ok (i, s')"
  proof -
    note sp = bread_spec [OF inv r]
    have "j \<noteq> i" if "holds s j c" for j c
    proof
      assume "j = i"
      then have "c = b" using sp(3) sp(6) [OF that] by (simp add: holds_def)
      with that sp(4) show False by (auto simp: holds_def locked_def)
    qed
    with sp show ?thesis by (auto simp: same_disk_def same_frame_def)
  qed
  show "bio_inv (set_bdata i d s) \<and> (\<forall>j c. holds (set_bdata i d s) j c \<longleftrightarrow> holds s j c) \<and>
      view (set_bdata i d s) = (view s)(b := d) \<and> memdisk (set_bdata i d s) = memdisk s \<and>
      dhist (set_bdata i d s) = dhist s \<and> dirty (set_bdata i d s) = dirty s \<and>
      locked (set_bdata i d s) = locked s \<and> same_frame s (set_bdata i d s)"
    if "bio_inv s" "holds s i b" "length d = BSIZE"
    using set_bdata_spec [OF that] by (auto simp: same_disk_def same_frame_def)
  show "\<exists>s'. bwrite i s = Ok s' \<and> bio_inv s' \<and> (\<forall>j c. holds s' j c \<longleftrightarrow> holds s j c) \<and> view s' = view s \<and>
      memdisk s' = (memdisk s)(b := view s b) \<and> dhist s' = dhist s @ [(b, view s b)] \<and>
      dirty s' = dirty s - {b} \<and> locked s' = locked s \<and> same_frame s s'"
    if "bio_inv s" "holds s i b"
    using bwrite_spec [OF that] by (metis same_frame_def)
  show "\<exists>s'. brelse i s = Ok s' \<and> bio_inv s' \<and> (\<forall>j c. holds s' j c \<longleftrightarrow> holds s j c \<and> j \<noteq> i) \<and>
      view s' = view s \<and> memdisk s' = memdisk s \<and> dhist s' = dhist s \<and> dirty s' = dirty s \<and>
      locked s' = locked s - {b} \<and> same_frame s s'"
    if "bio_inv s" "holds s i b" "b \<in> dirty s \<or> view s b = memdisk s b"
    using brelse_spec [OF that(1,2)] that(3) by (metis same_disk_def same_frame_def)
  show "view s b = memdisk s b" if "bio_inv s" "b \<notin> locked s" "b \<notin> dirty s"
    using that by (rule unlocked_clean)
  show "length (view s b) = BSIZE" if "bio_inv s"
    using that by (rule length_view)
qed

section \<open>Properties\<close>

text \<open>A machine just after \<open>binit\<close>, with a disk of 1000 zero blocks.\<close>

definition boot_bstate :: bstate where
  "boot_bstate = binit \<lparr>cur_pid = 1, memdisk = (\<lambda>_. replicate BSIZE 0), disksize = 1000, dhist = [],
     bufs = replicate (Suc NBUF) bss_buf\<rparr>"

lemma boot_bstate_facts:
  "bio_inv boot_bstate" "view boot_bstate = (\<lambda>_. replicate BSIZE 0)" "dirty boot_bstate = {}"
  "locked boot_bstate = {}" "disksize boot_bstate = 1000"
proof -
  let ?s = "\<lparr>cur_pid = 1, memdisk = (\<lambda>_. replicate BSIZE 0), disksize = 1000, dhist = [],
     bufs = replicate (Suc NBUF) bss_buf\<rparr>"
  have "bufs ?s = replicate (Suc NBUF) bss_buf" "\<And>b. length (memdisk ?s b) = BSIZE"
    by (simp_all del: replicate_Suc)
  note sp = binit_spec [OF this, folded boot_bstate_def]
  show "bio_inv boot_bstate" "view boot_bstate = (\<lambda>_. replicate BSIZE 0)" "dirty boot_bstate = {}"
    "locked boot_bstate = {}" "disksize boot_bstate = 1000"
    using sp by (simp_all add: same_disk_def)
qed

text \<open>
  \<open>binit\<close>, run on the zero-filled memory of a booting kernel, links all \<open>NBUF\<close> buffers
  into the list and establishes the invariant of the cache, with no block dirty or
  locked and every block seen as it is on the disk.
\<close>

theorem binit_establishes:
  assumes "bufs s = replicate (Suc NBUF) bss_buf" "\<And>b. length (memdisk s b) = BSIZE"
  shows "bio_inv (binit s) \<and> lru (bufs (binit s)) (rev [0..<NBUF]) \<and> view (binit s) = memdisk s \<and>
    dirty (binit s) = {} \<and> locked (binit s) = {}"
proof -
  have "length (bufs s) = Suc NBUF" by (simp add: assms(1) del: replicate_Suc)
  then show ?thesis using binit_spec [OF assms] binit_lru by blast
qed

theorem binit_establishes_witness:
  "bio_inv (binit \<lparr>cur_pid = 1, memdisk = (\<lambda>_. replicate BSIZE 7), disksize = 1000, dhist = [],
     bufs = replicate (Suc NBUF) bss_buf\<rparr>)"
  by (rule conjunct1 [OF binit_establishes]) (simp_all del: replicate_Suc)

text \<open>
  C4. \<open>bread\<close> returns, locked, a buffer with the current content of the block, whether it
  was cached or comes from the disk, as long as the block is free and fewer than \<open>NBUF\<close>
  blocks are locked or dirty; it evicts only clean unused buffers, so no block's content
  changes, and the invariant is kept.
\<close>

theorem bread_returns_block:
  assumes "bio_inv s" "b < disksize s" "b \<notin> locked s" "card (locked s \<union> dirty s) < NBUF"
  shows "\<exists>i s'. bread 1 b s = Ok (i, s') \<and> bio_inv s' \<and> holds s' i b \<and> bdata i s' = view s b \<and>
    view s' = view s \<and> memdisk s' = memdisk s \<and> dirty s' = dirty s \<and> locked s' = insert b (locked s)"
proof -
  obtain i s' where r: "bread 1 b s = Ok (i, s')" using bio.read_progress [OF assms(1-3)] assms(4) by blast
  then show ?thesis using bio.read_law [OF assms(1) r] bio.held_get [of s' i b] by auto
qed

theorem bread_returns_block_witness:
  "\<exists>i s'. bread 1 7 boot_bstate = Ok (i, s') \<and> bdata i s' = replicate BSIZE 0 \<and> locked s' = {7}"
  using bread_returns_block [of boot_bstate 7] by (auto simp: boot_bstate_facts NBUF_def)

text \<open>
  C21. Writing a block through the cache, \<open>bread\<close>, a change of the data, \<open>bwrite\<close> and
  \<open>brelse\<close>, succeeds, changes exactly that block both in the view of later readers and on
  the disk, issues one device write, and leaves the block clean and unlocked.
\<close>

theorem block_write_through:
  assumes "bio_inv s" "b < disksize s" "b \<notin> locked s" "card (locked s \<union> dirty s) < NBUF" "length d = BSIZE"
  shows "\<exists>i s1 s2 s3. bread 1 b s = Ok (i, s1) \<and> bwrite i (set_bdata i d s1) = Ok s2 \<and> brelse i s2 = Ok s3 \<and>
    bio_inv s3 \<and> view s3 = (view s)(b := d) \<and> memdisk s3 = (memdisk s)(b := d) \<and>
    dhist s3 = dhist s @ [(b, d)] \<and> dirty s3 = dirty s - {b} \<and> locked s3 = locked s"
proof -
  have "bio.can_read b s" using assms by (simp add: bio.can_read_def)
  from bio.read_put_write_release [OF assms(1) this assms(5)] show ?thesis by metis
qed

theorem block_write_through_witness:
  "\<exists>i s1 s2 s3. bread 1 7 boot_bstate = Ok (i, s1) \<and> bwrite i (set_bdata i (replicate BSIZE 1) s1) = Ok s2 \<and>
     brelse i s2 = Ok s3 \<and> memdisk s3 7 = replicate BSIZE 1"
  using block_write_through [of boot_bstate 7 "replicate BSIZE 1"]
  by (fastforce simp: boot_bstate_facts NBUF_def)

text \<open>
  The pointer surgery of \<open>brelse\<close> implements move-to-front: on a doubly linked ring
  that holds the buffers in the order \<open>xs\<close>, unlinking buffer \<open>b\<close> and linking it behind
  the head gives the ring with \<open>b\<close> first and the others in their old order, so that the
  recycling scan from the other end finds the least recently used buffer.
\<close>

theorem brelse_moves_to_front:
  assumes "lru bs xs" "b < NBUF"
  shows "lru (link_front b (unlink_buf b bs)) (b # remove1 b xs)"
  using assms by (intro lru_move_front) (simp_all add: lru_def)

theorem brelse_moves_to_front_witness:
  "lru (link_front 3 (unlink_buf 3 (bufs boot_bstate))) (3 # remove1 3 (rev [0..<NBUF]))"
proof (rule brelse_moves_to_front)
  show "lru (bufs boot_bstate) (rev [0..<NBUF])"
    unfolding boot_bstate_def by (rule binit_lru) (simp del: replicate_Suc)
  show "3 < NBUF" by (simp add: NBUF_def)
qed

end
