(* ===== verification/Xv6_Log.thy ===== *)
theory Xv6_Log
  imports Xv6_Bio
begin

text \<open>
  The write-ahead log, \<^verbatim>\<open>log.c\<close>, with \<open>readsb\<close> of \<^verbatim>\<open>fs.c\<close>, which it calls.

  The state extends that of the buffer cache with \<open>struct log\<close>.  The header block is
  read and written in its on-disk layout, little-endian integers at byte offsets.  The
  lemmas show what each operation does to the disk and to the view of the blocks, and
  that a commit is atomic with respect to crashes: after any prefix of the writes that
  \<open>commit\<close> issues, recovery at the next boot restores either all of the old blocks or all
  of the new ones.
\<close>

definition LOGSIZE :: nat where "LOGSIZE = 30"

definition MAXOPBLOCKS :: int where "MAXOPBLOCKS = 10"

section \<open>The super block\<close>

record superblock =
  sb_size :: u32
  sb_nblocks :: u32
  sb_ninodes :: u32
  sb_nlog :: u32
  sb_logstart :: u32
  sb_inodestart :: u32
  sb_bmapstart :: u32

definition sb_decode :: "block \<Rightarrow> superblock" where
  "sb_decode d = \<lparr>sb_size = get32 0 d, sb_nblocks = get32 4 d, sb_ninodes = get32 8 d,
     sb_nlog = get32 12 d, sb_logstart = get32 16 d, sb_inodestart = get32 20 d,
     sb_bmapstart = get32 24 d\<rparr>"

definition readsb :: "u32 \<Rightarrow> 'a bstate_scheme \<Rightarrow> (superblock \<times> 'a bstate_scheme) res" where
  "readsb dev s =
     bindr (bread dev 1 s) (\<lambda>(bp, s).
     let sb = sb_decode (bdata bp s) in
     bindr (brelse bp s) (\<lambda>s.
     Ok (sb, s)))"

section \<open>State\<close>

record log_state = bstate +
  log_start :: u32
  log_size :: int
  log_outstanding :: int
  log_committing :: bool
  log_dev :: u32
  lh_n :: int
  lh_block :: "u32 list"

text \<open>\<open>log.lh.block[i]\<close> is an array of \<open>LOGSIZE\<close> integers.\<close>

definition lh_block_at :: "nat \<Rightarrow> 'a log_state_scheme \<Rightarrow> u32 res" where
  "lh_block_at i s =
     (if i < length (lh_block s) then Ok (lh_block s ! i) else Fail (Fault ''log.lh.block''))"

definition set_lh_block :: "nat \<Rightarrow> u32 \<Rightarrow> 'a log_state_scheme \<Rightarrow> 'a log_state_scheme res" where
  "set_lh_block i b s =
     (if i < length (lh_block s) then Ok (s\<lparr>lh_block := (lh_block s)[i := b]\<rparr>)
      else Fail (Fault ''log.lh.block''))"

section \<open>Operations\<close>

primrec install_trans_loop :: "nat \<Rightarrow> nat \<Rightarrow> 'a log_state_scheme \<Rightarrow> 'a log_state_scheme res" where
  "install_trans_loop 0 tail s = Ok s"
| "install_trans_loop (Suc k) tail s =
     bindr (bread (log_dev s) (log_start s + of_nat tail + 1) s) (\<lambda>(lbuf, s).
     bindr (lh_block_at tail s) (\<lambda>bno.
     bindr (bread (log_dev s) bno s) (\<lambda>(dbuf, s).
     bindr (bwrite dbuf (set_bdata dbuf (bdata lbuf s) s)) (\<lambda>s.
     bindr (brelse lbuf s) (\<lambda>s.
     bindr (brelse dbuf s) (\<lambda>s.
     install_trans_loop k (Suc tail) s))))))"

definition install_trans :: "'a log_state_scheme \<Rightarrow> 'a log_state_scheme res" where
  "install_trans s = install_trans_loop (nat (lh_n s)) 0 s"

text \<open>The header block: the count at offset 0, entry \<open>i\<close> at offset \<open>4 + 4 * i\<close>.\<close>

definition hd_n :: "block \<Rightarrow> int" where
  "hd_n d = sint (get32 0 d)"

definition hd_block :: "nat \<Rightarrow> block \<Rightarrow> u32" where
  "hd_block i d = get32 (4 + 4 * i) d"

primrec read_head_loop :: "nat \<Rightarrow> nat \<Rightarrow> block \<Rightarrow> 'a log_state_scheme \<Rightarrow> 'a log_state_scheme res" where
  "read_head_loop 0 i d s = Ok s"
| "read_head_loop (Suc k) i d s =
     bindr (set_lh_block i (hd_block i d) s) (\<lambda>s. read_head_loop k (Suc i) d s)"

definition read_head :: "'a log_state_scheme \<Rightarrow> 'a log_state_scheme res" where
  "read_head s =
     bindr (bread (log_dev s) (log_start s) s) (\<lambda>(b, s).
     let d = bdata b s; s = s\<lparr>lh_n := hd_n d\<rparr> in
     bindr (read_head_loop (nat (lh_n s)) 0 d s) (\<lambda>s.
     brelse b s))"

primrec write_head_loop :: "nat \<Rightarrow> nat \<Rightarrow> u32 list \<Rightarrow> block \<Rightarrow> block res" where
  "write_head_loop 0 i bs d = Ok d"
| "write_head_loop (Suc k) i bs d =
     (if i < length bs then write_head_loop k (Suc i) bs (put32 (4 + 4 * i) (bs ! i) d)
      else Fail (Fault ''log.lh.block''))"

definition write_head :: "'a log_state_scheme \<Rightarrow> 'a log_state_scheme res" where
  "write_head s =
     bindr (bread (log_dev s) (log_start s) s) (\<lambda>(b, s).
     bindr (write_head_loop (nat (lh_n s)) 0 (lh_block s) (put32 0 (word_of_int (lh_n s)) (bdata b s))) (\<lambda>d.
     bindr (bwrite b (set_bdata b d s)) (\<lambda>s.
     brelse b s)))"

definition recover_from_log :: "'a log_state_scheme \<Rightarrow> 'a log_state_scheme res" where
  "recover_from_log s =
     bindr (read_head s) (\<lambda>s.
     bindr (install_trans s) (\<lambda>s.
     write_head (s\<lparr>lh_n := 0\<rparr>)))"

definition initlog :: "u32 \<Rightarrow> 'a log_state_scheme \<Rightarrow> 'a log_state_scheme res" where
  "initlog dev s =
     (if 4 + 4 * LOGSIZE \<ge> BSIZE then Fail (Panic ''initlog: too big logheader'')
      else
        bindr (readsb dev s) (\<lambda>(sb, s).
        recover_from_log (s\<lparr>log_start := sb_logstart sb, log_size := sint (sb_nlog sb), log_dev := dev\<rparr>)))"

definition begin_op :: "'a log_state_scheme \<Rightarrow> 'a log_state_scheme res" where
  "begin_op s =
     (if log_committing s then Fail (Blocked ''begin_op: committing'')
      else if lh_n s + (log_outstanding s + 1) * MAXOPBLOCKS > int LOGSIZE
      then Fail (Blocked ''begin_op: log space'')
      else Ok (s\<lparr>log_outstanding := log_outstanding s + 1\<rparr>))"

primrec write_log_loop :: "nat \<Rightarrow> nat \<Rightarrow> 'a log_state_scheme \<Rightarrow> 'a log_state_scheme res" where
  "write_log_loop 0 tail s = Ok s"
| "write_log_loop (Suc k) tail s =
     bindr (bread (log_dev s) (log_start s + of_nat tail + 1) s) (\<lambda>(to, s).
     bindr (lh_block_at tail s) (\<lambda>bno.
     bindr (bread (log_dev s) bno s) (\<lambda>(from, s).
     bindr (bwrite to (set_bdata to (bdata from s) s)) (\<lambda>s.
     bindr (brelse from s) (\<lambda>s.
     bindr (brelse to s) (\<lambda>s.
     write_log_loop k (Suc tail) s))))))"

definition write_log :: "'a log_state_scheme \<Rightarrow> 'a log_state_scheme res" where
  "write_log s = write_log_loop (nat (lh_n s)) 0 s"

definition commit :: "'a log_state_scheme \<Rightarrow> 'a log_state_scheme res" where
  "commit s =
     (if lh_n s > 0 then
        bindr (write_log s) (\<lambda>s.
        bindr (write_head s) (\<lambda>s.
        bindr (install_trans s) (\<lambda>s.
        write_head (s\<lparr>lh_n := 0\<rparr>))))
      else Ok s)"

definition end_op :: "'a log_state_scheme \<Rightarrow> 'a log_state_scheme res" where
  "end_op s =
     (let s = s\<lparr>log_outstanding := log_outstanding s - 1\<rparr> in
      if log_committing s then Fail (Panic ''log.committing'')
      else if log_outstanding s = 0 then
        bindr (commit (s\<lparr>log_committing := True\<rparr>)) (\<lambda>s.
        Ok (s\<lparr>log_committing := False\<rparr>))
      else Ok s)"

primrec absorb :: "nat \<Rightarrow> nat \<Rightarrow> u32 \<Rightarrow> u32 list \<Rightarrow> nat res" where
  "absorb 0 i b bs = Ok i"
| "absorb (Suc k) i b bs =
     (if i < length bs then if bs ! i = b then Ok i else absorb k (Suc i) b bs
      else Fail (Fault ''log.lh.block''))"

definition log_write :: "nat \<Rightarrow> 'a log_state_scheme \<Rightarrow> 'a log_state_scheme res" where
  "log_write b s =
     (if lh_n s \<ge> int LOGSIZE \<or> lh_n s \<ge> log_size s - 1 then Fail (Panic ''too big a transaction'')
      else if log_outstanding s < 1 then Fail (Panic ''log_write outside of trans'')
      else
        bindr (absorb (nat (lh_n s)) 0 (b_blockno (bufs s ! b)) (lh_block s)) (\<lambda>i.
        bindr (set_lh_block i (b_blockno (bufs s ! b)) s) (\<lambda>s.
        let s = (if int i = lh_n s then s\<lparr>lh_n := lh_n s + 1\<rparr> else s) in
        Ok (upd_buf b (\<lambda>b. b\<lparr>b_dirty := True\<rparr>) s))))"

section \<open>The layers of the state\<close>

text \<open>The cache does not depend on the fields that the log adds, and leaves them alone.\<close>

lemma bio_ext:
  assumes "bufs s' = bufs s" "memdisk s' = memdisk s" "disksize s' = disksize s"
  shows "bio_inv s' = bio_inv s" "view s' = view s" "dirty s' = dirty s" "locked s' = locked s"
    "holds s' = holds s" "bdata i s' = bdata i s"
proof -
  have "cached s' b = cached s b" for b using assms by (simp add: cached_def)
  then show "view s' = view s" using assms by (auto simp: fun_eq_iff view_def bdata_def split: option.splits)
  show "bio_inv s' = bio_inv s" using assms by (simp add: bio_inv_def)
  show "dirty s' = dirty s" "locked s' = locked s" "holds s' = holds s" "bdata i s' = bdata i s"
    using assms by (auto simp: dirty_def locked_def holds_def bdata_def fun_eq_iff)
qed

lemma bio_log_upd [simp]:
  "bio_inv (s\<lparr>log_start := x1\<rparr>) = bio_inv s" "view (s\<lparr>log_start := x1\<rparr>) = view s" "dirty (s\<lparr>log_start := x1\<rparr>) = dirty s"
  "locked (s\<lparr>log_start := x1\<rparr>) = locked s" "holds (s\<lparr>log_start := x1\<rparr>) = holds s" "bdata i (s\<lparr>log_start := x1\<rparr>) = bdata i s"
  "bio_inv (s\<lparr>log_size := x2\<rparr>) = bio_inv s" "view (s\<lparr>log_size := x2\<rparr>) = view s" "dirty (s\<lparr>log_size := x2\<rparr>) = dirty s"
  "locked (s\<lparr>log_size := x2\<rparr>) = locked s" "holds (s\<lparr>log_size := x2\<rparr>) = holds s" "bdata i (s\<lparr>log_size := x2\<rparr>) = bdata i s"
  "bio_inv (s\<lparr>log_outstanding := x3\<rparr>) = bio_inv s" "view (s\<lparr>log_outstanding := x3\<rparr>) = view s" "dirty (s\<lparr>log_outstanding := x3\<rparr>) = dirty s"
  "locked (s\<lparr>log_outstanding := x3\<rparr>) = locked s" "holds (s\<lparr>log_outstanding := x3\<rparr>) = holds s" "bdata i (s\<lparr>log_outstanding := x3\<rparr>) = bdata i s"
  "bio_inv (s\<lparr>log_committing := x4\<rparr>) = bio_inv s" "view (s\<lparr>log_committing := x4\<rparr>) = view s" "dirty (s\<lparr>log_committing := x4\<rparr>) = dirty s"
  "locked (s\<lparr>log_committing := x4\<rparr>) = locked s" "holds (s\<lparr>log_committing := x4\<rparr>) = holds s" "bdata i (s\<lparr>log_committing := x4\<rparr>) = bdata i s"
  "bio_inv (s\<lparr>log_dev := x5\<rparr>) = bio_inv s" "view (s\<lparr>log_dev := x5\<rparr>) = view s" "dirty (s\<lparr>log_dev := x5\<rparr>) = dirty s"
  "locked (s\<lparr>log_dev := x5\<rparr>) = locked s" "holds (s\<lparr>log_dev := x5\<rparr>) = holds s" "bdata i (s\<lparr>log_dev := x5\<rparr>) = bdata i s"
  "bio_inv (s\<lparr>lh_n := x6\<rparr>) = bio_inv s" "view (s\<lparr>lh_n := x6\<rparr>) = view s" "dirty (s\<lparr>lh_n := x6\<rparr>) = dirty s"
  "locked (s\<lparr>lh_n := x6\<rparr>) = locked s" "holds (s\<lparr>lh_n := x6\<rparr>) = holds s" "bdata i (s\<lparr>lh_n := x6\<rparr>) = bdata i s"
  "bio_inv (s\<lparr>lh_block := x7\<rparr>) = bio_inv s" "view (s\<lparr>lh_block := x7\<rparr>) = view s" "dirty (s\<lparr>lh_block := x7\<rparr>) = dirty s"
  "locked (s\<lparr>lh_block := x7\<rparr>) = locked s" "holds (s\<lparr>lh_block := x7\<rparr>) = holds s" "bdata i (s\<lparr>lh_block := x7\<rparr>) = bdata i s"
  by (rule bio_ext; simp)+

lemma same_frame_log:
  assumes "same_frame s s'"
  shows "log_start s' = log_start s" "log_size s' = log_size s" "log_outstanding s' = log_outstanding s"
    "log_committing s' = log_committing s" "log_dev s' = log_dev s" "lh_n s' = lh_n s"
    "lh_block s' = lh_block s" "log_state.more s' = log_state.more s" "disksize s' = disksize s"
    "cur_pid s' = cur_pid s"
  using assms by (cases s; cases s'; simp add: same_frame_def)+

section \<open>The log region\<close>

definition log_blocks :: "'a log_state_scheme \<Rightarrow> u32 list" where
  "log_blocks s = take (nat (lh_n s)) (lh_block s)"

definition log_blk :: "u32 \<Rightarrow> nat \<Rightarrow> u32" where
  "log_blk st i = st + of_nat i + 1"

definition in_log :: "u32 \<Rightarrow> nat \<Rightarrow> u32 \<Rightarrow> bool" where
  "in_log st n b \<longleftrightarrow> unat st \<le> unat b \<and> unat b < unat st + n"

text \<open>The geometry of the log and of the blocks recorded in it.\<close>

definition log_geom :: "u32 \<Rightarrow> nat \<Rightarrow> u32 \<Rightarrow> bool" where
  "log_geom st n sz \<longleftrightarrow> 1 \<le> n \<and> n \<le> LOGSIZE \<and> unat st + n \<le> unat sz"

definition home_ok :: "u32 \<Rightarrow> nat \<Rightarrow> u32 \<Rightarrow> u32 list \<Rightarrow> bool" where
  "home_ok st n sz bs \<longleftrightarrow> length bs < n \<and> (\<forall>b \<in> set bs. b < sz \<and> \<not> in_log st n b)"

lemma unat_log_blk:
  assumes "log_geom st n sz" "Suc i < n"
  shows "unat (log_blk st i) = unat st + i + 1"
proof -
  have i: "i < 30" using assms by (simp add: log_geom_def LOGSIZE_def)
  have sz: "unat sz < 2 ^ 32" by (rule unat_u32_bound)
  have b: "unat st + i + 1 < 2 ^ 32" using assms sz by (simp add: log_geom_def)
  have ui: "unat (of_nat i :: u32) = i" using i by simp
  have "unat (st + of_nat i) = unat st + i" using unat_add_no_wrap [of st "of_nat i"] ui b by simp
  then show ?thesis using unat_add_no_wrap [of "st + of_nat i" 1] b by (simp add: log_blk_def)
qed

lemma log_start_facts:
  assumes "log_geom st n sz"
  shows "in_log st n st" "st < sz"
  using assms by (auto simp: in_log_def log_geom_def word_less_nat_alt)

lemma log_blk_facts:
  assumes g: "log_geom st n sz" and i: "Suc i < n"
  shows "in_log st n (log_blk st i)" "log_blk st i < sz" "log_blk st i \<noteq> st"
    "Suc j < n \<Longrightarrow> log_blk st i = log_blk st j \<longleftrightarrow> i = j"
proof -
  note u = unat_log_blk [OF g i]
  show "in_log st n (log_blk st i)" "log_blk st i < sz"
    using u i g by (auto simp: in_log_def log_geom_def word_less_nat_alt)
  show "log_blk st i \<noteq> st" using u by auto
  show "log_blk st i = log_blk st j \<longleftrightarrow> i = j" if "Suc j < n"
    using u unat_log_blk [OF g that] by (auto simp: word_unat_eq_iff)
qed

text \<open>Sequences of block writes.\<close>

definition apply_writes :: "(u32 \<times> block) list \<Rightarrow> (u32 \<Rightarrow> block) \<Rightarrow> u32 \<Rightarrow> block" where
  "apply_writes ws d = fold (\<lambda>(b, x) d. d(b := x)) ws d"

lemma apply_writes_simps [simp]:
  "apply_writes [] d = d" "apply_writes ((b, x) # ws) d = apply_writes ws (d(b := x))"
  "apply_writes (ws @ ws') d = apply_writes ws' (apply_writes ws d)"
  by (simp_all add: apply_writes_def)

lemma apply_writes_other: "b \<notin> fst ` set ws \<Longrightarrow> apply_writes ws d b = d b"
  by (induction ws arbitrary: d) auto

lemma apply_writes_map:
  assumes "(b, x) \<in> set ws" "\<And>y. (b, y) \<in> set ws \<Longrightarrow> y = x"
  shows "apply_writes ws d b = x"
  using assms
proof (induction ws arbitrary: d)
  case (Cons w ws)
  show ?case
  proof (cases "b \<in> fst ` set ws")
    case True
    then obtain y where y: "(b, y) \<in> set ws" by auto
    then have "y = x" by (intro Cons.prems(2)) simp
    with y have "apply_writes ws d' b = x" for d'
      by (intro Cons.IH) (simp, rule Cons.prems(2), simp)
    then show ?thesis by (cases w) simp
  next
    case False
    have "w = (b, x)"
    proof (rule ccontr)
      assume "w \<noteq> (b, x)"
      with Cons.prems(1) have "(b, x) \<in> set ws" by simp
      then have "b \<in> fst ` set ws" by (metis fst_conv imageI)
      with False show False by simp
    qed
    with False show ?thesis by (simp add: apply_writes_other)
  qed
qed simp

lemma length_apply_writes:
  "(\<And>b. length (d b) = n) \<Longrightarrow> (\<And>b x. (b, x) \<in> set ws \<Longrightarrow> length x = n) \<Longrightarrow> length (apply_writes ws d b) = n"
proof (induction ws arbitrary: d)
  case (Cons w ws)
  obtain a x where w: "w = (a, x)" by (cases w)
  have "length x = n" using Cons.prems(2) [of a x] w by simp
  then have "length (apply_writes ws (d(a := x)) b) = n"
    by (intro Cons.IH) (use Cons.prems in auto)
  with w show ?case by simp
qed simp

section \<open>The two copying loops\<close>

lemma lh_block_at_take:
  "take (length bs) (lh_block s) = bs \<Longrightarrow> i < length bs \<Longrightarrow> lh_block_at i s = Ok (bs ! i)"
  by (metis lh_block_at_def length_take min_less_iff_conj nth_take)

lemma install_trans_step:
  assumes inv: "bio_inv s" "locked s = {}" and dev: "log_dev s = 1" and st: "log_start s = st"
    and geom: "log_geom st n (disksize s)" and home: "home_ok st n (disksize s) bs"
    and bs: "take (length bs) (lh_block s) = bs" and tail: "tail < length bs"
    and room: "card (dirty s) < NBUF" "bs ! tail \<in> dirty s \<or> Suc (card (dirty s)) < NBUF"
  obtains s' where "\<And>k. install_trans_loop (Suc k) tail s = install_trans_loop k (Suc tail) s'"
    "bio_inv s'" "view s' = (view s)(bs ! tail := view s (log_blk st tail))"
    "memdisk s' = (memdisk s)(bs ! tail := view s (log_blk st tail))"
    "dhist s' = dhist s @ [(bs ! tail, view s (log_blk st tail))]" "dirty s' = dirty s - {bs ! tail}"
    "locked s' = {}" "same_frame s s'"
proof -
  have t: "Suc tail < n" using tail home by (simp add: home_ok_def)
  have mem: "bs ! tail \<in> set bs" using tail by simp
  then have b: "bs ! tail < disksize s" "\<not> in_log st n (bs ! tail)" using home by (auto simp: home_ok_def)
  note lb = log_blk_facts [OF geom t]
  have "card (insert (log_blk st tail) (dirty s)) \<le> Suc (card (dirty s))" by (rule card_insert_le_m1) auto
  then have can: "bio.can_read_both (log_blk st tail) (bs ! tail) s"
    using b lb inv room unfolding bio.can_read_both_def bio.can_read_def by auto
  show ?thesis
  proof (rule bio.copy_src_dst [OF inv(1) can])
    fix i j s1 s2 s3 s4 s5
    assume e: "bread 1 (log_blk st tail) s = Ok (i, s1)" "bread 1 (bs ! tail) s1 = Ok (j, s2)"
      "bwrite j (set_bdata j (bdata i s2) s2) = Ok s3" "brelse i s3 = Ok s4" "brelse j s4 = Ok s5"
      and q: "bio_inv s5" "view s5 = (view s)(bs ! tail := view s (log_blk st tail))"
        "memdisk s5 = (memdisk s)(bs ! tail := view s (log_blk st tail))"
        "dhist s5 = dhist s @ [(bs ! tail, view s (log_blk st tail))]" "dirty s5 = dirty s - {bs ! tail}"
        "locked s5 = locked s" "same_frame s s1" "same_frame s s5"
    note fr = same_frame_log [OF q(7)]
    have at: "lh_block_at tail s1 = Ok (bs ! tail)" using bs tail fr by (intro lh_block_at_take) simp_all
    have e1: "bread 1 (log_start s + of_nat tail + 1) s = Ok (i, s1)"
      using e(1) st by (simp add: log_blk_def)
    have loop: "install_trans_loop (Suc k) tail s = install_trans_loop k (Suc tail) s5" for k
      using e at dev fr by (simp add: e1)
    show ?thesis by (rule that [OF loop q(1-5) _ q(8)]) (simp add: q(6) inv(2))
  qed
qed

lemma install_trans_loop_spec:
  assumes "bio_inv s" "locked s = {}" and "log_dev s = 1" and "log_start s = st"
    and geom: "log_geom st n (disksize s)" and home: "home_ok st n (disksize s) bs"
    and "take (length bs) (lh_block s) = bs" and "k + tail = length bs"
    and "card (dirty s) < NBUF"
    and "Suc (card (dirty s)) < NBUF \<or> distinct (drop tail bs) \<and> set (drop tail bs) \<subseteq> dirty s"
  shows "\<exists>s'. install_trans_loop k tail s = Ok s' \<and> bio_inv s' \<and> locked s' = {} \<and> same_frame s s' \<and>
    view s' = apply_writes (map (\<lambda>i. (bs ! i, view s (log_blk st i))) [tail..<length bs]) (view s) \<and>
    memdisk s' = apply_writes (map (\<lambda>i. (bs ! i, view s (log_blk st i))) [tail..<length bs]) (memdisk s) \<and>
    dhist s' = dhist s @ map (\<lambda>i. (bs ! i, view s (log_blk st i))) [tail..<length bs] \<and>
    dirty s' = dirty s - set (drop tail bs)"
  using assms
proof (induction k arbitrary: tail s)
  case 0
  then show ?case by (simp add: same_frame_def)
next
  case (Suc k)
  have tail: "tail < length bs" using Suc.prems by simp
  have drop: "drop tail bs = bs ! tail # drop (Suc tail) bs" using tail by (rule Cons_nth_drop_Suc [symmetric])
  have room: "bs ! tail \<in> dirty s \<or> Suc (card (dirty s)) < NBUF" using Suc.prems drop by auto
  obtain s1 where s1: "\<And>k. install_trans_loop (Suc k) tail s = install_trans_loop k (Suc tail) s1"
    "bio_inv s1" "view s1 = (view s)(bs ! tail := view s (log_blk st tail))"
    "memdisk s1 = (memdisk s)(bs ! tail := view s (log_blk st tail))"
    "dhist s1 = dhist s @ [(bs ! tail, view s (log_blk st tail))]" "dirty s1 = dirty s - {bs ! tail}"
    "locked s1 = {}" "same_frame s s1"
    using install_trans_step [OF Suc.prems(1-7) tail Suc.prems(9) room] by blast
  note fr = same_frame_log [OF s1(8)]
  have card: "card (dirty s1) \<le> card (dirty s)" unfolding s1(6) by (rule card_mono) auto
  have "bs ! tail \<noteq> log_blk st i" if "i < length bs" for i
  proof -
    have "in_log st n (log_blk st i)" using log_blk_facts(1) [OF geom] home that Suc.prems
      by (metis Suc_less_eq less_trans_Suc home_ok_def)
    moreover have "\<not> in_log st n (bs ! tail)" using home tail by (auto simp: home_ok_def)
    ultimately show ?thesis by auto
  qed
  then have v1: "view s1 (log_blk st i) = view s (log_blk st i)" if "i < length bs" for i
    using that by (metis s1(3) fun_upd_other)
  have ws: "map (\<lambda>i. (bs ! i, view s1 (log_blk st i))) [Suc tail..<length bs] =
      map (\<lambda>i. (bs ! i, view s (log_blk st i))) [Suc tail..<length bs]"
    by (intro map_cong) (auto simp: v1)
  have "\<exists>s'. install_trans_loop k (Suc tail) s1 = Ok s' \<and> bio_inv s' \<and> locked s' = {} \<and> same_frame s1 s' \<and>
    view s' = apply_writes (map (\<lambda>i. (bs ! i, view s1 (log_blk st i))) [Suc tail..<length bs]) (view s1) \<and>
    memdisk s' = apply_writes (map (\<lambda>i. (bs ! i, view s1 (log_blk st i))) [Suc tail..<length bs]) (memdisk s1) \<and>
    dhist s' = dhist s1 @ map (\<lambda>i. (bs ! i, view s1 (log_blk st i))) [Suc tail..<length bs] \<and>
    dirty s' = dirty s1 - set (drop (Suc tail) bs)"
  proof (rule Suc.IH)
    show "Suc (card (dirty s1)) < NBUF \<or> distinct (drop (Suc tail) bs) \<and> set (drop (Suc tail) bs) \<subseteq> dirty s1"
      using Suc.prems(10) card drop by (auto simp: s1(6))
  qed (use Suc.prems s1 fr card in auto)
  then obtain s' where s': "install_trans_loop k (Suc tail) s1 = Ok s'" "bio_inv s'" "locked s' = {}" "same_frame s1 s'"
    "view s' = apply_writes (map (\<lambda>i. (bs ! i, view s (log_blk st i))) [Suc tail..<length bs]) (view s1)"
    "memdisk s' = apply_writes (map (\<lambda>i. (bs ! i, view s (log_blk st i))) [Suc tail..<length bs]) (memdisk s1)"
    "dhist s' = dhist s1 @ map (\<lambda>i. (bs ! i, view s (log_blk st i))) [Suc tail..<length bs]"
    "dirty s' = dirty s1 - set (drop (Suc tail) bs)"
    unfolding ws by blast
  have upt: "[tail..<length bs] = tail # [Suc tail..<length bs]" using tail by (rule upt_conv_Cons)
  have dirty': "dirty s' = dirty s - set (bs ! tail # drop (Suc tail) bs)"
    unfolding s'(8) s1(6) by auto
  show ?case
    unfolding s1(1) s'(1) upt drop list.map apply_writes_simps
    by (rule exI [of _ s'], intro conjI refl)
      (use s' s1(3-5) dirty' bio.frame_trans [OF s1(8) s'(4)] in simp_all)
qed

lemma write_log_step:
  assumes inv: "bio_inv s" "locked s = {}" and dev: "log_dev s = 1" and st: "log_start s = st"
    and geom: "log_geom st n (disksize s)" and home: "home_ok st n (disksize s) bs"
    and bs: "take (length bs) (lh_block s) = bs" and tail: "tail < length bs"
    and room: "card (dirty s) < NBUF" "set bs \<subseteq> dirty s" and sep: "\<And>b. b \<in> dirty s \<Longrightarrow> \<not> in_log st n b"
  obtains s' where "\<And>k. write_log_loop (Suc k) tail s = write_log_loop k (Suc tail) s'"
    "bio_inv s'" "view s' = (view s)(log_blk st tail := view s (bs ! tail))"
    "memdisk s' = (memdisk s)(log_blk st tail := view s (bs ! tail))"
    "dhist s' = dhist s @ [(log_blk st tail, view s (bs ! tail))]" "dirty s' = dirty s"
    "locked s' = {}" "same_frame s s'"
proof -
  have t: "Suc tail < n" using tail home by (simp add: home_ok_def)
  have mem: "bs ! tail \<in> set bs" using tail by simp
  then have b: "bs ! tail < disksize s" "\<not> in_log st n (bs ! tail)" using home by (auto simp: home_ok_def)
  note lb = log_blk_facts [OF geom t]
  have can: "bio.can_read_both (log_blk st tail) (bs ! tail) s"
    using b lb inv room mem unfolding bio.can_read_both_def bio.can_read_def by auto
  show ?thesis
  proof (rule bio.copy_dst_src [OF inv(1) can])
    fix i j s1 s2 s3 s4 s5
    assume e: "bread 1 (log_blk st tail) s = Ok (j, s1)" "bread 1 (bs ! tail) s1 = Ok (i, s2)"
      "bwrite j (set_bdata j (bdata i s2) s2) = Ok s3" "brelse i s3 = Ok s4" "brelse j s4 = Ok s5"
      and q: "bio_inv s5" "view s5 = (view s)(log_blk st tail := view s (bs ! tail))"
        "memdisk s5 = (memdisk s)(log_blk st tail := view s (bs ! tail))"
        "dhist s5 = dhist s @ [(log_blk st tail, view s (bs ! tail))]" "dirty s5 = dirty s - {log_blk st tail}"
        "locked s5 = locked s" "same_frame s s1" "same_frame s s5"
    note fr = same_frame_log [OF q(7)]
    have at: "lh_block_at tail s1 = Ok (bs ! tail)" using bs tail fr by (intro lh_block_at_take) simp_all
    have e1: "bread 1 (log_start s + of_nat tail + 1) s = Ok (j, s1)"
      using e(1) st by (simp add: log_blk_def)
    have loop: "write_log_loop (Suc k) tail s = write_log_loop k (Suc tail) s5" for k
      using e at dev fr by (simp add: e1)
    have "dirty s5 = dirty s" using q(5) lb(1) sep by auto
    then show ?thesis by (rule that [OF loop q(1-4) _ _ q(8)]) (simp add: q(6) inv(2))
  qed
qed

lemma write_log_loop_spec:
  assumes "bio_inv s" "locked s = {}" and "log_dev s = 1" and "log_start s = st"
    and geom: "log_geom st n (disksize s)" and home: "home_ok st n (disksize s) bs"
    and "take (length bs) (lh_block s) = bs" and "k + tail = length bs"
    and "card (dirty s) < NBUF" "set bs \<subseteq> dirty s" and "\<And>b. b \<in> dirty s \<Longrightarrow> \<not> in_log st n b"
  shows "\<exists>s'. write_log_loop k tail s = Ok s' \<and> bio_inv s' \<and> locked s' = {} \<and> same_frame s s' \<and>
    view s' = apply_writes (map (\<lambda>i. (log_blk st i, view s (bs ! i))) [tail..<length bs]) (view s) \<and>
    memdisk s' = apply_writes (map (\<lambda>i. (log_blk st i, view s (bs ! i))) [tail..<length bs]) (memdisk s) \<and>
    dhist s' = dhist s @ map (\<lambda>i. (log_blk st i, view s (bs ! i))) [tail..<length bs] \<and>
    dirty s' = dirty s"
  using assms
proof (induction k arbitrary: tail s)
  case 0
  then show ?case by (simp add: same_frame_def)
next
  case (Suc k)
  have tail: "tail < length bs" using Suc.prems by simp
  obtain s1 where s1: "\<And>k. write_log_loop (Suc k) tail s = write_log_loop k (Suc tail) s1"
    "bio_inv s1" "view s1 = (view s)(log_blk st tail := view s (bs ! tail))"
    "memdisk s1 = (memdisk s)(log_blk st tail := view s (bs ! tail))"
    "dhist s1 = dhist s @ [(log_blk st tail, view s (bs ! tail))]" "dirty s1 = dirty s"
    "locked s1 = {}" "same_frame s s1"
    using write_log_step [OF Suc.prems(1-7) tail Suc.prems(9-11)] by blast
  note fr = same_frame_log [OF s1(8)]
  have "in_log st n (log_blk st tail)"
    using log_blk_facts(1) [OF Suc.prems(5), of tail] Suc.prems(6) tail by (simp add: home_ok_def)
  then have v1: "view s1 (bs ! i) = view s (bs ! i)" if "i < length bs" for i
    using Suc.prems(10,11) that by (metis s1(3) fun_upd_other nth_mem subsetD)
  have ws: "map (\<lambda>i. (log_blk st i, view s1 (bs ! i))) [Suc tail..<length bs] =
      map (\<lambda>i. (log_blk st i, view s (bs ! i))) [Suc tail..<length bs]"
    by (intro map_cong) (auto simp: v1)
  have "\<exists>s'. write_log_loop k (Suc tail) s1 = Ok s' \<and> bio_inv s' \<and> locked s' = {} \<and> same_frame s1 s' \<and>
    view s' = apply_writes (map (\<lambda>i. (log_blk st i, view s1 (bs ! i))) [Suc tail..<length bs]) (view s1) \<and>
    memdisk s' = apply_writes (map (\<lambda>i. (log_blk st i, view s1 (bs ! i))) [Suc tail..<length bs]) (memdisk s1) \<and>
    dhist s' = dhist s1 @ map (\<lambda>i. (log_blk st i, view s1 (bs ! i))) [Suc tail..<length bs] \<and>
    dirty s' = dirty s1"
    by (rule Suc.IH) (use Suc.prems s1 fr in auto)
  then obtain s' where s': "write_log_loop k (Suc tail) s1 = Ok s'" "bio_inv s'" "locked s' = {}" "same_frame s1 s'"
    "view s' = apply_writes (map (\<lambda>i. (log_blk st i, view s (bs ! i))) [Suc tail..<length bs]) (view s1)"
    "memdisk s' = apply_writes (map (\<lambda>i. (log_blk st i, view s (bs ! i))) [Suc tail..<length bs]) (memdisk s1)"
    "dhist s' = dhist s1 @ map (\<lambda>i. (log_blk st i, view s (bs ! i))) [Suc tail..<length bs]" "dirty s' = dirty s1"
    unfolding ws by blast
  have upt: "[tail..<length bs] = tail # [Suc tail..<length bs]" using tail by (rule upt_conv_Cons)
  show ?case
    unfolding s1(1) s'(1) upt list.map apply_writes_simps
    by (rule exI [of _ s'], intro conjI refl)
      (use s' s1(3-6) bio.frame_trans [OF s1(8) s'(4)] in simp_all)
qed

section \<open>The header block\<close>

definition hd_blocks :: "block \<Rightarrow> u32 list" where
  "hd_blocks d = map (\<lambda>i. hd_block i d) [0..<nat (hd_n d)]"

lemma write_head_loop_spec:
  assumes "length d = BSIZE" "i + k \<le> length bs" "i + k \<le> LOGSIZE"
  shows "\<exists>d'. write_head_loop k i bs d = Ok d' \<and> length d' = BSIZE \<and> hd_n d' = hd_n d \<and>
    (\<forall>j < i + k. hd_block j d' = (if i \<le> j then bs ! j else hd_block j d))"
  using assms
proof (induction k arbitrary: i d)
  case (Suc k)
  let ?d = "put32 (4 + 4 * i) (bs ! i) d"
  have len: "4 + 4 * i + 4 \<le> length d" using Suc.prems by (simp add: BSIZE_def LOGSIZE_def)
  have "\<exists>d'. write_head_loop k (Suc i) bs ?d = Ok d' \<and> length d' = BSIZE \<and> hd_n d' = hd_n ?d \<and>
    (\<forall>j < Suc i + k. hd_block j d' = (if Suc i \<le> j then bs ! j else hd_block j ?d))"
    by (rule Suc.IH) (use Suc.prems len in auto)
  then obtain d' where d': "write_head_loop k (Suc i) bs ?d = Ok d'" "length d' = BSIZE" "hd_n d' = hd_n ?d"
    "\<forall>j < Suc i + k. hd_block j d' = (if Suc i \<le> j then bs ! j else hd_block j ?d)"
    by blast
  have "hd_n ?d = hd_n d" using len by (simp add: hd_n_def)
  moreover have "hd_block i ?d = bs ! i" using len by (simp add: hd_block_def)
  moreover have "hd_block j ?d = hd_block j d" if "j < i" for j
    unfolding hd_block_def using len that by (intro get32_put32_other) auto
  ultimately show ?case
    using d' Suc.prems by (intro exI [of _ d']) (auto simp: not_less_eq_eq le_less)
qed simp

lemma write_head_spec:
  assumes inv: "bio_inv s" "locked s = {}" and dev: "log_dev s = 1"
    and st: "log_start s < disksize s" and card: "card (dirty s) < NBUF"
    and n: "0 \<le> lh_n s" "nat (lh_n s) \<le> length (lh_block s)" "nat (lh_n s) \<le> LOGSIZE"
  obtains s' d where "write_head s = Ok s'" "length d = BSIZE" "hd_n d = lh_n s" "hd_blocks d = log_blocks s"
    "bio_inv s'" "view s' = (view s)(log_start s := d)" "memdisk s' = (memdisk s)(log_start s := d)"
    "dhist s' = dhist s @ [(log_start s, d)]" "dirty s' = dirty s - {log_start s}" "locked s' = {}" "same_frame s s'"
proof -
  let ?d0 = "put32 0 (word_of_int (lh_n s)) (view s (log_start s))"
  have len: "length (view s (log_start s)) = BSIZE" by (rule length_view [OF inv(1)])
  then have len0: "length ?d0 = BSIZE" by (simp add: BSIZE_def)
  have n30: "lh_n s \<le> 30" using n by (simp add: LOGSIZE_def)
  obtain d where d: "write_head_loop (nat (lh_n s)) 0 (lh_block s) ?d0 = Ok d" "length d = BSIZE"
    "hd_n d = hd_n ?d0" "\<And>j. j < nat (lh_n s) \<Longrightarrow> hd_block j d = lh_block s ! j"
    using write_head_loop_spec [of ?d0 0 "nat (lh_n s)" "lh_block s"] len0 n by auto
  have "sint (word_of_int (lh_n s) :: u32) = lh_n s"
    using n(1) n30 by (simp add: signed_of_int signed_take_bit_int_eq_self_iff)
  then have hn: "hd_n d = lh_n s" using d(3) len by (simp add: hd_n_def BSIZE_def)
  have hb: "hd_blocks d = log_blocks s"
    using d(4) n by (intro nth_equalityI) (auto simp: hd_blocks_def log_blocks_def hn)
  have can: "bio.can_read (log_start s) s" using st inv card by (simp add: bio.can_read_def)
  show ?thesis
  proof (rule bio.read_put_write_release [OF inv(1) can d(2)])
    fix i s1 s2 s3
    assume e: "bread 1 (log_start s) s = Ok (i, s1)" "bdata i s1 = view s (log_start s)"
      "bwrite i (set_bdata i d s1) = Ok s2" "brelse i s2 = Ok s3"
      and q: "bio_inv s3" "view s3 = (view s)(log_start s := d)" "memdisk s3 = (memdisk s)(log_start s := d)"
      "dhist s3 = dhist s @ [(log_start s, d)]" "dirty s3 = dirty s - {log_start s}" "locked s3 = locked s"
      "same_frame s s1" "same_frame s s3"
    note fr = same_frame_log [OF q(7)]
    have "write_head s = Ok s3" unfolding write_head_def using e dev fr d by simp
    then show ?thesis by (rule that [OF _ d(2) hn hb q(1-5) _ q(8)]) (simp add: q(6) inv(2))
  qed
qed

lemma read_head_loop_spec:
  assumes "i + k \<le> length (lh_block s)" "length (lh_block s) = LOGSIZE"
  shows "\<exists>bs. read_head_loop k i d s = Ok (s\<lparr>lh_block := bs\<rparr>) \<and> length bs = LOGSIZE \<and>
    (\<forall>j < i + k. bs ! j = (if i \<le> j then hd_block j d else lh_block s ! j))"
  using assms
proof (induction k arbitrary: i s)
  case 0
  then show ?case by (intro exI [of _ "lh_block s"]) simp
next
  case (Suc k)
  let ?s = "s\<lparr>lh_block := (lh_block s)[i := hd_block i d]\<rparr>"
  have "\<exists>bs. read_head_loop k (Suc i) d ?s = Ok (?s\<lparr>lh_block := bs\<rparr>) \<and> length bs = LOGSIZE \<and>
    (\<forall>j < Suc i + k. bs ! j = (if Suc i \<le> j then hd_block j d else lh_block ?s ! j))"
    by (rule Suc.IH) (use Suc.prems in auto)
  then obtain bs where "read_head_loop k (Suc i) d ?s = Ok (?s\<lparr>lh_block := bs\<rparr>)" "length bs = LOGSIZE"
    "\<forall>j < Suc i + k. bs ! j = (if Suc i \<le> j then hd_block j d else lh_block ?s ! j)"
    by blast
  then show ?case
    using Suc.prems
    by (intro exI [of _ bs]) (auto simp: set_lh_block_def nth_list_update not_less_eq_eq le_less)
qed

lemma read_head_spec:
  assumes inv: "bio_inv s" "locked s = {}" and dev: "log_dev s = 1"
    and st: "log_start s < disksize s" and card: "card (dirty s) < NBUF"
    and n: "hd_n (view s (log_start s)) \<le> int LOGSIZE" and len: "length (lh_block s) = LOGSIZE"
  obtains s' where "read_head s = Ok s'" "bio_inv s'" "lh_n s' = hd_n (view s (log_start s))"
    "log_blocks s' = hd_blocks (view s (log_start s))" "length (lh_block s') = LOGSIZE"
    "view s' = view s" "memdisk s' = memdisk s" "dhist s' = dhist s" "dirty s' = dirty s" "locked s' = {}"
    "\<exists>bs n. same_frame (s\<lparr>lh_n := n, lh_block := bs\<rparr>) s'"
proof -
  let ?d = "view s (log_start s)"
  obtain i s1 where e: "bread 1 (log_start s) s = Ok (i, s1)"
    using bio.read_progress [OF inv(1) st] inv card by auto
  note rl = bio.read_law [OF inv(1) e]
  have data: "bdata i s1 = ?d" using bio.held_get [of s1 i "log_start s"] rl by simp
  note fr = same_frame_log [of s s1]
  have len1: "length (lh_block s1) = LOGSIZE" using fr rl len by simp
  let ?t = "s1\<lparr>lh_n := hd_n ?d\<rparr>"
  have "0 + nat (hd_n ?d) \<le> length (lh_block ?t)" "length (lh_block ?t) = LOGSIZE" using n len1 by simp_all
  from read_head_loop_spec [OF this, of ?d]
  obtain bs where bs: "read_head_loop (nat (hd_n ?d)) 0 ?d ?t = Ok (?t\<lparr>lh_block := bs\<rparr>)" "length bs = LOGSIZE"
    "\<And>j. j < nat (hd_n ?d) \<Longrightarrow> bs ! j = hd_block j ?d"
    by (metis add_0 le0)
  let ?u = "?t\<lparr>lh_block := bs\<rparr>"
  have "bio_inv ?u" "holds ?u i (log_start s)" "log_start s \<in> dirty ?u \<or> view ?u (log_start s) = memdisk ?u (log_start s)"
    using rl bio.clean_law [OF inv(1), of "log_start s"] inv(2) by auto
  from bio.release_law [OF this]
  obtain s' where s': "brelse i ?u = Ok s'" "bio_inv s'" "view s' = view ?u" "memdisk s' = memdisk ?u"
    "dhist s' = dhist ?u" "dirty s' = dirty ?u" "locked s' = locked ?u - {log_start s}" "same_frame ?u s'"
    by blast
  note fr' = same_frame_log [OF s'(8)]
  have "read_head s = Ok s'" unfolding read_head_def using e data bs dev s'(1) by (simp add: Let_def)
  moreover have "log_blocks s' = hd_blocks ?d"
    unfolding log_blocks_def hd_blocks_def fr' using bs n by (intro nth_equalityI) auto
  moreover have "same_frame (s\<lparr>lh_n := hd_n ?d, lh_block := bs\<rparr>) s'"
    using rl s'(8) by (cases s; cases s1; cases s') (simp add: same_frame_def)
  ultimately show ?thesis
    using s' bs(2) inv(2) rl fr' by (intro that [of s']) auto
qed

section \<open>Recovery\<close>

text \<open>
  \<open>log_wf\<close>: the log lies inside the disk and has at most as many blocks as the cache has
  buffers.  \<open>log_inv\<close>: outside \<open>commit\<close> the blocks recorded in the in-memory header are
  exactly the dirty ones, are distinct and lie outside the log, and the header on the
  disk is empty.
\<close>

definition log_wf :: "'a log_state_scheme \<Rightarrow> bool" where
  "log_wf s \<longleftrightarrow> log_dev s = 1 \<and> length (lh_block s) = LOGSIZE \<and>
     log_geom (log_start s) (nat (log_size s)) (disksize s)"

definition log_inv :: "'a log_state_scheme \<Rightarrow> bool" where
  "log_inv s \<longleftrightarrow> bio_inv s \<and> log_wf s \<and> 0 \<le> lh_n s \<and>
     home_ok (log_start s) (nat (log_size s)) (disksize s) (log_blocks s) \<and>
     distinct (log_blocks s) \<and> dirty s = set (log_blocks s) \<and> hd_n (memdisk s (log_start s)) = 0"

definition recovered :: "u32 \<Rightarrow> (u32 \<Rightarrow> block) \<Rightarrow> u32 \<Rightarrow> block" where
  "recovered st d =
     apply_writes (map (\<lambda>i. (hd_block i (d st), d (log_blk st i))) [0..<nat (hd_n (d st))]) d"

lemma log_wf_frame: "same_frame s s' \<Longrightarrow> log_wf s' = log_wf s"
  by (simp add: log_wf_def same_frame_log)

lemma lh_n_bound:
  assumes "log_wf s" "home_ok (log_start s) (nat (log_size s)) (disksize s) (log_blocks s)"
  shows "nat (lh_n s) < nat (log_size s)" "nat (lh_n s) < LOGSIZE" "length (log_blocks s) = nat (lh_n s)"
    "take (length (log_blocks s)) (lh_block s) = log_blocks s"
proof -
  have "min (length (lh_block s)) (nat (lh_n s)) < nat (log_size s)" "nat (log_size s) \<le> LOGSIZE" "length (lh_block s) = LOGSIZE"
    using assms by (auto simp: log_wf_def home_ok_def log_geom_def log_blocks_def)
  then show "nat (lh_n s) < nat (log_size s)" "nat (lh_n s) < LOGSIZE" "length (log_blocks s) = nat (lh_n s)"
    "take (length (log_blocks s)) (lh_block s) = log_blocks s"
    by (auto simp: log_blocks_def)
qed

lemma clean_view:
  assumes "bio_inv s" "locked s = {}" "dirty s = {}"
  shows "view s = memdisk s"
  using unlocked_clean [OF assms(1)] assms by auto

lemma recover_from_log_spec:
  assumes inv: "bio_inv s" "locked s = {}" "dirty s = {}" and wf: "log_wf s"
    and h: "0 \<le> hd_n (memdisk s (log_start s))"
      "home_ok (log_start s) (nat (log_size s)) (disksize s) (hd_blocks (memdisk s (log_start s)))"
  obtains s' where "recover_from_log s = Ok s'" "log_inv s'" "lh_n s' = 0" "locked s' = {}"
    "\<And>b. b \<noteq> log_start s \<Longrightarrow> memdisk s' b = recovered (log_start s) (memdisk s) b"
    "log_start s' = log_start s" "log_size s' = log_size s" "log_outstanding s' = log_outstanding s"
    "log_committing s' = log_committing s" "disksize s' = disksize s" "cur_pid s' = cur_pid s"
    "log_state.more s' = log_state.more s"
proof -
  let ?st = "log_start s" and ?d = "memdisk s (log_start s)"
  have view: "view s = memdisk s" using inv by (rule clean_view)
  have wf': "log_dev s = 1" "length (lh_block s) = LOGSIZE" "log_geom ?st (nat (log_size s)) (disksize s)"
    using wf by (auto simp: log_wf_def)
  note st = log_start_facts [OF wf'(3)]
  have len: "length (hd_blocks ?d) = nat (hd_n ?d)" by (simp add: hd_blocks_def)
  have n: "hd_n ?d \<le> int LOGSIZE" using h len wf'(3) by (auto simp: home_ok_def log_geom_def)
  obtain s1 where s1: "read_head s = Ok s1" "bio_inv s1" "lh_n s1 = hd_n ?d" "log_blocks s1 = hd_blocks ?d"
    "length (lh_block s1) = LOGSIZE" "view s1 = memdisk s" "memdisk s1 = memdisk s" "dhist s1 = dhist s"
    "dirty s1 = {}" "locked s1 = {}" "\<exists>bs n. same_frame (s\<lparr>lh_n := n, lh_block := bs\<rparr>) s1"
    using read_head_spec [OF inv(1,2) wf'(1) st(2)] inv(3) n wf'(2) view by (auto simp: NBUF_def)
  obtain bs m where fr: "same_frame (s\<lparr>lh_n := m, lh_block := bs\<rparr>) s1" using s1(11) by blast
  note fr1 = same_frame_log [OF fr, simplified]
  have take: "take (length (hd_blocks ?d)) (lh_block s1) = hd_blocks ?d"
    using s1(3,4) len by (simp add: log_blocks_def)
  have "\<exists>s'. install_trans_loop (nat (hd_n ?d)) 0 s1 = Ok s' \<and> bio_inv s' \<and> locked s' = {} \<and> same_frame s1 s' \<and>
    view s' = apply_writes (map (\<lambda>i. (hd_blocks ?d ! i, view s1 (log_blk ?st i))) [0..<length (hd_blocks ?d)]) (view s1) \<and>
    memdisk s' = apply_writes (map (\<lambda>i. (hd_blocks ?d ! i, view s1 (log_blk ?st i))) [0..<length (hd_blocks ?d)]) (memdisk s1) \<and>
    dhist s' = dhist s1 @ map (\<lambda>i. (hd_blocks ?d ! i, view s1 (log_blk ?st i))) [0..<length (hd_blocks ?d)] \<and>
    dirty s' = dirty s1 - set (drop 0 (hd_blocks ?d))"
    by (rule install_trans_loop_spec [where n = "nat (log_size s)"])
      (use s1 fr1 wf' h take len in \<open>auto simp: NBUF_def\<close>)
  then obtain s2 where s2: "install_trans s1 = Ok s2" "bio_inv s2" "locked s2 = {}" "same_frame s1 s2"
    "memdisk s2 = apply_writes (map (\<lambda>i. (hd_blocks ?d ! i, memdisk s (log_blk ?st i))) [0..<length (hd_blocks ?d)]) (memdisk s)"
    "dirty s2 = {}"
    using s1 by (auto simp: install_trans_def)
  note fr2 = same_frame_log [OF s2(4)]
  have ws: "map (\<lambda>i. (hd_blocks ?d ! i, memdisk s (log_blk ?st i))) [0..<length (hd_blocks ?d)] =
      map (\<lambda>i. (hd_block i ?d, memdisk s (log_blk ?st i))) [0..<nat (hd_n ?d)]"
    by (intro map_cong) (auto simp: hd_blocks_def)
  let ?s2 = "s2\<lparr>lh_n := 0\<rparr>"
  obtain s3 d where s3: "write_head ?s2 = Ok s3" "hd_n d = 0" "bio_inv s3" "view s3 = (view s2)(?st := d)"
    "memdisk s3 = (memdisk s2)(?st := d)" "dirty s3 = dirty s2 - {?st}" "locked s3 = {}" "same_frame ?s2 s3"
    by (rule write_head_spec [of ?s2]) (use s2 fr2 fr1 wf' st in \<open>auto simp: NBUF_def\<close>)
  note fr3 = same_frame_log [OF s3(8)]
  have "log_inv s3"
    unfolding log_inv_def log_wf_def home_ok_def using s3 s2 fr1 fr2 fr3 wf' s1(5)
    by (auto simp: log_blocks_def log_geom_def)
  moreover have "recover_from_log s = Ok s3"
    unfolding recover_from_log_def using s1(1) s2(1) s3(1) by simp
  moreover have "memdisk s3 b = recovered ?st (memdisk s) b" if "b \<noteq> ?st" for b
    using that s3(5) s2(5) ws by (simp add: recovered_def)
  ultimately show ?thesis
    by (intro that [of s3]) (use s3 fr3 fr2 fr1 in auto)
qed

section \<open>Commit\<close>

text \<open>The writes that a commit issues: log blocks, header, home blocks, empty header.\<close>

definition commit_writes :: "u32 \<Rightarrow> u32 list \<Rightarrow> (u32 \<Rightarrow> block) \<Rightarrow> block \<Rightarrow> block \<Rightarrow> (u32 \<times> block) list" where
  "commit_writes st bs v h h' =
     map (\<lambda>i. (log_blk st i, v (bs ! i))) [0..<length bs] @ [(st, h)] @
     map (\<lambda>i. (bs ! i, v (bs ! i))) [0..<length bs] @ [(st, h')]"

lemma log_writes_at:
  assumes g: "log_geom st n sz" and bs: "length bs < n"
  shows "i < length bs \<Longrightarrow> apply_writes (map (\<lambda>i. (log_blk st i, v (bs ! i))) [0..<length bs]) d (log_blk st i) = v (bs ! i)"
    "k \<le> length bs \<Longrightarrow> \<not> in_log st n b \<Longrightarrow> apply_writes (map (\<lambda>i. (log_blk st i, v (bs ! i))) [0..<k]) d b = d b"
proof -
  show "apply_writes (map (\<lambda>i. (log_blk st i, v (bs ! i))) [0..<length bs]) d (log_blk st i) = v (bs ! i)"
    if i: "i < length bs"
  proof (rule apply_writes_map)
    fix y assume "(log_blk st i, y) \<in> set (map (\<lambda>i. (log_blk st i, v (bs ! i))) [0..<length bs])"
    then obtain j where "j < length bs" "log_blk st i = log_blk st j" "y = v (bs ! j)" by auto
    with log_blk_facts(4) [OF g, of i j] i bs show "y = v (bs ! i)" by auto
  qed (use i in auto)
  show "apply_writes (map (\<lambda>i. (log_blk st i, v (bs ! i))) [0..<k]) d b = d b" if "k \<le> length bs" "\<not> in_log st n b"
  proof (rule apply_writes_other)
    show "b \<notin> fst ` set (map (\<lambda>i. (log_blk st i, v (bs ! i))) [0..<k])"
      using that bs log_blk_facts(1) [OF g] by auto
  qed
qed

lemma home_writes_at:
  assumes "distinct bs"
  shows "apply_writes (map (\<lambda>i. (bs ! i, v (bs ! i))) [0..<length bs]) d b = (if b \<in> set bs then v b else d b)"
proof (cases "b \<in> set bs")
  case True
  then obtain i where i: "i < length bs" "b = bs ! i" by (auto simp: in_set_conv_nth)
  have "apply_writes (map (\<lambda>i. (bs ! i, v (bs ! i))) [0..<length bs]) d b = v b"
    by (rule apply_writes_map) (use i in auto)
  with True show ?thesis by simp
next
  case False
  then show ?thesis by (simp, intro apply_writes_other) auto
qed

lemma commit_spec:
  assumes inv: "log_inv s" "locked s = {}" and n: "0 < lh_n s"
  obtains s' h h' where "commit s = Ok s'" "log_inv s'" "lh_n s' = 0" "locked s' = {}"
    "hd_n h = lh_n s" "hd_blocks h = log_blocks s" "hd_n h' = 0" "length h = BSIZE" "length h' = BSIZE"
    "dhist s' = dhist s @ commit_writes (log_start s) (log_blocks s) (view s) h h'"
    "memdisk s' = apply_writes (commit_writes (log_start s) (log_blocks s) (view s) h h') (memdisk s)"
    "same_frame (s\<lparr>lh_n := 0\<rparr>) s'"
proof -
  let ?st = "log_start s" and ?bs = "log_blocks s" and ?n = "nat (log_size s)"
  have i: "bio_inv s" "log_wf s" "0 \<le> lh_n s" "home_ok ?st ?n (disksize s) ?bs" "distinct ?bs"
    "dirty s = set ?bs" "hd_n (memdisk s ?st) = 0"
    using inv by (auto simp: log_inv_def)
  have wf: "log_dev s = 1" "length (lh_block s) = LOGSIZE" "log_geom ?st ?n (disksize s)"
    using i(2) by (auto simp: log_wf_def)
  note b = lh_n_bound [OF i(2,4)] and st = log_start_facts [OF wf(3)]
  have card: "card (dirty s) < NBUF"
    using i(5,6) b by (simp add: distinct_card NBUF_def LOGSIZE_def)
  have sep: "\<not> in_log ?st ?n c" if "c \<in> dirty s" for c using that i(4,6) by (auto simp: home_ok_def)
  have lt: "Suc j < ?n" if "j < length ?bs" for j using that b(1,3) by linarith
  define W where "W = map (\<lambda>i. (log_blk ?st i, view s (?bs ! i))) [0..<length ?bs]"
  have "\<exists>s'. write_log_loop (length ?bs) 0 s = Ok s' \<and> bio_inv s' \<and> locked s' = {} \<and> same_frame s s' \<and>
    view s' = apply_writes W (view s) \<and> memdisk s' = apply_writes W (memdisk s) \<and>
    dhist s' = dhist s @ W \<and> dirty s' = dirty s"
    unfolding W_def by (rule write_log_loop_spec [where n = ?n]) (use i wf b inv(2) card sep in auto)
  then obtain s1 where s1: "write_log s = Ok s1" "bio_inv s1" "locked s1 = {}" "same_frame s s1"
    "view s1 = apply_writes W (view s)" "memdisk s1 = apply_writes W (memdisk s)"
    "dhist s1 = dhist s @ W" "dirty s1 = dirty s"
    by (auto simp: write_log_def b)
  note f1 = same_frame_log [OF s1(4)]
  obtain s2 h where s2: "write_head s1 = Ok s2" "length h = BSIZE" "hd_n h = lh_n s" "hd_blocks h = ?bs" "bio_inv s2"
    "view s2 = (view s1)(?st := h)" "memdisk s2 = (memdisk s1)(?st := h)" "dhist s2 = dhist s1 @ [(?st, h)]"
    "dirty s2 = dirty s1 - {?st}" "locked s2 = {}" "same_frame s1 s2"
    by (rule write_head_spec [of s1]) (use s1 f1 wf st b card i in \<open>auto simp: log_blocks_def\<close>)
  note f2 = same_frame_log [OF s2(11)]
  have d2: "dirty s2 = set ?bs" using s2(9) s1(8) i(6) sep st by auto
  have v2: "view s2 (log_blk ?st j) = view s (?bs ! j)" if "j < length ?bs" for j
    using log_writes_at(1) [OF wf(3) _ that, of "view s" "view s"] b lt [OF that]
      log_blk_facts(3) [OF wf(3) lt [OF that]]
    by (simp add: s2(6) s1(5) W_def)
  define H where "H = map (\<lambda>i. (?bs ! i, view s (?bs ! i))) [0..<length ?bs]"
  have H: "map (\<lambda>i. (?bs ! i, view s2 (log_blk ?st i))) [0..<length ?bs] = H"
    unfolding H_def by (intro map_cong) (auto simp: v2)
  have "\<exists>s'. install_trans_loop (length ?bs) 0 s2 = Ok s' \<and> bio_inv s' \<and> locked s' = {} \<and> same_frame s2 s' \<and>
    view s' = apply_writes H (view s2) \<and> memdisk s' = apply_writes H (memdisk s2) \<and>
    dhist s' = dhist s2 @ H \<and> dirty s' = dirty s2 - set (drop 0 ?bs)"
    unfolding H [symmetric]
    by (rule install_trans_loop_spec [where n = ?n]) (use i wf b s2 f2 f1 d2 card in auto)
  then obtain s3 where s3: "install_trans s2 = Ok s3" "bio_inv s3" "locked s3 = {}" "same_frame s2 s3"
    "memdisk s3 = apply_writes H (memdisk s2)" "dhist s3 = dhist s2 @ H" "dirty s3 = {}"
    using d2 by (auto simp: install_trans_def f1 f2 b)
  note f3 = same_frame_log [OF s3(4)]
  let ?s3 = "s3\<lparr>lh_n := 0\<rparr>"
  obtain s4 h' where s4: "write_head ?s3 = Ok s4" "length h' = BSIZE" "hd_n h' = 0" "bio_inv s4"
    "memdisk s4 = (memdisk s3)(?st := h')" "dhist s4 = dhist s3 @ [(?st, h')]"
    "dirty s4 = dirty s3 - {?st}" "locked s4 = {}" "same_frame ?s3 s4"
    by (rule write_head_spec [of ?s3]) (use s3 f3 f2 f1 wf st in \<open>auto simp: NBUF_def\<close>)
  note f4 = same_frame_log [OF s4(9)]
  have "commit s = Ok s4"
    unfolding commit_def using n s1(1) s2(1) s3(1) s4(1) by simp
  moreover have "log_inv s4"
    unfolding log_inv_def log_wf_def home_ok_def using s4 s3(7) f1 f2 f3 f4 wf
    by (auto simp: log_blocks_def log_geom_def)
  moreover have "dhist s4 = dhist s @ commit_writes ?st ?bs (view s) h h'"
    "memdisk s4 = apply_writes (commit_writes ?st ?bs (view s) h h') (memdisk s)"
    by (simp_all add: commit_writes_def s4 s3 s2 s1 W_def H_def)
  moreover have "same_frame (s\<lparr>lh_n := 0\<rparr>) s4"
    using s1(4) s2(11) s3(4) s4(9)
    by (cases s; cases s1; cases s2; cases s3; cases s4) (simp add: same_frame_def)
  ultimately show ?thesis using s2 s4 f4 by (intro that [of s4 h h']) auto
qed

section \<open>Crashes\<close>

text \<open>
  What is left after a crash: the disk, and zero-filled kernel memory.  Recovery runs
  from there after \<open>binit\<close>.
\<close>

definition crash :: "(u32 \<Rightarrow> block) \<Rightarrow> 'a log_state_scheme \<Rightarrow> 'a log_state_scheme" where
  "crash d s = s\<lparr>memdisk := d, dhist := [], bufs := replicate (Suc NBUF) bss_buf, log_start := 0, log_size := 0,
     log_outstanding := 0, log_committing := False, log_dev := 0, lh_n := 0, lh_block := replicate LOGSIZE 0\<rparr>"

lemma readsb_spec:
  assumes inv: "bio_inv s" and can: "bio.can_read 1 s"
  obtains s' where "readsb 1 s = Ok (sb_decode (view s 1), s')" "bio_inv s'" "bio.same s s'"
proof -
  obtain i s1 s2 where "bread 1 1 s = Ok (i, s1)" "bdata i s1 = view s 1" "brelse i s1 = Ok s2"
    "bio_inv s2" "bio.same s s2"
    using bio.read_release [OF inv can] by blast
  then show ?thesis by (intro that [of s2]) (simp_all add: readsb_def)
qed

lemma initlog_spec:
  assumes d: "\<And>b. length (d b) = BSIZE"
    and sb: "sb_logstart (sb_decode (d 1)) = st" "sint (sb_nlog (sb_decode (d 1))) = int n" "1 < disksize s"
    and geom: "log_geom st n (disksize s)"
    and h: "0 \<le> hd_n (d st)" "home_ok st n (disksize s) (hd_blocks (d st))"
  obtains s' where "initlog 1 (binit (crash d s)) = Ok s'" "log_inv s'" "log_start s' = st" "log_size s' = int n"
    "lh_n s' = 0" "log_outstanding s' = 0" "\<not> log_committing s'" "locked s' = {}" "disksize s' = disksize s"
    "\<And>b. b \<noteq> st \<Longrightarrow> memdisk s' b = recovered st d b"
proof -
  let ?c = "crash d s" and ?t = "binit (crash d s)"
  have c: "bufs ?c = replicate (Suc NBUF) bss_buf" "memdisk ?c = d" by (simp_all add: crash_def)
  have len: "\<And>b. length (memdisk ?c b) = BSIZE" using d c by simp
  note t = binit_spec [OF c(1) len]
  have can: "bio.can_read 1 ?t"
    unfolding bio.can_read_def using sb(3) t(3-5) by (simp add: NBUF_def same_disk_def crash_def)
  obtain s1 where s1: "readsb 1 ?t = Ok (sb_decode (view ?t 1), s1)" "bio_inv s1" "bio.same ?t s1"
    by (rule readsb_spec [OF t(1) can])
  have v: "view ?t 1 = d 1" using t(2) c by simp
  have f1: "memdisk s1 = d" "dirty s1 = {}" "locked s1 = {}" "same_frame ?t s1"
    using s1(3) t c unfolding bio.same_def by (auto simp: same_disk_def)
  note g1 = same_frame_log [OF f1(4)]
  have gt: "disksize ?t = disksize s" "log_outstanding ?t = 0" "\<not> log_committing ?t" "lh_block ?t = replicate LOGSIZE 0"
    by (simp_all add: binit_def crash_def)
  let ?s1 = "s1\<lparr>log_start := st, log_size := int n, log_dev := 1\<rparr>"
  obtain s' where "recover_from_log ?s1 = Ok s'" "log_inv s'" "lh_n s' = 0" "locked s' = {}"
    "\<And>b. b \<noteq> st \<Longrightarrow> memdisk s' b = recovered st d b"
    "log_start s' = st" "log_size s' = int n" "log_outstanding s' = 0" "\<not> log_committing s'" "disksize s' = disksize s"
    by (rule recover_from_log_spec [of ?s1]) (use s1 f1 g1 gt geom h in \<open>auto simp: log_wf_def\<close>)
  moreover from this(1) have "initlog 1 ?t = Ok s'"
    using s1(1) v sb by (simp add: initlog_def LOGSIZE_def BSIZE_def)
  ultimately show ?thesis by (intro that [of s']) auto
qed

text \<open>Recovery after any prefix of the writes of a commit.\<close>

definition committed :: "u32 \<Rightarrow> nat \<Rightarrow> u32 \<Rightarrow> u32 list \<Rightarrow> (u32 \<Rightarrow> block) \<Rightarrow> block \<Rightarrow> block \<Rightarrow> bool" where
  "committed st n sz bs d0 h h' \<longleftrightarrow> log_geom st n sz \<and> home_ok st n sz bs \<and> distinct bs \<and>
     hd_n (d0 st) = 0 \<and> hd_n h' = 0 \<and> hd_n h = int (length bs) \<and> hd_blocks h = bs"

lemma committedD:
  assumes "committed st n sz bs d0 h h'"
  shows "log_geom st n sz" "home_ok st n sz bs" "distinct bs" "hd_n (d0 st) = 0" "hd_n h' = 0"
    "hd_n h = int (length bs)" "hd_blocks h = bs" "length bs < n" "in_log st n st"
    "i < length bs \<Longrightarrow> Suc i < n" "b \<in> set bs \<Longrightarrow> \<not> in_log st n b"
  using assms log_start_facts(1) by (auto simp: committed_def home_ok_def)

definition after :: "u32 \<Rightarrow> u32 list \<Rightarrow> (u32 \<Rightarrow> block) \<Rightarrow> (u32 \<Rightarrow> block) \<Rightarrow> block \<Rightarrow> block \<Rightarrow> nat \<Rightarrow> u32 \<Rightarrow> block" where
  "after st bs v d0 h h' k = apply_writes (take k (commit_writes st bs v h h')) d0"

lemma log_part_start:
  assumes c: "committed st n sz bs d0 h h'" and k: "k \<le> length bs"
  shows "apply_writes (map (\<lambda>i. (log_blk st i, v (bs ! i))) [0..<k]) d0 st = d0 st"
proof (rule apply_writes_other)
  have "log_blk st i \<noteq> st" if "i < k" for i
    using log_blk_facts(3) [OF committedD(1,10) [OF c]] that k by simp
  then show "st \<notin> fst ` set (map (\<lambda>i. (log_blk st i, v (bs ! i))) [0..<k])" by force
qed

lemma before_header:
  assumes c: "committed st n sz bs d0 h h'" and k: "k \<le> length bs"
  shows "hd_n (after st bs v d0 h h' k st) = 0" "\<not> in_log st n b \<Longrightarrow> after st bs v d0 h h' k b = d0 b"
proof -
  have "take k (commit_writes st bs v h h') = map (\<lambda>i. (log_blk st i, v (bs ! i))) [0..<k]"
    using k by (simp add: commit_writes_def take_map)
  then have d: "after st bs v d0 h h' k = apply_writes (map (\<lambda>i. (log_blk st i, v (bs ! i))) [0..<k]) d0"
    by (simp add: after_def)
  show "hd_n (after st bs v d0 h h' k st) = 0" using log_part_start [OF c k] committedD(4) [OF c] by (simp add: d)
  show "after st bs v d0 h h' k b = d0 b" if "\<not> in_log st n b"
    using log_writes_at(2) [OF committedD(1,8) [OF c] k that] by (simp add: d)
qed

text \<open>The disk once the header has been written, with some of the home blocks installed.\<close>

definition installed :: "u32 \<Rightarrow> u32 list \<Rightarrow> (u32 \<Rightarrow> block) \<Rightarrow> (u32 \<Rightarrow> block) \<Rightarrow> block \<Rightarrow> nat \<Rightarrow> u32 \<Rightarrow> block" where
  "installed st bs v d0 h m = apply_writes (map (\<lambda>i. (bs ! i, v (bs ! i))) [0..<m])
     ((apply_writes (map (\<lambda>i. (log_blk st i, v (bs ! i))) [0..<length bs]) d0)(st := h))"

lemma installed_log:
  assumes c: "committed st n sz bs d0 h h'" and m: "m \<le> length bs" and b: "in_log st n b"
  shows "installed st bs v d0 h m b = ((apply_writes (map (\<lambda>i. (log_blk st i, v (bs ! i))) [0..<length bs]) d0)(st := h)) b"
  unfolding installed_def by (rule apply_writes_other) (use m b committedD(11) [OF c] in force)

lemma installed_start:
  assumes c: "committed st n sz bs d0 h h'" and m: "m \<le> length bs"
  shows "installed st bs v d0 h m st = h"
  using installed_log [OF c m committedD(9) [OF c]] by simp

lemma installed_log_blk:
  assumes c: "committed st n sz bs d0 h h'" and m: "m \<le> length bs" and i: "i < length bs"
  shows "installed st bs v d0 h m (log_blk st i) = v (bs ! i)"
proof -
  note lb = log_blk_facts [OF committedD(1) [OF c] committedD(10) [OF c i]]
  show ?thesis
    using installed_log [OF c m lb(1), of v] lb(3) log_writes_at(1) [OF committedD(1,8) [OF c] i, of v d0] by simp
qed

lemma recovered_installed:
  assumes c: "committed st n sz bs d0 h h'" and m: "m \<le> length bs" and b: "\<not> in_log st n b"
  shows "recovered st (installed st bs v d0 h m) b = (if b \<in> set bs then v b else d0 b)"
proof -
  have bs_nth: "hd_block i h = bs ! i" if "i < length bs" for i
  proof -
    have "hd_blocks h ! i = hd_block i h" unfolding hd_blocks_def using that committedD(6) [OF c] by simp
    then show ?thesis by (simp only: committedD(7) [OF c])
  qed
  have "recovered st (installed st bs v d0 h m) =
      apply_writes (map (\<lambda>i. (bs ! i, v (bs ! i))) [0..<length bs]) (installed st bs v d0 h m)"
    unfolding recovered_def installed_start [OF c m] using committedD(6) [OF c]
    by (intro arg_cong2 [where f = apply_writes] map_cong) (auto simp: bs_nth installed_log_blk [OF c m])
  moreover have "installed st bs v d0 h m b = d0 b" if "b \<notin> set bs"
  proof -
    have "installed st bs v d0 h m b = ((apply_writes (map (\<lambda>i. (log_blk st i, v (bs ! i))) [0..<length bs]) d0)(st := h)) b"
      unfolding installed_def by (rule apply_writes_other) (use that m in force)
    also have "\<dots> = d0 b"
      using log_writes_at(2) [OF committedD(1,8) [OF c] order_refl b] b committedD(9) [OF c] by auto
    finally show ?thesis .
  qed
  ultimately show ?thesis using home_writes_at [OF committedD(3) [OF c]] by simp
qed

lemma after_header:
  assumes "length bs < k" "k \<le> 2 * length bs + 1"
  shows "after st bs v d0 h h' k = installed st bs v d0 h (k - length bs - 1)"
proof -
  have "take k (commit_writes st bs v h h') =
      map (\<lambda>i. (log_blk st i, v (bs ! i))) [0..<length bs] @ [(st, h)] @
      map (\<lambda>i. (bs ! i, v (bs ! i))) [0..<k - length bs - 1]"
    using assms by (simp add: commit_writes_def take_map take_Cons')
  then show ?thesis by (simp add: after_def installed_def)
qed

lemma after_all:
  assumes "2 * length bs + 1 < k"
  shows "after st bs v d0 h h' k = (installed st bs v d0 h (length bs))(st := h')"
proof -
  have "take k (commit_writes st bs v h h') = commit_writes st bs v h h'"
    using assms by (simp add: commit_writes_def)
  then show ?thesis by (simp add: after_def installed_def commit_writes_def)
qed

lemma after_header_ok:
  assumes c: "committed st n sz bs d0 h h'"
  shows "0 \<le> hd_n (after st bs v d0 h h' k st) \<and> home_ok st n sz (hd_blocks (after st bs v d0 h h' k st))"
proof -
  have nil: "home_ok st n sz (hd_blocks d)" if "hd_n d = 0" for d
    using that committedD(8) [OF c] by (simp add: hd_blocks_def home_ok_def)
  consider "k \<le> length bs" | "length bs < k" "k \<le> 2 * length bs + 1" | "2 * length bs + 1 < k" by linarith
  then show ?thesis
  proof cases
    case 1
    then show ?thesis using before_header(1) [OF c] nil by simp
  next
    case 2
    then have "after st bs v d0 h h' k st = h" using after_header installed_start [OF c, of "k - length bs - 1"] by simp
    then show ?thesis using committedD(2,6,7) [OF c] by simp
  next
    case 3
    then show ?thesis using after_all nil committedD(5) [OF c] by simp
  qed
qed

lemma recovered_after:
  assumes c: "committed st n sz bs d0 h h'" and b: "\<not> in_log st n b"
  shows "recovered st (after st bs v d0 h h' k) b = (if k \<le> length bs then d0 b else if b \<in> set bs then v b else d0 b)"
proof -
  consider "k \<le> length bs" | "length bs < k" "k \<le> 2 * length bs + 1" | "2 * length bs + 1 < k" by linarith
  then show ?thesis
  proof cases
    case 1
    then have "recovered st (after st bs v d0 h h' k) = after st bs v d0 h h' k" using before_header(1) [OF c] by (simp add: recovered_def)
    with 1 before_header(2) [OF c] b show ?thesis by simp
  next
    case 2
    then show ?thesis using after_header recovered_installed [OF c _ b, of "k - length bs - 1"] by simp
  next
    case 3
    have "recovered st (after st bs v d0 h h' k) b = after st bs v d0 h h' k b"
      using after_all [OF 3] committedD(5) [OF c] by (simp add: recovered_def)
    also have "\<dots> = installed st bs v d0 h (length bs) b" using after_all [OF 3] committedD(9) [OF c] b by auto
    also have "\<dots> = (if b \<in> set bs then v b else d0 b)"
    proof -
      have "installed st bs v d0 h (length bs) b = apply_writes (map (\<lambda>i. (bs ! i, v (bs ! i))) [0..<length bs])
          ((apply_writes (map (\<lambda>i. (log_blk st i, v (bs ! i))) [0..<length bs]) d0)(st := h)) b"
        by (simp add: installed_def)
      also have "\<dots> = (if b \<in> set bs then v b else d0 b)"
        using log_writes_at(2) [OF committedD(1,8) [OF c] order_refl b] b committedD(9) [OF c]
        by (auto simp: home_writes_at [OF committedD(3) [OF c]])
      finally show ?thesis .
    qed
    finally show ?thesis using 3 by simp
  qed
qed

lemma commit_crash:
  assumes inv: "log_inv s" "locked s = {}" and n: "0 < lh_n s"
    and sb: "sb_logstart (sb_decode (memdisk s 1)) = log_start s" "sint (sb_nlog (sb_decode (memdisk s 1))) = log_size s"
      "1 < disksize s" "1 \<notin> set (log_blocks s)" "\<not> in_log (log_start s) (nat (log_size s)) 1"
  obtains s' ws where "commit s = Ok s'" "dhist s' = dhist s @ ws"
    "\<And>k. \<exists>t. initlog 1 (binit (crash (apply_writes (take k ws) (memdisk s)) s)) = Ok t \<and> log_inv t \<and>
       (\<forall>b. \<not> in_log (log_start s) (nat (log_size s)) b \<longrightarrow>
          memdisk t b = (if k \<le> nat (lh_n s) then memdisk s b else view s b))"
proof -
  let ?st = "log_start s" and ?bs = "log_blocks s" and ?n = "nat (log_size s)" and ?disk = "memdisk s"
  have i: "bio_inv s" "log_wf s" "0 \<le> lh_n s" "home_ok ?st ?n (disksize s) ?bs" "distinct ?bs"
    "dirty s = set ?bs" "hd_n (?disk ?st) = 0"
    using inv by (auto simp: log_inv_def)
  have geom: "log_geom ?st ?n (disksize s)" using i(2) by (auto simp: log_wf_def)
  note len = lh_n_bound(3) [OF i(2,4)] and st = log_start_facts [OF geom]
  obtain s' h h' where c: "commit s = Ok s'" "hd_n h = lh_n s" "hd_blocks h = ?bs" "hd_n h' = 0"
    "length h = BSIZE" "length h' = BSIZE" "dhist s' = dhist s @ commit_writes ?st ?bs (view s) h h'"
    using commit_spec [OF inv n] by metis
  let ?ws = "commit_writes ?st ?bs (view s) h h'"
  have com: "committed ?st ?n (disksize s) ?bs ?disk h h'"
    using geom i len c n by (simp add: committed_def)
  have "\<exists>t. initlog 1 (binit (crash (apply_writes (take k ?ws) ?disk) s)) = Ok t \<and> log_inv t \<and>
      (\<forall>b. \<not> in_log ?st ?n b \<longrightarrow> memdisk t b = (if k \<le> nat (lh_n s) then ?disk b else view s b))" for k
  proof -
    let ?d = "after ?st ?bs (view s) ?disk h h' k"
    have d: "?d = apply_writes (take k ?ws) ?disk" by (simp add: after_def)
    have blen: "length (?d b) = BSIZE" for b
      unfolding d using c(5,6) length_view [OF i(1)] bio_inv_disk [OF i(1)]
      by (intro length_apply_writes) (auto simp: commit_writes_def dest!: in_set_takeD)
    have rec: "recovered ?st ?d b = (if k \<le> nat (lh_n s) then ?disk b else view s b)" if "\<not> in_log ?st ?n b" for b
      using recovered_after [OF com that, of "view s" k] unlocked_clean [OF i(1), of b] inv(2) i(6) len by auto
    have "1 \<notin> fst ` set ?ws"
      using sb(4,5) st(1) log_blk_facts(1) [OF geom committedD(10) [OF com]] by (auto simp: commit_writes_def) (metis nth_mem)+
    then have one: "?d 1 = ?disk 1"
      unfolding after_def by (intro apply_writes_other) (auto dest!: in_set_takeD)
    note hok = after_header_ok [OF com, of "view s" k]
    obtain t where "initlog 1 (binit (crash ?d s)) = Ok t" "log_inv t"
      "\<And>b. b \<noteq> ?st \<Longrightarrow> memdisk t b = recovered ?st ?d b"
      by (rule initlog_spec [of ?d ?st ?n s])
        (use blen sb(1-3) one geom hok in \<open>auto simp: log_geom_def\<close>)
    with rec st(1) show ?thesis unfolding d by metis
  qed
  then show ?thesis by (rule that [OF c(1,7)])
qed

section \<open>Transactions\<close>

definition log_frame :: "'a log_state_scheme \<Rightarrow> 'a log_state_scheme \<Rightarrow> bool" where
  "log_frame s s' \<longleftrightarrow> disksize s' = disksize s \<and> cur_pid s' = cur_pid s \<and> log_start s' = log_start s \<and>
     log_size s' = log_size s \<and> log_outstanding s' = log_outstanding s \<and> log_committing s' = log_committing s \<and>
     log_dev s' = log_dev s \<and> log_state.more s' = log_state.more s \<and> memdisk s' = memdisk s \<and> dhist s' = dhist s"

lemma absorb_spec:
  assumes "i + k \<le> length bs"
  shows "\<exists>j. absorb k i b bs = Ok j \<and> i \<le> j \<and> j \<le> i + k \<and> (j < i + k \<longrightarrow> bs ! j = b) \<and>
    (j = i + k \<longrightarrow> (\<forall>l. i \<le> l \<longrightarrow> l < i + k \<longrightarrow> bs ! l \<noteq> b))"
  using assms
proof (induction k arbitrary: i)
  case (Suc k)
  show ?case
  proof (cases "bs ! i = b")
    case False
    have "\<exists>j. absorb k (Suc i) b bs = Ok j \<and> Suc i \<le> j \<and> j \<le> Suc i + k \<and> (j < Suc i + k \<longrightarrow> bs ! j = b) \<and>
      (j = Suc i + k \<longrightarrow> (\<forall>l. Suc i \<le> l \<longrightarrow> l < Suc i + k \<longrightarrow> bs ! l \<noteq> b))"
      by (rule Suc.IH) (use Suc.prems in simp)
    then obtain j where "absorb k (Suc i) b bs = Ok j" "Suc i \<le> j" "j \<le> Suc i + k" "j < Suc i + k \<longrightarrow> bs ! j = b"
      "j = Suc i + k \<longrightarrow> (\<forall>l. Suc i \<le> l \<longrightarrow> l < Suc i + k \<longrightarrow> bs ! l \<noteq> b)"
      by blast
    moreover from this(5) have "\<forall>l. i \<le> l \<longrightarrow> l < i + Suc k \<longrightarrow> bs ! l \<noteq> b" if "j = Suc i + k"
      using False that by (metis Suc_leI add_Suc add_Suc_right le_neq_implies_less)
    ultimately show ?thesis
      using False Suc.prems by (intro exI [of _ j]) auto
  qed (use Suc.prems in auto)
qed simp

lemma log_write_spec:
  assumes inv: "log_inv s" and h: "holds s i b" and b: "\<not> in_log (log_start s) (nat (log_size s)) b"
    and out: "1 \<le> log_outstanding s" and room: "lh_n s < log_size s - 1"
  obtains s' where "log_write i s = Ok s'" "log_inv s'" "\<And>j c. holds s' j c \<longleftrightarrow> holds s j c" "view s' = view s"
    "dirty s' = insert b (dirty s)" "locked s' = locked s" "log_frame s s'"
    "lh_n s' = (if b \<in> dirty s then lh_n s else lh_n s + 1)"
proof -
  let ?bs = "log_blocks s"
  have i: "bio_inv s" "log_wf s" "0 \<le> lh_n s" "home_ok (log_start s) (nat (log_size s)) (disksize s) ?bs"
    "distinct ?bs" "dirty s = set ?bs" "hd_n (memdisk s (log_start s)) = 0"
    using inv by (auto simp: log_inv_def)
  have wf: "log_dev s = 1" "length (lh_block s) = LOGSIZE" "log_geom (log_start s) (nat (log_size s)) (disksize s)"
    using i(2) by (auto simp: log_wf_def)
  note n = lh_n_bound [OF i(2,4)]
  have bn: "b_blockno (bufs s ! i) = b" "b < disksize s"
    using h bio_inv_bufok [OF i(1), of i] by (auto simp: holds_def bufok_def)
  obtain j where j: "absorb (nat (lh_n s)) 0 b (lh_block s) = Ok j" "j \<le> nat (lh_n s)"
    "j < nat (lh_n s) \<Longrightarrow> lh_block s ! j = b" "j = nat (lh_n s) \<Longrightarrow> b \<notin> set ?bs"
    using absorb_spec [of 0 "nat (lh_n s)" "lh_block s" b] n wf
    by (auto simp: log_blocks_def in_set_conv_nth)
  have mem: "b \<in> set ?bs \<longleftrightarrow> j < nat (lh_n s)"
  proof
    assume "b \<in> set ?bs"
    with j(2,4) show "j < nat (lh_n s)" by (metis le_neq_implies_less)
  next
    assume "j < nat (lh_n s)"
    with j(3) n(2) wf(2) show "b \<in> set ?bs" by (auto simp: log_blocks_def in_set_conv_nth)
  qed
  define t where "t = (if j = nat (lh_n s) then s\<lparr>lh_block := (lh_block s)[j := b], lh_n := lh_n s + 1\<rparr> else s)"
  have tb: "log_blocks t = (if b \<in> set ?bs then ?bs else ?bs @ [b])"
    using j n wf(2) i(3) mem by (auto simp: t_def log_blocks_def nat_add_distrib take_Suc_conv_app_nth)
  have up: "(lh_block s)[j := b] = lh_block s" if "j < nat (lh_n s)" using j(3) [OF that] by (metis list_update_id)
  let ?s' = "upd_buf i (\<lambda>b. b\<lparr>b_dirty := True\<rparr>) t"
  have bio: "bufs t = bufs s" "memdisk t = memdisk s" "disksize t = disksize s" by (auto simp: t_def)
  have eq: "log_write i s = Ok ?s'"
    using room out n j wf(2) i(3) up unfolding log_write_def
    by (auto simp: bn set_lh_block_def t_def Let_def)
  have ht: "bio_inv t" "holds t i b" using i(1) h by (simp_all add: bio_ext [OF bio])
  note sd = set_dirty_spec [OF ht] and e = bio_ext [OF bio]
  have fr: "log_frame s ?s'" using sd(6) by (auto simp: log_frame_def t_def upd_buf_def)
  have lb: "log_blocks ?s' = log_blocks t" "lh_n ?s' = lh_n t" "lh_block ?s' = lh_block t"
    by (simp_all add: log_blocks_def upd_buf_def)
  have "log_inv ?s'"
    unfolding log_inv_def
  proof (intro conjI)
    show "bio_inv ?s'" by (rule sd(1))
    show "log_wf ?s'" using i(2) fr lb by (auto simp: log_wf_def log_frame_def t_def)
    show "0 \<le> lh_n ?s'" using i(3) lb by (simp add: t_def)
    show "home_ok (log_start ?s') (nat (log_size ?s')) (disksize ?s') (log_blocks ?s')"
      using fr i(4) bn b n room i(3) by (auto simp: log_frame_def lb(1) tb home_ok_def)
    show "distinct (log_blocks ?s')" using i(5) by (simp add: lb(1) tb)
    show "dirty ?s' = set (log_blocks ?s')" using sd(4) i(6) by (auto simp: lb(1) tb e)
    show "hd_n (memdisk ?s' (log_start ?s')) = 0" using fr i(7) by (simp add: log_frame_def)
  qed
  moreover have "lh_n ?s' = (if b \<in> dirty s then lh_n s else lh_n s + 1)"
    using lb mem i(6) j(2) by (auto simp: t_def)
  ultimately show ?thesis
    by (intro that [OF eq]) (use sd fr in \<open>simp_all add: e\<close>)
qed

lemma log_inv_frame:
  assumes "log_inv s" "bio_inv s'" "same_frame s s'" "dirty s' = dirty s" "memdisk s' = memdisk s"
  shows "log_inv s'"
  using assms by (simp add: log_inv_def log_wf_def log_blocks_def same_frame_log)

lemma same_frame_log_frame:
  "same_frame s s' \<Longrightarrow> memdisk s' = memdisk s \<Longrightarrow> dhist s' = dhist s \<Longrightarrow> log_frame s s'"
  by (simp add: log_frame_def same_frame_log)

lemma log_frame_refl [simp]: "log_frame s s"
  by (simp add: log_frame_def)

lemma log_frame_trans [trans]: "log_frame s t \<Longrightarrow> log_frame t u \<Longrightarrow> log_frame s u"
  by (simp add: log_frame_def)

lemma card_dirty:
  assumes "log_inv s"
  shows "int (card (dirty s)) = lh_n s" "card (locked s \<union> dirty s) \<le> card (locked s) + nat (lh_n s)"
proof -
  have "card (dirty s) = nat (lh_n s)" "0 \<le> lh_n s"
    using assms lh_n_bound(3) [of s] by (auto simp: log_inv_def distinct_card)
  then show "int (card (dirty s)) = lh_n s" "card (locked s \<union> dirty s) \<le> card (locked s) + nat (lh_n s)"
    using card_Un_le [of "locked s" "dirty s"] by auto
qed

text \<open>
  The two idioms of the file system on the log: read a block, and read a block, change it,
  record it with \<open>log_write\<close> and release it.
\<close>

definition block_ok :: "u32 \<Rightarrow> 'a log_state_scheme \<Rightarrow> bool" where
  "block_ok b s \<longleftrightarrow> b < disksize s \<and> \<not> in_log (log_start s) (nat (log_size s)) b"

definition same_view :: "'a log_state_scheme \<Rightarrow> 'a log_state_scheme \<Rightarrow> bool" where
  "same_view s s' \<longleftrightarrow> view s' = view s \<and> dirty s' = dirty s \<and> locked s' = locked s \<and> lh_n s' = lh_n s \<and>
     log_frame s s' \<and> (\<forall>i b. holds s i b \<longrightarrow> holds s' i b)"

lemma log_read:
  assumes inv: "log_inv s" and b: "b < disksize s" "b \<notin> locked s" and room: "card (locked s) + nat (lh_n s) < NBUF"
  obtains i s1 s2 where "bread 1 b s = Ok (i, s1)" "bdata i s1 = view s b" "brelse i s1 = Ok s2"
    "log_inv s2" "same_view s s2" "same_frame s s1"
proof -
  have bi: "bio_inv s" using inv by (simp add: log_inv_def)
  have can: "bio.can_read b s"
    using b room card_dirty(2) [OF inv] by (simp add: bio.can_read_def)
  obtain i s1 s2 where e: "bread 1 b s = Ok (i, s1)" "bdata i s1 = view s b" "brelse i s1 = Ok s2"
    and q: "bio_inv s2" "bio.same s s2" "same_frame s s1"
    by (rule bio.read_release [OF bi can])
  have fr: "same_frame s s2" "memdisk s2 = memdisk s" "dhist s2 = dhist s" "dirty s2 = dirty s"
    using q(2) by (auto simp: bio.same_def)
  then have "log_inv s2" using log_inv_frame [OF inv q(1)] by simp
  moreover have "same_view s s2"
    using q(2) same_frame_log_frame [OF fr(1-3)] same_frame_log [OF fr(1)]
    by (auto simp: same_view_def bio.same_def)
  ultimately show ?thesis using e q(3) by (intro that) auto
qed

lemma log_update_held:
  assumes inv: "log_inv s" and h: "holds s i b" and b: "block_ok b s" and len: "length d = BSIZE"
    and out: "1 \<le> log_outstanding s" and room: "lh_n s < log_size s - 1"
  obtains s' where "log_write i (set_bdata i d s) = Ok s'" "log_inv s'" "view s' = (view s)(b := d)"
    "dirty s' = insert b (dirty s)" "locked s' = locked s" "\<And>j c. holds s' j c \<longleftrightarrow> holds s j c" "log_frame s s'"
    "lh_n s' = (if b \<in> dirty s then lh_n s else lh_n s + 1)"
proof -
  let ?t = "set_bdata i d s"
  have bi: "bio_inv s" using inv by (simp add: log_inv_def)
  note p = bio.put_law [OF bi h len]
  have fr: "same_frame s ?t" "memdisk ?t = memdisk s" "dhist ?t = dhist s" using p by simp_all
  note f = same_frame_log [OF fr(1)]
  have it: "log_inv ?t" using log_inv_frame [OF inv] p by simp
  have ht: "holds ?t i b" using p h by simp
  obtain s' where "log_write i ?t = Ok s'" "log_inv s'" "\<And>j c. holds s' j c \<longleftrightarrow> holds ?t j c" "view s' = view ?t"
    "dirty s' = insert b (dirty ?t)" "locked s' = locked ?t" "log_frame ?t s'"
    "lh_n s' = (if b \<in> dirty ?t then lh_n ?t else lh_n ?t + 1)"
    by (rule log_write_spec [OF it ht]) (use b out room f in \<open>auto simp: block_ok_def\<close>)
  then show ?thesis
    using p f log_frame_trans [OF same_frame_log_frame [OF fr]] by (intro that [of s']) auto
qed

lemma log_update:
  assumes inv: "log_inv s" and b: "block_ok b s" "b \<notin> locked s" and len: "length d = BSIZE"
    and out: "1 \<le> log_outstanding s" and room: "lh_n s < log_size s - 1" "card (locked s) + nat (lh_n s) < NBUF"
  obtains i s1 s2 s3 where "bread 1 b s = Ok (i, s1)" "bdata i s1 = view s b" "same_frame s s1"
    "log_write i (set_bdata i d s1) = Ok s2" "brelse i s2 = Ok s3" "log_inv s3" "view s3 = (view s)(b := d)"
    "dirty s3 = insert b (dirty s)" "locked s3 = locked s" "log_frame s s3"
    "lh_n s3 = (if b \<in> dirty s then lh_n s else lh_n s + 1)" "\<And>j c. holds s j c \<Longrightarrow> holds s3 j c"
proof -
  have bi: "bio_inv s" using inv by (simp add: log_inv_def)
  have can: "bio.can_read b s"
    using b room card_dirty(2) [OF inv] by (simp add: bio.can_read_def block_ok_def)
  then obtain i s1 where r: "bread 1 b s = Ok (i, s1)"
    using bio.read_progress [OF bi, of b] by (auto simp: bio.can_read_def)
  note rl = bio.read_law [OF bi r]
  have f1: "same_frame s s1" using rl by simp
  note f = same_frame_log [OF f1]
  have fr1: "log_frame s s1" using same_frame_log_frame [OF f1] rl by simp
  have i1: "log_inv s1" using log_inv_frame [OF inv] rl by simp
  have h1: "holds s1 i b" using rl by simp
  obtain s2 where s2: "log_write i (set_bdata i d s1) = Ok s2" "log_inv s2" "view s2 = (view s1)(b := d)"
    "dirty s2 = insert b (dirty s1)" "locked s2 = locked s1" "\<And>j c. holds s2 j c \<longleftrightarrow> holds s1 j c" "log_frame s1 s2"
    "lh_n s2 = (if b \<in> dirty s1 then lh_n s1 else lh_n s1 + 1)"
    by (rule log_update_held [OF i1 h1 _ len]) (use b out room f in \<open>auto simp: block_ok_def\<close>)
  have b2: "bio_inv s2" "holds s2 i b" "b \<in> dirty s2" using s2 h1 by (auto simp: log_inv_def)
  obtain s3 where s3: "brelse i s2 = Ok s3" "bio_inv s3" "\<forall>j c. holds s3 j c \<longleftrightarrow> holds s2 j c \<and> j \<noteq> i"
    "view s3 = view s2" "memdisk s3 = memdisk s2" "dhist s3 = dhist s2" "dirty s3 = dirty s2"
    "locked s3 = locked s2 - {b}" "same_frame s2 s3"
    using bio.release_law [OF b2(1,2)] b2(3) by blast
  have i3: "log_inv s3" using log_inv_frame [OF s2(2) s3(2,9)] s3 by simp
  have fr3: "log_frame s s3"
    using log_frame_trans [OF log_frame_trans [OF fr1 s2(7)] same_frame_log_frame [OF s3(9)]] s3 by simp
  have data: "bdata i s1 = view s b" using bio.held_get [of s1 i b] rl by simp
  have "locked s3 = locked s" using s3(8) s2(5) rl by auto
  moreover have "holds s3 j c" if "holds s j c" for j c using that rl s2(6) s3(3) by blast
  ultimately show ?thesis
    using that [OF r data f1 s2(1) s3(1) i3 _ _ _ fr3] s2 s3 rl same_frame_log [OF s3(9)] f by auto
qed

section \<open>Properties\<close>

text \<open>
  A disk with an empty log of 30 blocks from block 2, and a transaction on it that has
  written block 60.
\<close>

definition sample_sb :: block where
  "sample_sb = put32 24 58 (put32 20 32 (put32 16 2 (put32 12 30 (put32 8 200 (put32 4 941
     (put32 0 1000 (replicate BSIZE 0)))))))"

definition sample_disk :: "u32 \<Rightarrow> block" where
  "sample_disk b = (if b = 1 then sample_sb else replicate BSIZE 0)"

definition sample_state :: log_state where
  "sample_state = \<lparr>cur_pid = 1, memdisk = sample_disk, disksize = 1000, dhist = [], bufs = [], log_start = 0,
     log_size = 0, log_outstanding = 0, log_committing = False, log_dev = 0, lh_n = 0, lh_block = []\<rparr>"

lemma length_sample_sb: "length sample_sb = BSIZE"
  by (simp add: sample_sb_def BSIZE_def)

lemma sample_sb_decode:
  "sb_decode sample_sb = \<lparr>sb_size = 1000, sb_nblocks = 941, sb_ninodes = 200, sb_nlog = 30, sb_logstart = 2,
     sb_inodestart = 32, sb_bmapstart = 58\<rparr>"
  by (simp add: sb_decode_def sample_sb_def BSIZE_def)

lemma get32_zero: "off + 4 \<le> n \<Longrightarrow> get32 off (replicate n 0) = 0"
  by (simp add: get32_def slice_def of_le32_def)

lemma hd_n_zero: "hd_n (replicate BSIZE 0) = 0"
  by (simp add: hd_n_def get32_zero BSIZE_def)

lemma sample_boot:
  obtains s :: log_state where "initlog 1 (binit (crash sample_disk sample_state)) = Ok s" "log_inv s" "log_start s = 2"
    "log_size s = 30" "lh_n s = 0" "log_outstanding s = 0" "\<not> log_committing s" "locked s = {}"
    "disksize s = 1000" "\<And>b. b \<noteq> 2 \<Longrightarrow> memdisk s b = sample_disk b"
proof (rule initlog_spec [of sample_disk 2 30 sample_state])
  have z: "sample_disk 2 = replicate BSIZE 0" by (simp add: sample_disk_def)
  show "length (sample_disk b) = BSIZE" for b by (simp add: sample_disk_def length_sample_sb)
  show "sb_logstart (sb_decode (sample_disk 1)) = 2" "sint (sb_nlog (sb_decode (sample_disk 1))) = int 30"
    by (simp_all add: sample_disk_def sample_sb_decode)
  show "1 < disksize sample_state" "log_geom 2 30 (disksize sample_state)"
    by (simp_all add: sample_state_def log_geom_def LOGSIZE_def)
  show "0 \<le> hd_n (sample_disk 2)" "home_ok 2 30 (disksize sample_state) (hd_blocks (sample_disk 2))"
    by (simp_all add: z hd_n_zero hd_blocks_def home_ok_def)
  fix s'
  assume a: "initlog 1 (binit (crash sample_disk sample_state)) = Ok s'" "log_inv s'" "log_start s' = 2"
    "log_size s' = int 30" "lh_n s' = 0" "log_outstanding s' = 0" "\<not> log_committing s'" "locked s' = {}"
    "disksize s' = disksize sample_state" "\<And>b. b \<noteq> 2 \<Longrightarrow> memdisk s' b = recovered 2 sample_disk b"
  have "recovered 2 sample_disk = sample_disk" by (simp add: recovered_def z hd_n_zero)
  with a show thesis by (intro that [of s']) (auto simp: sample_state_def)
qed

lemma log_inv_outstanding [simp]: "log_inv (s\<lparr>log_outstanding := n\<rparr>) = log_inv s"
  by (simp add: log_inv_def log_wf_def log_blocks_def)

lemma sample_txn:
  obtains s :: log_state where "log_inv s" "locked s = {}" "log_start s = 2" "log_size s = 30" "lh_n s = 1"
    "log_outstanding s = 1" "\<not> log_committing s" "disksize s = 1000" "dirty s = {60}"
    "view s 60 = replicate BSIZE 1" "memdisk s 60 = replicate BSIZE 0" "memdisk s 1 = sample_sb"
proof -
  obtain s :: log_state where boot: "initlog 1 (binit (crash sample_disk sample_state)) = Ok s"
    and s: "log_inv s" "log_start s = 2" "log_size s = 30" "lh_n s = 0" "log_outstanding s = 0"
    "\<not> log_committing s" "locked s = {}" "disksize s = 1000" "\<And>b. b \<noteq> 2 \<Longrightarrow> memdisk s b = sample_disk b"
    using sample_boot by blast
  let ?s = "s\<lparr>log_outstanding := 1\<rparr>"
  have d: "dirty s = {}" using s(1,4) by (auto simp: log_inv_def log_blocks_def)
  let ?d = "replicate BSIZE (1 :: u8)"
  have pre: "log_inv ?s" "block_ok 60 ?s" "60 \<notin> locked ?s" "length ?d = BSIZE" "1 \<le> log_outstanding ?s"
    "lh_n ?s < log_size ?s - 1" "card (locked ?s) + nat (lh_n ?s) < NBUF"
    using s by (simp_all add: block_ok_def in_log_def NBUF_def)
  show ?thesis
  proof (rule log_update [OF pre])
    fix s3 assume a: "log_inv s3" "view s3 = (view ?s)(60 := ?d)" "dirty s3 = insert 60 (dirty ?s)"
      "locked s3 = locked ?s" "log_frame ?s s3" "lh_n s3 = (if 60 \<in> dirty ?s then lh_n ?s else lh_n ?s + 1)"
    have "memdisk s 60 = replicate BSIZE 0" "memdisk s 1 = sample_sb"
      using s(9) [of 60] s(9) [of 1] by (simp_all add: sample_disk_def)
    then show thesis
      using a s(2-8) d by (intro that [of s3]) (simp_all add: log_frame_def)
  qed
qed

text \<open>
  C1. A commit is atomic with respect to crashes.  \<open>commit\<close> succeeds; and if the machine
  stops after any number \<open>k\<close> of the block writes it issues, then booting from the disk as
  it is, \<open>binit\<close> followed by \<open>initlog\<close>, succeeds and leaves every block outside the log
  with its content from before the transaction when \<open>k\<close> does not reach the header write,
  and with its content after the transaction otherwise.
\<close>

theorem commit_crash_atomic:
  assumes "log_inv s" "locked s = {}" "0 < lh_n s"
    and "sb_logstart (sb_decode (memdisk s 1)) = log_start s" "sint (sb_nlog (sb_decode (memdisk s 1))) = log_size s"
    and "block_ok 1 s" "1 \<notin> dirty s"
  shows "\<exists>s' ws. commit s = Ok s' \<and> dhist s' = dhist s @ ws \<and>
    (\<forall>k. \<exists>t. initlog 1 (binit (crash (apply_writes (take k ws) (memdisk s)) s)) = Ok t \<and> log_inv t \<and>
       (\<forall>b. \<not> in_log (log_start s) (nat (log_size s)) b \<longrightarrow>
          memdisk t b = (if k \<le> nat (lh_n s) then memdisk s b else view s b)))"
proof -
  have d: "1 \<notin> set (log_blocks s)" using assms(1,7) by (auto simp: log_inv_def)
  have one: "1 < disksize s" "\<not> in_log (log_start s) (nat (log_size s)) 1"
    using assms(6) by (simp_all add: block_ok_def)
  show ?thesis by (rule commit_crash [OF assms(1-5) one(1) d one(2)]) blast
qed

theorem commit_crash_atomic_witness:
  "\<exists>(s :: log_state) s' ws. commit s = Ok s' \<and> dhist s' = dhist s @ ws \<and> view s 60 \<noteq> memdisk s 60 \<and>
    (\<forall>k. \<exists>t. initlog 1 (binit (crash (apply_writes (take k ws) (memdisk s)) s)) = Ok t \<and>
       memdisk t 60 = (if k \<le> 1 then replicate BSIZE 0 else replicate BSIZE 1))"
proof -
  obtain s :: log_state where s: "log_inv s" "locked s = {}" "log_start s = 2" "log_size s = 30" "lh_n s = 1"
    "disksize s = 1000" "dirty s = {60}"
    "view s 60 = replicate BSIZE 1" "memdisk s 60 = replicate BSIZE 0" "memdisk s 1 = sample_sb"
    using sample_txn by metis
  have out: "\<not> in_log 2 30 60" by (simp add: in_log_def)
  have "\<exists>s' ws. commit s = Ok s' \<and> dhist s' = dhist s @ ws \<and>
    (\<forall>k. \<exists>t. initlog 1 (binit (crash (apply_writes (take k ws) (memdisk s)) s)) = Ok t \<and> log_inv t \<and>
       (\<forall>b. \<not> in_log (log_start s) (nat (log_size s)) b \<longrightarrow>
          memdisk t b = (if k \<le> nat (lh_n s) then memdisk s b else view s b)))"
    by (rule commit_crash_atomic) (use s in \<open>auto simp: sample_sb_decode block_ok_def in_log_def\<close>)
  then obtain s' ws where c: "commit s = Ok s'" "dhist s' = dhist s @ ws"
    "\<forall>k. \<exists>t. initlog 1 (binit (crash (apply_writes (take k ws) (memdisk s)) s)) = Ok t \<and>
       (\<forall>b. \<not> in_log (log_start s) (nat (log_size s)) b \<longrightarrow>
          memdisk t b = (if k \<le> nat (lh_n s) then memdisk s b else view s b))"
    by blast
  have "\<forall>k. \<exists>t. initlog 1 (binit (crash (apply_writes (take k ws) (memdisk s)) s)) = Ok t \<and>
       memdisk t 60 = (if k \<le> 1 then replicate BSIZE 0 else replicate BSIZE 1)"
    using c(3) out s by (metis nat_one_as_int nat_numeral)
  moreover have "view s 60 \<noteq> memdisk s 60" using s by (simp add: BSIZE_def)
  ultimately show ?thesis using c by blast
qed

text \<open>
  C2. After a successful \<open>commit\<close> the transaction is on the disk at its home: every block
  outside the log has on the disk what the cache shows, no block is dirty any more, and
  the header on the disk is empty again.
\<close>

theorem commit_installs:
  assumes "log_inv s" "locked s = {}" "0 < lh_n s"
  shows "\<exists>s'. commit s = Ok s' \<and> log_inv s' \<and> lh_n s' = 0 \<and> dirty s' = {} \<and>
    (\<forall>b. \<not> in_log (log_start s) (nat (log_size s)) b \<longrightarrow> memdisk s' b = view s b)"
proof -
  obtain s' h h' where c: "commit s = Ok s'" "log_inv s'" "lh_n s' = 0" "hd_n h = lh_n s" "hd_blocks h = log_blocks s"
    "hd_n h' = 0" "memdisk s' = apply_writes (commit_writes (log_start s) (log_blocks s) (view s) h h') (memdisk s)"
    using commit_spec [OF assms] by metis
  have i: "bio_inv s" "log_wf s" "home_ok (log_start s) (nat (log_size s)) (disksize s) (log_blocks s)"
    "distinct (log_blocks s)" "dirty s = set (log_blocks s)" "hd_n (memdisk s (log_start s)) = 0"
    using assms by (auto simp: log_inv_def)
  have com: "committed (log_start s) (nat (log_size s)) (disksize s) (log_blocks s) (memdisk s) h h'"
    using i c lh_n_bound(3) [OF i(2,3)] assms(3) by (simp add: committed_def log_wf_def)
  let ?k = "length (commit_writes (log_start s) (log_blocks s) (view s) h h')"
  have "after (log_start s) (log_blocks s) (view s) (memdisk s) h h' ?k = memdisk s'" by (simp add: after_def c)
  moreover have k: "?k = 2 * length (log_blocks s) + 2" by (simp add: commit_writes_def)
  ultimately have rec: "recovered (log_start s) (memdisk s') b = (if b \<in> set (log_blocks s) then view s b else memdisk s b)"
    if "\<not> in_log (log_start s) (nat (log_size s)) b" for b
    using recovered_after [OF com that, of "view s" ?k] by simp
  have "hd_n (memdisk s' (log_start s)) = 0" using c(6,7) by (simp add: commit_writes_def)
  then have "recovered (log_start s) (memdisk s') = memdisk s'" by (simp add: recovered_def)
  then have "memdisk s' b = view s b" if "\<not> in_log (log_start s) (nat (log_size s)) b" for b
    using rec [OF that] unlocked_clean [OF i(1), of b] i(5) assms(2) by auto
  moreover have "dirty s' = {}" using c(2,3) by (simp add: log_inv_def log_blocks_def)
  ultimately show ?thesis using c by blast
qed

theorem commit_installs_witness:
  "\<exists>(s :: log_state) s'. commit s = Ok s' \<and> memdisk s 60 = replicate BSIZE 0 \<and> memdisk s' 60 = replicate BSIZE 1"
proof -
  obtain s :: log_state where s: "log_inv s" "locked s = {}" "log_start s = 2" "log_size s = 30" "lh_n s = 1"
    "view s 60 = replicate BSIZE 1" "memdisk s 60 = replicate BSIZE 0"
    using sample_txn by metis
  moreover have "\<not> in_log 2 30 60" by (simp add: in_log_def)
  ultimately show ?thesis using commit_installs [of s] by fastforce
qed

text \<open>
  C3. \<open>log_write\<close> keeps the invariant of the log, and inside a transaction with room in the
  log it succeeds: it records the block once, so that a second write of the same block is
  absorbed and takes no further space, and pins its buffer until the commit.
\<close>

theorem log_write_records:
  assumes "log_inv s" "holds s i b" "block_ok b s" "1 \<le> log_outstanding s" "lh_n s < log_size s - 1"
  shows "\<exists>s'. log_write i s = Ok s' \<and> log_inv s' \<and> view s' = view s \<and> memdisk s' = memdisk s \<and>
    dirty s' = insert b (dirty s) \<and> lh_n s' = (if b \<in> dirty s then lh_n s else lh_n s + 1)"
  by (rule log_write_spec [OF assms(1,2)])
    (use assms(3-5) in \<open>auto simp: block_ok_def log_frame_def\<close>)

theorem log_write_records_witness:
  "\<exists>(s :: log_state) i s'. log_write i s = Ok s' \<and> lh_n s' = lh_n s \<and> dirty s' = {60}"
proof -
  obtain s :: log_state where s: "log_inv s" "locked s = {}" "log_start s = 2" "log_size s = 30" "lh_n s = 1"
    "log_outstanding s = 1" "disksize s = 1000" "dirty s = {60}"
    using sample_txn by metis
  have b: "bio_inv s" using s(1) by (simp add: log_inv_def)
  obtain i s1 where r: "bread 1 60 s = Ok (i, s1)"
    using bio.read_progress [OF b, of 60] s by auto
  note rl = bio.read_law [OF b r]
  note f = same_frame_log [of s s1]
  have "log_inv s1" using log_inv_frame [OF s(1)] rl by simp
  moreover have "holds s1 i 60" "block_ok 60 s1" "1 \<le> log_outstanding s1" "lh_n s1 < log_size s1 - 1" "dirty s1 = {60}"
    using rl f s by (auto simp: block_ok_def in_log_def)
  ultimately have "\<exists>s'. log_write i s1 = Ok s' \<and> lh_n s' = lh_n s1 \<and> dirty s' = {60}"
    using log_write_records [of s1 i 60] by auto
  then show ?thesis by blast
qed

end
