(* ===== verification/Xv6_String.thy ===== *)
theory Xv6_String
  imports Xv6_Prelude
begin

text \<open>
  The kernel's string and memory primitives, \<^verbatim>\<open>string.c\<close>, over a flat 32-bit byte
  memory.  A function that only reads through a pointer takes the reader of that
  pointer, the function that gives the \<open>i\<close>-th byte it points at (\<open>rd m p\<close> for a
  pointer \<open>p\<close> into memory \<open>m\<close>), so that it applies to strings in kernel objects
  as well.  The main results: the word-wise and byte-wise branches of \<open>memset\<close> agree,
  \<open>memmove\<close> is a simultaneous copy whatever the overlap, \<open>strncmp\<close> and \<open>strncpy\<close>
  compute the C contracts that directory entries rely on, and \<open>safestrcpy\<close> always
  terminates its target within the buffer.
\<close>

type_synonym mem = "u32 \<Rightarrow> u8"
type_synonym cstr = "nat \<Rightarrow> u8"

definition rd :: "mem \<Rightarrow> u32 \<Rightarrow> cstr" where
  "rd m p = (\<lambda>i. m (p + of_nat i))"

text \<open>A byte string read as a NUL-terminated C string.\<close>

definition lstr :: "u8 list \<Rightarrow> cstr" where
  "lstr xs = (\<lambda>i. if i < length xs then xs ! i else 0)"

section \<open>Definitions\<close>

text \<open>The string instructions of \<^verbatim>\<open>x86.h\<close>: \<open>cnt\<close> bytes or 32-bit words at \<open>addr\<close>.\<close>

fun stosb :: "nat \<Rightarrow> u32 \<Rightarrow> u8 \<Rightarrow> mem \<Rightarrow> mem" where
  "stosb 0 addr data m = m"
| "stosb (Suc cnt) addr data m = stosb cnt (addr + 1) data (m(addr := data))"

fun stosl :: "nat \<Rightarrow> u32 \<Rightarrow> u32 \<Rightarrow> mem \<Rightarrow> mem" where
  "stosl 0 addr data m = m"
| "stosl (Suc cnt) addr data m =
     stosl cnt (addr + 4) data
       (m(addr := le32 data ! 0, addr + 1 := le32 data ! 1,
          addr + 2 := le32 data ! 2, addr + 3 := le32 data ! 3))"

definition memset :: "u32 \<Rightarrow> u32 \<Rightarrow> u32 \<Rightarrow> mem \<Rightarrow> mem" where
  "memset dst c n m =
     (if dst mod 4 = 0 \<and> n mod 4 = 0 then
        (let c = c AND 0xFF in
         stosl (unat (n div 4)) dst (push_bit 24 c OR push_bit 16 c OR push_bit 8 c OR c) m)
      else stosb (unat n) dst (ucast c) m)"

fun memcmp :: "cstr \<Rightarrow> cstr \<Rightarrow> nat \<Rightarrow> int" where
  "memcmp s1 s2 0 = 0"
| "memcmp s1 s2 (Suc n) =
     (if s1 0 \<noteq> s2 0 then uint (s1 0) - uint (s2 0)
      else memcmp (\<lambda>i. s1 (Suc i)) (\<lambda>i. s2 (Suc i)) n)"

fun copy_down :: "nat \<Rightarrow> u32 \<Rightarrow> u32 \<Rightarrow> mem \<Rightarrow> mem" where
  \<comment> \<open>\<open>while(n-- > 0) *--d = *--s;\<close>\<close>
  "copy_down 0 d s m = m"
| "copy_down (Suc n) d s m = copy_down n (d - 1) (s - 1) (m(d - 1 := m (s - 1)))"

fun copy_up :: "nat \<Rightarrow> u32 \<Rightarrow> u32 \<Rightarrow> mem \<Rightarrow> mem" where
  \<comment> \<open>\<open>while(n-- > 0) *d++ = *s++;\<close>\<close>
  "copy_up 0 d s m = m"
| "copy_up (Suc n) d s m = copy_up n (d + 1) (s + 1) (m(d := m s))"

definition memmove :: "u32 \<Rightarrow> u32 \<Rightarrow> u32 \<Rightarrow> mem \<Rightarrow> mem" where
  "memmove dst src n m =
     (if src < dst \<and> src + n > dst
      then copy_down (unat n) (dst + n) (src + n) m
      else copy_up (unat n) dst src m)"

definition memcpy :: "u32 \<Rightarrow> u32 \<Rightarrow> u32 \<Rightarrow> mem \<Rightarrow> mem" where
  "memcpy dst src n m = memmove dst src n m"

fun strncmp :: "cstr \<Rightarrow> cstr \<Rightarrow> nat \<Rightarrow> int" where
  "strncmp p q 0 = 0"
| "strncmp p q (Suc n) =
     (if p 0 \<noteq> 0 \<and> p 0 = q 0 then strncmp (\<lambda>i. p (Suc i)) (\<lambda>i. q (Suc i)) n
      else uint (p 0) - uint (q 0))"

fun zero_fill :: "nat \<Rightarrow> u32 \<Rightarrow> mem \<Rightarrow> mem" where
  \<comment> \<open>\<open>while(n-- > 0) *s++ = 0;\<close>\<close>
  "zero_fill 0 s m = m"
| "zero_fill (Suc n) s m = zero_fill n (s + 1) (m(s := 0))"

fun strncpy :: "nat \<Rightarrow> u32 \<Rightarrow> u32 \<Rightarrow> mem \<Rightarrow> mem" where
  "strncpy 0 s t m = m"
| "strncpy (Suc n) s t m =
     (let c = m t; m = m(s := c)
      in if c \<noteq> 0 then strncpy n (s + 1) (t + 1) m else zero_fill n (s + 1) m)"

fun safestrcpy_loop :: "nat \<Rightarrow> u32 \<Rightarrow> u32 \<Rightarrow> mem \<Rightarrow> mem" where
  \<comment> \<open>the loop with \<open>n\<close> already decremented, and the final \<open>*s = 0\<close>\<close>
  "safestrcpy_loop 0 s t m = m(s := 0)"
| "safestrcpy_loop (Suc n) s t m =
     (let c = m t; m = m(s := c)
      in if c \<noteq> 0 then safestrcpy_loop n (s + 1) (t + 1) m else m(s + 1 := 0))"

definition safestrcpy :: "u32 \<Rightarrow> u32 \<Rightarrow> int \<Rightarrow> mem \<Rightarrow> mem" where
  "safestrcpy s t n m = (if n \<le> 0 then m else safestrcpy_loop (nat (n - 1)) s t m)"

partial_function (option) strlen_from :: "cstr \<Rightarrow> nat \<Rightarrow> nat option" where
  "strlen_from s n = (if s n \<noteq> 0 then strlen_from s (Suc n) else Some n)"

definition strlen :: "cstr \<Rightarrow> nat option" where
  "strlen s = strlen_from s 0"

text \<open>The \<open>n\<close> bytes that \<open>strncpy\<close> writes for a source with reader \<open>t\<close>.\<close>

fun strncpy_bytes :: "cstr \<Rightarrow> nat \<Rightarrow> u8 list" where
  "strncpy_bytes t 0 = []"
| "strncpy_bytes t (Suc n) =
     (if t 0 \<noteq> 0 then t 0 # strncpy_bytes (\<lambda>i. t (Suc i)) n else replicate (Suc n) 0)"

section \<open>Offsets in the 32-bit address space\<close>

lemma unat_sub_Suc:
  assumes "(x :: u32) \<noteq> a"
  shows "unat (x - a) = Suc (unat (x - (a + 1)))"
proof -
  have ne: "x - a \<noteq> 0" using assms by simp
  have "x - (a + 1) = (x - a) - 1" by simp
  then have "unat (x - (a + 1)) = unat (x - a) - 1"
    by (simp only: unat_minus_one [OF ne])
  moreover have "0 < unat (x - a)"
    using ne by (simp add: unat_gt_0)
  ultimately show ?thesis by simp
qed

lemma unat_minus_self_plus: "unat ((a :: u32) - (a + 1)) = 2 ^ 32 - 1"
proof -
  have "a - (a + 1) = - 1" by simp
  then show ?thesis by (simp add: unat_uminus32)
qed

section \<open>memset\<close>

lemma stosb_apply:
  "cnt \<le> 2 ^ 32 \<Longrightarrow> stosb cnt addr data m x = (if unat (x - addr) < cnt then data else m x)"
proof (induction cnt arbitrary: addr m)
  case 0
  then show ?case by simp
next
  case (Suc cnt)
  show ?case
  proof (cases "x = addr")
    case True
    with Suc show ?thesis
      by (simp add: unat_minus_self_plus)
  next
    case False
    with Suc show ?thesis
      by (simp add: unat_sub_Suc [OF False])
  qed
qed

lemma zero_fill_stosb: "zero_fill n s m = stosb n s 0 m"
  by (induction n arbitrary: s m) auto

lemma le32_replicated_byte:
  "le32 (push_bit 24 (c AND 0xFF) OR push_bit 16 (c AND 0xFF) OR push_bit 8 (c AND 0xFF) OR (c AND 0xFF))
   = replicate 4 (ucast (c :: u32))"
proof -
  let ?w = "push_bit 24 (c AND 0xFF) OR push_bit 16 (c AND 0xFF) OR push_bit 8 (c AND 0xFF) OR (c AND 0xFF)"
  have mask: "(0xFF :: u32) = mask 8" by (simp add: mask_eq_exp_minus_1)
  have "ucast ?w = (ucast c :: u8)" "ucast (drop_bit 8 ?w) = (ucast c :: u8)"
    "ucast (drop_bit 16 ?w) = (ucast c :: u8)" "ucast (drop_bit 24 ?w) = (ucast c :: u8)"
    unfolding mask by (rule bit_word_eqI; auto simp: bit_simps)+
  then show ?thesis
    by (simp add: le32_def numeral_eq_Suc)
qed

lemma stosl_as_stosb:
  assumes "le32 data = replicate 4 c"
  shows "stosl cnt addr data m = stosb (4 * cnt) addr c m"
proof (induction cnt arbitrary: addr m)
  case 0
  then show ?case by simp
next
  case (Suc cnt)
  have four: "4 * Suc cnt = Suc (Suc (Suc (Suc (4 * cnt))))" by simp
  have upd: "m(addr := le32 data ! 0, addr + 1 := le32 data ! 1,
      addr + 2 := le32 data ! 2, addr + 3 := le32 data ! 3) =
    m(addr := c, addr + 1 := c, addr + 2 := c, addr + 3 := c)"
    by (simp add: assms)
  show ?case
    unfolding four stosl.simps upd stosb.simps Suc by (simp add: add.assoc)
qed

lemma memset_apply:
  "memset dst c n m x = (if unat (x - dst) < unat n then ucast c else m x)"
proof (cases "dst mod 4 = 0 \<and> n mod 4 = 0")
  case True
  have "unat (n mod 4) = 0" using True by simp
  then have "4 * unat (n div 4) = unat n"
    by (simp add: unat_mod unat_div) presburger
  moreover have "unat n \<le> 2 ^ 32"
    using unat_u32_bound [of n] by simp
  ultimately show ?thesis
    unfolding memset_def Let_def if_P [OF True] stosl_as_stosb [OF le32_replicated_byte]
    by (simp only: stosb_apply)
next
  case False
  have "unat n \<le> 2 ^ 32"
    using unat_u32_bound [of n] by simp
  then show ?thesis
    unfolding memset_def if_not_P [OF False] by (rule stosb_apply)
qed

section \<open>memmove\<close>

text \<open>
  Copying upwards is exact when no source byte has been overwritten before it is
  read, that is when the target does not start inside the source after its first
  byte; copying downwards in the mirrored case.
\<close>

lemma copy_up_apply:
  assumes "n \<le> 2 ^ 32" "d = s \<or> n \<le> unat (d - s)"
  shows "copy_up n d s m x = (if unat (x - d) < n then m (s + (x - d)) else m x)"
  using assms
proof (induction n arbitrary: d s m)
  case 0
  then show ?case by simp
next
  case (Suc n)
  have IH: "copy_up n (d + 1) (s + 1) (m(d := m s)) x =
      (if unat (x - (d + 1)) < n then (m(d := m s)) (s + 1 + (x - (d + 1))) else (m(d := m s)) x)"
    using Suc.prems by (intro Suc.IH) auto
  show ?case
  proof (cases "x = d")
    case True
    with Suc.prems IH show ?thesis
      by (simp add: unat_minus_self_plus)
  next
    case False
    have eq: "s + 1 + (x - (d + 1)) = s + (x - d)" by simp
    have "(m(d := m s)) (s + (x - d)) = m (s + (x - d))" if "unat (x - d) < Suc n"
    proof (cases "d = s")
      case True
      then show ?thesis by simp
    next
      case ne: False
      then have le: "Suc n \<le> unat (d - s)" using Suc.prems(2) by auto
      have "s + (x - d) \<noteq> d"
      proof
        assume "s + (x - d) = d"
        then have "x - d = d - s" by (simp add: algebra_simps)
        with le that show False by simp
      qed
      then show ?thesis by simp
    qed
    with IH False show ?thesis
      unfolding eq by (simp add: unat_sub_Suc [OF False])
  qed
qed

lemma copy_down_apply:
  assumes "n \<le> 2 ^ 32" "d = s \<or> n \<le> unat (s - d)"
  shows "copy_down n (d + of_nat n) (s + of_nat n) m x =
    (if unat (x - d) < n then m (s + (x - d)) else m x)"
  using assms
proof (induction n arbitrary: m)
  case 0
  then show ?case by simp
next
  case (Suc n)
  let ?m = "m(d + of_nat n := m (s + of_nat n))"
  have step: "copy_down (Suc n) (d + of_nat (Suc n)) (s + of_nat (Suc n)) m x =
      copy_down n (d + of_nat n) (s + of_nat n) ?m x"
    by simp
  have IH: "copy_down n (d + of_nat n) (s + of_nat n) ?m x =
      (if unat (x - d) < n then ?m (s + (x - d)) else ?m x)"
    using Suc.prems by (intro Suc.IH) auto
  have n: "unat (of_nat n :: u32) = n" using Suc.prems(1) by simp
  have top: "x = d + of_nat n \<longleftrightarrow> unat (x - d) = n"
  proof -
    have "x = d + of_nat n \<longleftrightarrow> x - d = of_nat n" by (auto simp: algebra_simps)
    then show ?thesis by (simp only: word_unat_eq_iff n)
  qed
  have keep: "?m (s + (x - d)) = m (s + (x - d))" if lt: "unat (x - d) < n"
  proof (cases "d = s")
    case True
    with lt top show ?thesis by auto
  next
    case False
    then have le: "Suc n \<le> unat (s - d)" using Suc.prems(2) by simp
    have "s + (x - d) \<noteq> d + of_nat n"
    proof
      assume "s + (x - d) = d + of_nat n"
      then have sd: "s - d = of_nat n - (x - d)" by (simp add: algebra_simps)
      have "x - d \<le> of_nat n" using lt n by (simp add: word_le_nat_alt)
      then have "unat (of_nat n - (x - d)) = n - unat (x - d)"
        by (simp add: unat_sub n)
      then have "unat (s - d) = n - unat (x - d)" by (simp only: sd)
      with le show False by simp
    qed
    then show ?thesis by simp
  qed
  show ?case
    unfolding step IH using keep top by (auto simp: less_Suc_eq)
qed

lemma memmove_apply:
  assumes "unat src + unat n < 2 ^ 32" "unat dst + unat n \<le> 2 ^ 32"
  shows "memmove dst src n m x = (if unat (x - dst) < unat n then m (src + (x - dst)) else m x)"
proof -
  have n: "unat n \<le> 2 ^ 32" using unat_u32_bound [of n] by simp
  have sn: "unat (src + n) = unat src + unat n"
    using assms(1) by (simp add: unat_add_no_wrap)
  show ?thesis
  proof (cases "src < dst \<and> src + n > dst")
    case True
    then have lt: "unat src < unat dst" "unat dst < unat src + unat n"
      by (simp_all add: word_less_nat_alt sn)
    have "src - dst = - (dst - src)" by simp
    moreover have "unat (dst - src) = unat dst - unat src"
      using True by (intro unat_sub) (simp add: order.strict_implies_order)
    moreover have "dst - src \<noteq> 0" using True by auto
    ultimately have "unat (src - dst) = 2 ^ 32 - (unat dst - unat src)"
      by (metis unat_uminus32)
    then have "unat n \<le> unat (src - dst)"
      using assms lt by simp
    then have "copy_down (unat n) (dst + of_nat (unat n)) (src + of_nat (unat n)) m x =
        (if unat (x - dst) < unat n then m (src + (x - dst)) else m x)"
      using n by (intro copy_down_apply) auto
    with True show ?thesis by (simp add: memmove_def)
  next
    case False
    have "dst = src \<or> unat n \<le> unat (dst - src)"
    proof (cases "src < dst")
      case True
      with False have "unat src + unat n \<le> unat dst"
        by (simp add: word_less_nat_alt sn)
      moreover have "unat (dst - src) = unat dst - unat src"
        using True by (intro unat_sub) (simp add: order.strict_implies_order)
      ultimately have "unat n \<le> unat (dst - src)" by linarith
      then show ?thesis ..
    next
      case nlt: False
      show ?thesis
      proof (cases "dst = src")
        case ne: False
        have "dst - src = - (src - dst)" by simp
        moreover have "unat (src - dst) = unat src - unat dst"
          using nlt by (intro unat_sub) simp
        moreover have "src - dst \<noteq> 0" using ne by auto
        ultimately have "unat (dst - src) = 2 ^ 32 - (unat src - unat dst)"
          by (metis unat_uminus32)
        with assms have "unat n \<le> unat (dst - src)" by linarith
        then show ?thesis ..
      qed simp
    qed
    with n show ?thesis
      unfolding memmove_def if_not_P [OF False] by (rule copy_up_apply)
  qed
qed

section \<open>Comparison\<close>

lemma memcmp_eq_0_iff: "memcmp s t n = 0 \<longleftrightarrow> (\<forall>i<n. s i = t i)"
proof (induction s t n rule: memcmp.induct)
  case (2 s t n)
  then show ?case
    by (auto simp: All_less_Suc2)
qed simp

lemma strncmp_eq_0_iff:
  "strncmp p q n = 0 \<longleftrightarrow> (\<forall>i<n. (\<forall>j<i. p j \<noteq> 0) \<longrightarrow> p i = q i)"
proof (induction p q n rule: strncmp.induct)
  case (2 p q n)
  show ?case
  proof (cases "p 0 \<noteq> 0 \<and> p 0 = q 0")
    case True
    have "strncmp p q (Suc n) = 0 \<longleftrightarrow>
        (\<forall>i<n. (\<forall>j<i. p (Suc j) \<noteq> 0) \<longrightarrow> p (Suc i) = q (Suc i))"
      unfolding strncmp.simps if_P [OF True] by (rule "2.IH" [OF True])
    also have "\<dots> \<longleftrightarrow> (\<forall>i<Suc n. (\<forall>j<i. p j \<noteq> 0) \<longrightarrow> p i = q i)"
      using True by (auto simp: All_less_Suc2)
    finally show ?thesis .
  next
    case False
    then show ?thesis
      by (auto simp: All_less_Suc2)
  qed
qed simp

lemma strncmp_refl [simp]: "strncmp p p n = 0"
  by (simp add: strncmp_eq_0_iff)

lemma strncmp_eq_0_sym: "strncmp p q n = 0 \<longleftrightarrow> strncmp q p n = 0"
proof -
  have imp: "strncmp q p n = 0" if "strncmp p q n = 0" for p q :: cstr
    using that
  proof (induction p q n rule: strncmp.induct)
    case (2 p q n)
    then show ?case by (auto split: if_splits)
  qed simp
  then show ?thesis by blast
qed

section \<open>Bounded copies of strings\<close>

lemma length_strncpy_bytes [simp]: "length (strncpy_bytes t n) = n"
  by (induction t n rule: strncpy_bytes.induct) auto

text \<open>The bytes are the source up to its first NUL, then NULs.\<close>

lemma nth_strncpy_bytes:
  "i < n \<Longrightarrow> strncpy_bytes t n ! i = (if \<forall>j\<le>i. t j \<noteq> 0 then t i else 0)"
proof (induction t n arbitrary: i rule: strncpy_bytes.induct)
  case (2 t n)
  show ?case
  proof (cases "t 0 = 0")
    case True
    then show ?thesis
      using 2 by (auto simp: nth_Cons split: nat.splits)
  next
    case False
    then show ?thesis
      using 2 by (cases i) (auto simp: All_less_Suc2 less_Suc_eq_le [symmetric])
  qed
qed simp

text \<open>
  Comparing a \<open>strncpy\<close> image with the string it was made from finds them equal:
  what makes a directory entry findable under the name it was linked with.
\<close>

lemma strncmp_strncpy_bytes: "strncmp t (lstr (strncpy_bytes t n)) n = 0"
  unfolding strncmp_eq_0_iff
proof (intro allI impI)
  fix i assume i: "i < n" and pre: "\<forall>j<i. t j \<noteq> 0"
  then show "t i = lstr (strncpy_bytes t n) i"
    by (cases "t i = 0") (auto simp: lstr_def nth_strncpy_bytes le_less)
qed

lemma strncpy_bytes_eq_iff:
  "strncpy_bytes s n = strncpy_bytes t n \<longleftrightarrow> strncmp s t n = 0"
proof (induction s t n rule: strncmp.induct)
  case (2 s t n)
  then show ?case
    by (auto simp: Cons_replicate_eq)
qed simp

lemma strncpy_apply:
  assumes "n \<le> 2 ^ 32" "n \<le> unat (s - t)" "n \<le> unat (t - s)"
  shows "strncpy n s t m x =
    (if unat (x - s) < n then strncpy_bytes (rd m t) n ! unat (x - s) else m x)"
  using assms
proof (induction n arbitrary: s t m)
  case 0
  then show ?case by simp
next
  case (Suc n)
  let ?m = "m(s := m t)"
  have ne: "t \<noteq> s" using Suc.prems by auto
  have rdS: "strncpy_bytes (rd ?m (t + 1)) n = strncpy_bytes (\<lambda>i. rd m t (Suc i)) n"
  proof -
    have "rd ?m (t + 1) i = rd m t (Suc i)" if "i < n" for i
    proof -
      have "t + 1 + of_nat i \<noteq> s"
      proof
        assume "t + 1 + of_nat i = s"
        then have "s - t = of_nat (Suc i)" by (auto simp: algebra_simps)
        then have "unat (s - t) = Suc i"
          using that Suc.prems(1) by (simp del: of_nat_Suc)
        with Suc.prems(2) that show False by simp
      qed
      then show ?thesis by (simp add: rd_def algebra_simps)
    qed
    then show ?thesis
      by (intro nth_equalityI) (auto simp: nth_strncpy_bytes)
  qed
  have t0: "rd m t 0 = m t" by (simp add: rd_def)
  have IH: "strncpy n (s + 1) (t + 1) ?m x =
      (if unat (x - (s + 1)) < n then strncpy_bytes (rd ?m (t + 1)) n ! unat (x - (s + 1)) else ?m x)"
    using Suc.prems by (intro Suc.IH) simp_all
  show ?case
  proof (cases "x = s")
    case True
    have "\<not> unat (x - (s + 1)) < n"
      using Suc.prems(1) unfolding True by (simp only: unat_minus_self_plus)
    with True Suc.prems IH show ?thesis
      by (simp add: Let_def zero_fill_stosb stosb_apply t0)
  next
    case False
    note off = unat_sub_Suc [OF False]
    show ?thesis
    proof (cases "m t = 0")
      case True
      with False Suc.prems show ?thesis
        by (simp add: Let_def zero_fill_stosb stosb_apply t0 off)
    next
      case nz: False
      with IH False show ?thesis
        by (simp add: Let_def t0 off rdS)
    qed
  qed
qed

lemma safestrcpy_loop_frame:
  "unat (x - s) > n \<Longrightarrow> n < 2 ^ 32 \<Longrightarrow> safestrcpy_loop n s t m x = m x"
proof (induction n arbitrary: s t m)
  case 0
  then show ?case by auto
next
  case (Suc n)
  have "x \<noteq> s" using Suc.prems by auto
  note off = unat_sub_Suc [OF this]
  have "x \<noteq> s + 1"
  proof
    assume "x = s + 1"
    with Suc.prems show False by simp
  qed
  moreover have "safestrcpy_loop n (s + 1) (t + 1) (m(s := m t)) x = (m(s := m t)) x"
    using Suc.prems by (intro Suc.IH) (simp_all add: off)
  ultimately show ?case
    using \<open>x \<noteq> s\<close> by (simp add: Let_def)
qed

lemma safestrcpy_loop_terminates:
  "n < 2 ^ 32 - 1 \<Longrightarrow> \<exists>i\<le>n. safestrcpy_loop n s t m (s + of_nat i) = 0"
proof (induction n arbitrary: s t m)
  case 0
  then show ?case by auto
next
  case (Suc n)
  show ?case
  proof (cases "m t = 0")
    case True
    then show ?thesis
      by (intro exI [of _ 1]) (simp add: Let_def)
  next
    case False
    from Suc obtain i where "i \<le> n"
      "safestrcpy_loop n (s + 1) (t + 1) (m(s := m t)) (s + 1 + of_nat i) = 0"
      by fastforce
    with False show ?thesis
      by (intro exI [of _ "Suc i"]) (simp add: Let_def algebra_simps)
  qed
qed

section \<open>strlen\<close>

lemma strlen_from_nonzero:
  "(\<And>i. a \<le> i \<Longrightarrow> i < a + k \<Longrightarrow> s i \<noteq> 0) \<Longrightarrow> strlen_from s a = strlen_from s (a + k)"
proof (induction k arbitrary: a)
  case (Suc k)
  have "strlen_from s a = strlen_from s (Suc a)"
    using Suc.prems [of a] by (subst strlen_from.simps) simp
  also have "\<dots> = strlen_from s (Suc a + k)"
    using Suc.prems by (intro Suc.IH) auto
  finally show ?case by simp
qed simp

lemma strlen_eq:
  assumes "s k = 0" "\<And>i. i < k \<Longrightarrow> s i \<noteq> 0"
  shows "strlen s = Some k"
proof -
  have "strlen_from s 0 = strlen_from s k"
    using strlen_from_nonzero [of 0 k s] assms(2) by simp
  with assms(1) show ?thesis
    by (simp add: strlen_def strlen_from.simps [of s k])
qed

section \<open>Properties\<close>

text \<open>
  \<open>memset\<close> with its fast path, which stores 32-bit words when the address and the count
  are multiples of 4, does exactly what storing single bytes does.
\<close>

theorem memset_equiv_stosb: "memset dst c n m = stosb (unat n) dst (ucast c) m"
proof
  fix x
  have "unat n \<le> 2 ^ 32" using unat_u32_bound [of n] by simp
  then show "memset dst c n m x = stosb (unat n) dst (ucast c) m x"
    by (simp add: memset_apply stosb_apply)
qed

text \<open>
  \<open>memmove\<close> copies correctly even when the two regions overlap in either direction:
  afterwards byte \<open>i\<close> of the destination is what byte \<open>i\<close> of the source was before, and no
  byte outside the destination has changed.
\<close>

theorem memmove_overlap:
  assumes "unat src + unat n < 2 ^ 32" "unat dst + unat n \<le> 2 ^ 32"
  shows "(\<forall>i. i < n \<longrightarrow> memmove dst src n m (dst + i) = m (src + i)) \<and>
    (\<forall>x. n \<le> x - dst \<longrightarrow> memmove dst src n m x = m x)"
  using memmove_apply [OF assms] by (simp add: word_less_nat_alt word_le_nat_alt)

theorem memmove_overlap_witness:
  "memmove 10 8 4 (\<lambda>a. ucast a) (10 + 2) = 10 \<and> memmove 8 10 4 (\<lambda>a. ucast a) (8 + 1) = 11 \<and>
   memmove 10 8 4 (\<lambda>a. ucast a) 14 = 14"
proof (intro conjI)
  show "memmove 10 8 4 (\<lambda>a. ucast a) (10 + 2) = 10"
    by (subst memmove_overlap [THEN conjunct1, THEN spec, THEN mp]) simp_all
  show "memmove 8 10 4 (\<lambda>a. ucast a) (8 + 1) = 11"
    by (subst memmove_overlap [THEN conjunct1, THEN spec, THEN mp]) simp_all
  show "memmove 10 8 4 (\<lambda>a. ucast a) 14 = 14"
    by (subst memmove_overlap [THEN conjunct2, THEN spec, THEN mp]) simp_all
qed

text \<open>
  A name stored with \<open>strncpy\<close> is found again with \<open>strncmp\<close>: the \<open>n\<close> bytes written
  compare equal to the source, with padding of zeros for a shorter name and without a
  terminator for a longer one; the rest of memory is untouched.
\<close>

theorem strncpy_then_strncmp:
  assumes "n \<le> unat (s - t)" "n \<le> unat (t - s)"
  shows "strncmp (rd m t) (rd (strncpy n s t m) s) n = 0 \<and>
    (\<forall>x. n \<le> unat (x - s) \<longrightarrow> strncpy n s t m x = m x)"
proof
  have n: "n \<le> 2 ^ 32" using assms(1) unat_u32_bound [of "s - t"] by simp
  note ap = strncpy_apply [OF n assms]
  show "\<forall>x. n \<le> unat (x - s) \<longrightarrow> strncpy n s t m x = m x" by (simp add: ap)
  show "strncmp (rd m t) (rd (strncpy n s t m) s) n = 0"
    unfolding strncmp_eq_0_iff
  proof (intro allI impI)
    fix i assume i: "i < n" and pre: "\<forall>j<i. rd m t j \<noteq> 0"
    have "i < 2 ^ 32" using i n by simp
    then have "rd (strncpy n s t m) s i = strncpy_bytes (rd m t) n ! i"
      unfolding rd_def [of "strncpy n s t m"] using i ap [of m "s + of_nat i"] by simp
    also have "\<dots> = rd m t i"
      using i pre by (cases "rd m t i = 0") (auto simp: nth_strncpy_bytes le_less)
    finally show "rd m t i = rd (strncpy n s t m) s i" ..
  qed
qed

theorem strncpy_then_strncmp_witness:
  "strncmp (rd (\<lambda>a. if a = 100 then 97 else 0) 100) (rd (strncpy 14 200 100 (\<lambda>a. if a = 100 then 97 else 0)) 200) 14 = 0"
  using strncpy_then_strncmp [of 14 200 100 "\<lambda>a. if a = 100 then 97 else 0"]
  by (simp add: unat_uminus32)

text \<open>
  \<open>safestrcpy\<close> always leaves a terminated string in its buffer of \<open>n\<close> bytes and never
  writes past it.
\<close>

theorem safestrcpy_bounded:
  assumes "0 < n" "n < 2 ^ 31"
  shows "(\<exists>i. int i < n \<and> safestrcpy s t n m (s + of_nat i) = 0) \<and>
    (\<forall>x. n \<le> int (unat (x - s)) \<longrightarrow> safestrcpy s t n m x = m x)"
proof
  let ?k = "nat (n - 1)"
  have k: "?k < 2 ^ 32 - 1" "?k < 2 ^ 32" using assms by auto
  have eq: "safestrcpy s t n m = safestrcpy_loop ?k s t m" using assms by (simp add: safestrcpy_def)
  obtain i where "i \<le> ?k" "safestrcpy_loop ?k s t m (s + of_nat i) = 0"
    using safestrcpy_loop_terminates [OF k(1)] by blast
  with assms eq show "\<exists>i. int i < n \<and> safestrcpy s t n m (s + of_nat i) = 0"
    by (intro exI [of _ i]) auto
  show "\<forall>x. n \<le> int (unat (x - s)) \<longrightarrow> safestrcpy s t n m x = m x"
  proof (intro allI impI)
    fix x assume "n \<le> int (unat (x - s))"
    then have "?k < unat (x - s)" using assms by linarith
    with k(2) eq show "safestrcpy s t n m x = m x" by (simp add: safestrcpy_loop_frame)
  qed
qed

theorem safestrcpy_bounded_witness:
  "\<exists>i. int i < 3 \<and> safestrcpy 200 100 3 (\<lambda>a. 97) (200 + of_nat i) = 0"
  using safestrcpy_bounded [of 3 200 100 "\<lambda>a. 97"] by simp

end
