(* ===== verification/Xv6_Fs.thy ===== *)
theory Xv6_Fs
  imports Xv6_Log Xv6_String
begin

text \<open>
  The block allocator and the inodes of \<^verbatim>\<open>fs.c\<close>, with the small files that this
  repository adds: an inode of type \<open>T_SFILE\<close> keeps its data in the bytes of its own
  \<open>addrs\<close> array instead of in data blocks.

  The state extends that of the log with the in-memory super block, the inode cache and
  the current directory of the running process.  A \<open>struct inode *\<close> is an index into the
  cache, a null pointer is \<open>None\<close>.  The device table \<open>devsw\<close> is an argument of the operations
  that dispatch through it; the console provides its entry.  The calls of \<open>cprintf\<close>, which
  only trace, are left out.
\<close>

section \<open>Constants and data\<close>

definition NINODE :: nat where "NINODE = 50"
definition NDEV :: int where "NDEV = 10"
definition ROOTDEV :: u32 where "ROOTDEV = 1"
definition ROOTINO :: u32 where "ROOTINO = 1"
definition NDIRECT :: nat where "NDIRECT = 12"
definition NINDIRECT :: nat where "NINDIRECT = BSIZE div 4"
definition MAXFILE :: nat where "MAXFILE = NDIRECT + NINDIRECT"
definition IPB :: u32 where "IPB = 8"
definition BPB :: nat where "BPB = BSIZE * 8"
definition DIRSIZ :: nat where "DIRSIZ = 14"

definition T_DIR :: u16 where "T_DIR = 1"
definition T_FILE :: u16 where "T_FILE = 2"
definition T_DEV :: u16 where "T_DEV = 3"
definition T_SDIR :: u16 where "T_SDIR = 4"
definition T_SFILE :: u16 where "T_SFILE = 5"

lemmas fs_types = T_DIR_def T_FILE_def T_DEV_def T_SDIR_def T_SFILE_def

lemmas fs_consts = NDIRECT_def NINDIRECT_def MAXFILE_def IPB_def BPB_def DIRSIZ_def BSIZE_def

record dinode =
  d_type :: u16
  d_major :: u16
  d_minor :: u16
  d_nlink :: u16
  d_size :: u32
  d_addrs :: "u32 list"

record inode =
  i_dev :: u32
  i_inum :: u32
  i_ref :: int
  i_lock :: sleeplock
  i_valid :: bool
  i_type :: u16
  i_major :: u16
  i_minor :: u16
  i_nlink :: u16
  i_size :: u32
  i_addrs :: "u32 list"

record fs_state = log_state +
  sb :: superblock
  icache :: "inode list"
  cwd :: nat

type_synonym ('a) fs = "'a fs_state_scheme"

text \<open>The inode that a pointer into the cache points to, and assignments through it.\<close>

definition ino :: "nat \<Rightarrow> 'a fs_state_scheme \<Rightarrow> inode" where
  "ino ip s = icache s ! ip"

definition upd_ip :: "nat \<Rightarrow> (inode \<Rightarrow> inode) \<Rightarrow> 'a fs_state_scheme \<Rightarrow> 'a fs_state_scheme" where
  "upd_ip ip f s = s\<lparr>icache := (icache s)[ip := f (icache s ! ip)]\<rparr>"

section \<open>Blocks\<close>

definition BBLOCK :: "nat \<Rightarrow> superblock \<Rightarrow> u32" where
  "BBLOCK b q = of_nat (b div BPB) + sb_bmapstart q"

definition IBLOCK :: "u32 \<Rightarrow> superblock \<Rightarrow> u32" where
  "IBLOCK i q = i div IPB + sb_inodestart q"

definition bzero :: "u32 \<Rightarrow> u32 \<Rightarrow> 'a log_state_scheme \<Rightarrow> 'a log_state_scheme res" where
  "bzero dev bno s =
     bindr (bread dev bno s) (\<lambda>(bp, s).
     bindr (log_write bp (set_bdata bp (replicate BSIZE 0) s)) (\<lambda>s.
     brelse bp s))"

definition bmap_used :: "nat \<Rightarrow> block \<Rightarrow> bool" where
  "bmap_used bi d \<longleftrightarrow> d ! (bi div 8) AND push_bit (bi mod 8) 1 \<noteq> 0"

definition bmap_set :: "nat \<Rightarrow> block \<Rightarrow> block" where
  "bmap_set bi d = d[bi div 8 := d ! (bi div 8) OR push_bit (bi mod 8) 1]"

definition bmap_clear :: "nat \<Rightarrow> block \<Rightarrow> block" where
  "bmap_clear bi d = d[bi div 8 := d ! (bi div 8) AND NOT (push_bit (bi mod 8) 1)]"

text \<open>The inner loop: the first clear bit among the next \<open>k\<close>, for blocks below the size.\<close>

primrec balloc_scan :: "nat \<Rightarrow> nat \<Rightarrow> nat \<Rightarrow> nat \<Rightarrow> block \<Rightarrow> nat option" where
  "balloc_scan 0 bi b sz d = None"
| "balloc_scan (Suc k) bi b sz d =
     (if b + bi < sz then
        if \<not> bmap_used bi d then Some bi else balloc_scan k (Suc bi) b sz d
      else None)"

text \<open>The outer loop; \<open>sz\<close> is \<open>sb.size\<close>, which nothing in the loop changes.\<close>

function balloc_loop :: "nat \<Rightarrow> nat \<Rightarrow> u32 \<Rightarrow> 'a fs_state_scheme \<Rightarrow> (u32 \<times> 'a fs_state_scheme) res" where
  "balloc_loop b sz dev s =
     (if b < sz then
        bindr (bread dev (BBLOCK b (sb s)) s) (\<lambda>(bp, s).
        case balloc_scan BPB 0 b sz (bdata bp s) of
          Some bi \<Rightarrow>
            bindr (log_write bp (set_bdata bp (bmap_set bi (bdata bp s)) s)) (\<lambda>s.
            bindr (brelse bp s) (\<lambda>s.
            bindr (bzero dev (of_nat (b + bi)) s) (\<lambda>s.
            Ok (of_nat (b + bi), s))))
        | None \<Rightarrow>
            bindr (brelse bp s) (\<lambda>s.
            balloc_loop (b + BPB) sz dev s))
      else Fail (Panic ''balloc: out of blocks''))"
  by pat_completeness auto
termination
  by (relation "measure (\<lambda>(b, sz, dev, s). sz - b)") (auto simp: fs_consts)

declare balloc_loop.simps [simp del]

definition balloc :: "u32 \<Rightarrow> 'a fs_state_scheme \<Rightarrow> (u32 \<times> 'a fs_state_scheme) res" where
  "balloc dev s = balloc_loop 0 (unat (sb_size (sb s))) dev s"

definition bfree :: "u32 \<Rightarrow> u32 \<Rightarrow> 'a fs_state_scheme \<Rightarrow> 'a fs_state_scheme res" where
  "bfree dev b s =
     bindr (readsb dev s) (\<lambda>(sb', s).
     let s = s\<lparr>sb := sb'\<rparr> in
     bindr (bread dev (BBLOCK (unat b) (sb s)) s) (\<lambda>(bp, s).
     let bi = unat b mod BPB in
     if \<not> bmap_used bi (bdata bp s) then Fail (Panic ''freeing free block'')
     else
       bindr (log_write bp (set_bdata bp (bmap_clear bi (bdata bp s)) s)) (\<lambda>s.
       brelse bp s)))"

section \<open>Inodes\<close>

text \<open>A \<open>struct dinode\<close> at its place in an inode block: 64 bytes, little-endian.\<close>

definition dip_off :: "u32 \<Rightarrow> nat" where
  "dip_off inum = unat (inum mod IPB) * 64"

definition dinode_get :: "nat \<Rightarrow> block \<Rightarrow> dinode" where
  "dinode_get off d = \<lparr>d_type = get16 off d, d_major = get16 (off + 2) d, d_minor = get16 (off + 4) d,
     d_nlink = get16 (off + 6) d, d_size = get32 (off + 8) d,
     d_addrs = bytes_words (slice (off + 12) 52 d)\<rparr>"

definition dinode_bytes :: "dinode \<Rightarrow> u8 list" where
  "dinode_bytes di = le16 (d_type di) @ le16 (d_major di) @ le16 (d_minor di) @ le16 (d_nlink di) @
     le32 (d_size di) @ words_bytes (d_addrs di)"

definition dinode_put :: "nat \<Rightarrow> dinode \<Rightarrow> block \<Rightarrow> block" where
  "dinode_put off di d = splice off (dinode_bytes di) d"

definition iinit :: "u32 \<Rightarrow> 'a fs_state_scheme \<Rightarrow> 'a fs_state_scheme res" where
  "iinit dev s =
     (let s = s\<lparr>icache := map (\<lambda>ip. ip\<lparr>i_lock := initsleeplock\<rparr>) (icache s)\<rparr> in
      bindr (readsb dev s) (\<lambda>(sb', s).
      Ok (s\<lparr>sb := sb'\<rparr>)))"

text \<open>The search loop of \<open>iget\<close>: a cached inode, or else the first unused entry.\<close>

fun iget_scan :: "inode list \<Rightarrow> nat \<Rightarrow> u32 \<Rightarrow> u32 \<Rightarrow> nat option \<Rightarrow> (nat, nat option) sum" where
  "iget_scan [] k dev inum emp = Inr emp"
| "iget_scan (ip # ips) k dev inum emp =
     (if i_ref ip > 0 \<and> i_dev ip = dev \<and> i_inum ip = inum then Inl k
      else iget_scan ips (Suc k) dev inum (if emp = None \<and> i_ref ip = 0 then Some k else emp))"

definition iget :: "u32 \<Rightarrow> u32 \<Rightarrow> 'a fs_state_scheme \<Rightarrow> (nat \<times> 'a fs_state_scheme) res" where
  "iget dev inum s =
     (case iget_scan (icache s) 0 dev inum None of
        Inl ip \<Rightarrow> Ok (ip, upd_ip ip (\<lambda>i. i\<lparr>i_ref := i_ref i + 1\<rparr>) s)
      | Inr None \<Rightarrow> Fail (Panic ''iget: no inodes'')
      | Inr (Some ip) \<Rightarrow>
          Ok (ip, upd_ip ip (\<lambda>i. i\<lparr>i_dev := dev, i_inum := inum, i_ref := 1, i_valid := False\<rparr>) s))"

primrec ialloc_loop :: "nat \<Rightarrow> u32 \<Rightarrow> u32 \<Rightarrow> u16 \<Rightarrow> 'a fs_state_scheme \<Rightarrow> (nat \<times> 'a fs_state_scheme) res" where
  "ialloc_loop 0 inum dev type s = Fail (Panic ''ialloc: no inodes'')"
| "ialloc_loop (Suc k) inum dev type s =
     bindr (bread dev (IBLOCK inum (sb s)) s) (\<lambda>(bp, s).
     if d_type (dinode_get (dip_off inum) (bdata bp s)) = 0 then
       bindr (log_write bp (set_bdata bp (dinode_put (dip_off inum)
           \<lparr>d_type = type, d_major = 0, d_minor = 0, d_nlink = 0, d_size = 0, d_addrs = replicate 13 0\<rparr>
           (bdata bp s)) s)) (\<lambda>s.
       bindr (brelse bp s) (\<lambda>s.
       iget dev inum s))
     else
       bindr (brelse bp s) (\<lambda>s.
       ialloc_loop k (inum + 1) dev type s))"

definition ialloc :: "u32 \<Rightarrow> u16 \<Rightarrow> 'a fs_state_scheme \<Rightarrow> (nat \<times> 'a fs_state_scheme) res" where
  "ialloc dev type s = ialloc_loop (unat (sb_ninodes (sb s)) - 1) 1 dev type s"

definition iupdate :: "nat \<Rightarrow> 'a fs_state_scheme \<Rightarrow> 'a fs_state_scheme res" where
  "iupdate ip s =
     bindr (bread (i_dev (ino ip s)) (IBLOCK (i_inum (ino ip s)) (sb s)) s) (\<lambda>(bp, s).
     let i = ino ip s in
     bindr (log_write bp (set_bdata bp (dinode_put (dip_off (i_inum i))
         \<lparr>d_type = i_type i, d_major = i_major i, d_minor = i_minor i, d_nlink = i_nlink i,
          d_size = i_size i, d_addrs = i_addrs i\<rparr> (bdata bp s)) s)) (\<lambda>s.
     brelse bp s))"

definition idup :: "nat \<Rightarrow> 'a fs_state_scheme \<Rightarrow> nat \<times> 'a fs_state_scheme" where
  "idup ip s = (ip, upd_ip ip (\<lambda>i. i\<lparr>i_ref := i_ref i + 1\<rparr>) s)"

definition ilock :: "nat \<Rightarrow> 'a fs_state_scheme \<Rightarrow> 'a fs_state_scheme res" where
  "ilock ip s =
     (if i_ref (ino ip s) < 1 then Fail (Panic ''ilock'')
      else
        bindr (acquiresleep (cur_pid s) (i_lock (ino ip s))) (\<lambda>lk.
        let s = upd_ip ip (\<lambda>i. i\<lparr>i_lock := lk\<rparr>) s in
        if \<not> i_valid (ino ip s) then
          bindr (bread (i_dev (ino ip s)) (IBLOCK (i_inum (ino ip s)) (sb s)) s) (\<lambda>(bp, s).
          let di = dinode_get (dip_off (i_inum (ino ip s))) (bdata bp s);
              s = upd_ip ip (\<lambda>i. i\<lparr>i_type := d_type di, i_major := d_major di, i_minor := d_minor di,
                    i_nlink := d_nlink di, i_size := d_size di, i_addrs := d_addrs di\<rparr>) s in
          bindr (brelse bp s) (\<lambda>s.
          let s = upd_ip ip (\<lambda>i. i\<lparr>i_valid := True\<rparr>) s in
          if i_type (ino ip s) = 0 then Fail (Panic ''ilock: no type'') else Ok s))
        else Ok s))"

definition iunlock :: "nat \<Rightarrow> 'a fs_state_scheme \<Rightarrow> 'a fs_state_scheme res" where
  "iunlock ip s =
     (if \<not> holdingsleep (i_lock (ino ip s)) \<or> i_ref (ino ip s) < 1 then Fail (Panic ''iunlock'')
      else Ok (upd_ip ip (\<lambda>i. i\<lparr>i_lock := releasesleep (i_lock i)\<rparr>) s))"

section \<open>Inode content\<close>

definition bmap :: "nat \<Rightarrow> u32 \<Rightarrow> 'a fs_state_scheme \<Rightarrow> (u32 \<times> 'a fs_state_scheme) res" where
  "bmap ip bn s =
     (if unat bn < NDIRECT then
        (let addr = i_addrs (ino ip s) ! unat bn in
         if addr = 0 then
           bindr (balloc (i_dev (ino ip s)) s) (\<lambda>(addr, s).
           Ok (addr, upd_ip ip (\<lambda>i. i\<lparr>i_addrs := (i_addrs i)[unat bn := addr]\<rparr>) s))
         else Ok (addr, s))
      else if unat bn - NDIRECT < NINDIRECT then
        bindr (let addr = i_addrs (ino ip s) ! NDIRECT in
               if addr = 0 then
                 bindr (balloc (i_dev (ino ip s)) s) (\<lambda>(addr, s).
                 Ok (addr, upd_ip ip (\<lambda>i. i\<lparr>i_addrs := (i_addrs i)[NDIRECT := addr]\<rparr>) s))
               else Ok (addr, s)) (\<lambda>(addr, s).
        bindr (bread (i_dev (ino ip s)) addr s) (\<lambda>(bp, s).
        let off = 4 * (unat bn - NDIRECT); addr = get32 off (bdata bp s) in
        if addr = 0 then
          bindr (balloc (i_dev (ino ip s)) s) (\<lambda>(addr, s).
          bindr (log_write bp (set_bdata bp (put32 off addr (bdata bp s)) s)) (\<lambda>s.
          bindr (brelse bp s) (\<lambda>s.
          Ok (addr, s))))
        else
          bindr (brelse bp s) (\<lambda>s.
          Ok (addr, s))))
      else Fail (Panic ''bmap: out of range''))"

primrec itrunc_direct :: "nat \<Rightarrow> nat \<Rightarrow> nat \<Rightarrow> 'a fs_state_scheme \<Rightarrow> 'a fs_state_scheme res" where
  "itrunc_direct 0 i ip s = Ok s"
| "itrunc_direct (Suc k) i ip s =
     (if i_addrs (ino ip s) ! i \<noteq> 0 then
        bindr (bfree (i_dev (ino ip s)) (i_addrs (ino ip s) ! i) s) (\<lambda>s.
        itrunc_direct k (Suc i) ip (upd_ip ip (\<lambda>j. j\<lparr>i_addrs := (i_addrs j)[i := 0]\<rparr>) s))
      else itrunc_direct k (Suc i) ip s)"

primrec itrunc_indirect :: "nat \<Rightarrow> nat \<Rightarrow> nat \<Rightarrow> u32 \<Rightarrow> 'a fs_state_scheme \<Rightarrow> 'a fs_state_scheme res" where
  "itrunc_indirect 0 j bp dev s = Ok s"
| "itrunc_indirect (Suc k) j bp dev s =
     (let a = get32 (4 * j) (bdata bp s) in
      if a \<noteq> 0 then bindr (bfree dev a s) (\<lambda>s. itrunc_indirect k (Suc j) bp dev s)
      else itrunc_indirect k (Suc j) bp dev s)"

definition itrunc :: "nat \<Rightarrow> 'a fs_state_scheme \<Rightarrow> 'a fs_state_scheme res" where
  "itrunc ip s =
     bindr (itrunc_direct NDIRECT 0 ip s) (\<lambda>s.
     bindr (if i_addrs (ino ip s) ! NDIRECT \<noteq> 0 then
              bindr (bread (i_dev (ino ip s)) (i_addrs (ino ip s) ! NDIRECT) s) (\<lambda>(bp, s).
              bindr (itrunc_indirect NINDIRECT 0 bp (i_dev (ino ip s)) s) (\<lambda>s.
              bindr (brelse bp s) (\<lambda>s.
              bindr (bfree (i_dev (ino ip s)) (i_addrs (ino ip s) ! NDIRECT) s) (\<lambda>s.
              Ok (upd_ip ip (\<lambda>i. i\<lparr>i_addrs := (i_addrs i)[NDIRECT := 0]\<rparr>) s)))))
            else Ok s) (\<lambda>s.
     iupdate ip (upd_ip ip (\<lambda>i. i\<lparr>i_size := 0\<rparr>) s)))"

definition iput :: "nat \<Rightarrow> 'a fs_state_scheme \<Rightarrow> 'a fs_state_scheme res" where
  "iput ip s =
     bindr (if i_ref (ino ip s) = 1 \<and> i_valid (ino ip s) \<and> i_nlink (ino ip s) = 0 then
              bindr (itrunc ip s) (\<lambda>s.
              bindr (iupdate ip (upd_ip ip (\<lambda>i. i\<lparr>i_type := 0\<rparr>) s)) (\<lambda>s.
              Ok (upd_ip ip (\<lambda>i. i\<lparr>i_valid := False\<rparr>) s)))
            else Ok s) (\<lambda>s.
     Ok (upd_ip ip (\<lambda>i. i\<lparr>i_ref := i_ref i - 1\<rparr>) s))"

definition iunlockput :: "nat \<Rightarrow> 'a fs_state_scheme \<Rightarrow> 'a fs_state_scheme res" where
  "iunlockput ip s = bindr (iunlock ip s) (iput ip)"

record stat =
  st_type :: u16
  st_dev :: u32
  st_ino :: u32
  st_nlink :: u16
  st_size :: u32

definition stati :: "nat \<Rightarrow> 'a fs_state_scheme \<Rightarrow> stat" where
  "stati ip s =
     (let i = ino ip s in
      \<lparr>st_type = i_type i, st_dev = i_dev i, st_ino = i_inum i, st_nlink = i_nlink i, st_size = i_size i\<rparr>)"

text \<open>
  The device table: for a major number the read function, which returns the bytes it
  stored and its result, and the write function.
\<close>

record 's devsw =
  dev_read :: "nat \<Rightarrow> (nat \<Rightarrow> u32 \<Rightarrow> 's \<Rightarrow> (int \<times> u8 list \<times> 's) res) option"
  dev_write :: "nat \<Rightarrow> (nat \<Rightarrow> u8 list \<Rightarrow> 's \<Rightarrow> (int \<times> 's) res) option"

function readi_loop ::
    "nat \<Rightarrow> nat \<Rightarrow> nat \<Rightarrow> 'a fs_state_scheme \<Rightarrow> (u8 list \<times> 'a fs_state_scheme) res" where
  "readi_loop n ip off s =
     (if n = 0 then Ok ([], s)
      else
        bindr (bmap ip (of_nat (off div BSIZE)) s) (\<lambda>(addr, s).
        bindr (bread (i_dev (ino ip s)) addr s) (\<lambda>(bp, s).
        let m = min n (BSIZE - off mod BSIZE); bytes = slice (off mod BSIZE) m (bdata bp s) in
        bindr (brelse bp s) (\<lambda>s.
        bindr (readi_loop (n - m) ip (off + m) s) (\<lambda>(rest, s).
        Ok (bytes @ rest, s))))))"
  by pat_completeness auto
termination
  by (relation "measure (\<lambda>(n, ip, off, s). n)") (auto simp: BSIZE_def)

declare readi_loop.simps [simp del]

definition readi :: "'a fs_state_scheme devsw \<Rightarrow> nat \<Rightarrow> u32 \<Rightarrow> u32 \<Rightarrow> 'a fs_state_scheme \<Rightarrow>
    (int \<times> u8 list \<times> 'a fs_state_scheme) res" where
  "readi devs ip off n s =
     (let i = ino ip s in
      if i_type i = T_DEV then
        if sint (i_major i) < 0 \<or> sint (i_major i) \<ge> NDEV then Ok (- 1, [], s)
        else (case dev_read devs (nat (sint (i_major i))) of
                None \<Rightarrow> Ok (- 1, [], s)
              | Some f \<Rightarrow> f ip n s)
      else if off > i_size i \<or> off + n < off then Ok (- 1, [], s)
      else
        (let n = (if off + n > i_size i then i_size i - off else n) in
         if i_type i = T_SFILE then
           (if n = 0 \<or> unat off + unat n \<le> 4 * length (i_addrs i)
            then Ok (sint n, slice (unat off) (unat n) (words_bytes (i_addrs i)), s)
            else Fail (Fault ''readi: read past ip->addrs''))
         else
           bindr (readi_loop (unat n) ip (unat off) s) (\<lambda>(bytes, s).
           Ok (sint n, bytes, s))))"

function writei_loop :: "u8 list \<Rightarrow> nat \<Rightarrow> nat \<Rightarrow> 'a fs_state_scheme \<Rightarrow> 'a fs_state_scheme res" where
  "writei_loop src ip off s =
     (if src = [] then Ok s
      else
        bindr (bmap ip (of_nat (off div BSIZE)) s) (\<lambda>(addr, s).
        bindr (bread (i_dev (ino ip s)) addr s) (\<lambda>(bp, s).
        let m = min (length src) (BSIZE - off mod BSIZE) in
        bindr (log_write bp (set_bdata bp (splice (off mod BSIZE) (take m src) (bdata bp s)) s)) (\<lambda>s.
        bindr (brelse bp s) (\<lambda>s.
        writei_loop (drop m src) ip (off + m) s)))))"
  by pat_completeness auto
termination
  by (relation "measure (\<lambda>(src, ip, off, s). length src)") (auto simp: BSIZE_def)

declare writei_loop.simps [simp del]

definition writei :: "'a fs_state_scheme devsw \<Rightarrow> nat \<Rightarrow> u8 list \<Rightarrow> u32 \<Rightarrow> 'a fs_state_scheme \<Rightarrow>
    (int \<times> 'a fs_state_scheme) res" where
  "writei devs ip src off s =
     (let i = ino ip s; n = of_nat (length src) in
      if i_type i = T_DEV then
        if sint (i_major i) < 0 \<or> sint (i_major i) \<ge> NDEV then Ok (- 1, s)
        else (case dev_write devs (nat (sint (i_major i))) of
                None \<Rightarrow> Ok (- 1, s)
              | Some f \<Rightarrow> f ip src s)
      else if off > i_size i \<or> off + n < off then Ok (- 1, s)
      else if unat (off + n) > MAXFILE * BSIZE then Ok (- 1, s)
      else
        bindr (if i_type i = T_SFILE then
                 (if src = [] \<or> unat off + length src \<le> 4 * length (i_addrs i)
                  then Ok (upd_ip ip (\<lambda>i. i\<lparr>i_addrs :=
                         bytes_words (splice (unat off) src (words_bytes (i_addrs i)))\<rparr>) s)
                  else Fail (Fault ''writei: write past ip->addrs''))
               else writei_loop src ip (unat off) s) (\<lambda>s.
        let off = off + n in
        bindr (if n > 0 \<and> off > i_size (ino ip s) then
                 iupdate ip (upd_ip ip (\<lambda>i. i\<lparr>i_size := off\<rparr>) s)
               else Ok s) (\<lambda>s.
        bindr (if i_type (ino ip s) = T_SFILE \<and> n > 0 \<and> off > i_size (ino ip s) then
                 iupdate ip (upd_ip ip (\<lambda>i. i\<lparr>i_size := off\<rparr>) s)
               else Ok s) (\<lambda>s.
        Ok (sint n, s)))))"

end
