(* ===== verification/Xv6_Inode.thy ===== *)
theory Xv6_Inode
  imports Xv6_Fs
begin

text \<open>
  Properties of the inodes of \<^verbatim>\<open>fs.c\<close>: the layout of a \<open>struct dinode\<close>, \<open>iupdate\<close> followed by
  \<open>ilock\<close> through the log and the buffer cache, and the content of small files.
\<close>

section \<open>The layers of the state\<close>

lemma fs_more:
  assumes "log_state.more s' = log_state.more s"
  shows "icache s' = icache s" "sb s' = sb s" "cwd s' = cwd s" "ino ip s' = ino ip s"
    "fs_state.more s' = fs_state.more s"
  using assms by (cases s; cases s'; simp add: ino_def)+

lemmas frame_fs = fs_more [OF same_frame_log(8)]

lemma log_frame_fs:
  assumes "log_frame s s'"
  shows "icache s' = icache s" "sb s' = sb s" "cwd s' = cwd s" "ino ip s' = ino ip s"
  using fs_more [of s' s] assms by (simp_all add: log_frame_def)

lemma upd_ip_layers [simp]:
  "bufs (upd_ip ip f s) = bufs s" "memdisk (upd_ip ip f s) = memdisk s" "disksize (upd_ip ip f s) = disksize s"
  "cur_pid (upd_ip ip f s) = cur_pid s" "sb (upd_ip ip f s) = sb s" "log_start (upd_ip ip f s) = log_start s"
  "log_size (upd_ip ip f s) = log_size s" "lh_n (upd_ip ip f s) = lh_n s" "lh_block (upd_ip ip f s) = lh_block s"
  "log_dev (upd_ip ip f s) = log_dev s" "log_outstanding (upd_ip ip f s) = log_outstanding s"
  "length (icache (upd_ip ip f s)) = length (icache s)"
  by (simp_all add: upd_ip_def)

lemma upd_ip_views [simp]:
  "view (upd_ip ip f s) = view s" "locked (upd_ip ip f s) = locked s" "dirty (upd_ip ip f s) = dirty s"
  "bio_inv (upd_ip ip f s) = bio_inv s" "block_ok b (upd_ip ip f s) = block_ok b s"
  by (simp_all add: bio_ext [of "upd_ip ip f s" s] block_ok_def)

lemma upd_ip_log_inv [simp]: "log_inv (upd_ip ip f s) = log_inv s"
  by (simp add: log_inv_def log_wf_def log_blocks_def)

lemma ino_upd_ip [simp]:
  "ip < length (icache s) \<Longrightarrow> ino jp (upd_ip ip f s) = (if jp = ip then f (ino ip s) else ino jp s)"
  by (simp add: ino_def upd_ip_def)

section \<open>The layout of a dinode\<close>

lemma length_dinode_bytes: "length (d_addrs di) = 13 \<Longrightarrow> length (dinode_bytes di) = 64"
  by (simp add: dinode_bytes_def)

lemma slice_append_left: "off + n \<le> length xs \<Longrightarrow> slice off n (xs @ ys) = slice off n xs"
  by (simp add: slice_def)

lemma slice_append_right: "length xs \<le> off \<Longrightarrow> slice off n (xs @ ys) = slice (off - length xs) n ys"
  by (simp add: slice_def)

lemma dinode_get_put:
  assumes "off + 64 \<le> length d" "length (d_addrs di) = 13"
  shows "dinode_get off (dinode_put off di d) = di"
proof -
  note len = length_dinode_bytes [OF assms(2)]
  have s: "slice (off + k) n (dinode_put off di d) = slice k n (dinode_bytes di)" if "k + n \<le> 64" for k n
    using slice_splice_inside [of off "dinode_bytes di" d "off + k" n] assms(1) len that
    by (simp add: dinode_put_def)
  have f: "slice 0 2 (dinode_bytes di) = le16 (d_type di)" "slice 2 2 (dinode_bytes di) = le16 (d_major di)"
    "slice 4 2 (dinode_bytes di) = le16 (d_minor di)" "slice 6 2 (dinode_bytes di) = le16 (d_nlink di)"
    "slice 8 4 (dinode_bytes di) = le32 (d_size di)" "slice 12 52 (dinode_bytes di) = words_bytes (d_addrs di)"
    using assms(2) by (simp_all add: dinode_bytes_def slice_append_left slice_append_right)
  show ?thesis
    using s [of 0 2] s [of 2 2] s [of 4 2] s [of 6 2] s [of 8 4] s [of 12 52] f
    by (simp add: dinode_get_def get16_def get32_def)
qed

lemma dinode_get_put_other:
  assumes "off + 64 \<le> length d" "off' + 64 \<le> length d" "off + 64 \<le> off' \<or> off' + 64 \<le> off" "length (d_addrs di) = 13"
  shows "dinode_get off' (dinode_put off di d) = dinode_get off' d"
proof -
  have s: "slice (off' + k) n (dinode_put off di d) = slice (off' + k) n d" if "k + n \<le> 64" for k n
    unfolding dinode_put_def
    by (rule slice_splice_disjoint) (use assms that length_dinode_bytes [OF assms(4)] in auto)
  show ?thesis
    using s [of 0 2] s [of 2 2] s [of 4 2] s [of 6 2] s [of 8 4] s [of 12 52]
    by (simp add: dinode_get_def get16_def get32_def)
qed

lemma dip_off_fits: "dip_off inum + 64 \<le> BSIZE"
proof -
  have "unat (inum mod IPB) < 8" by (simp add: IPB_def unat_mod)
  then show ?thesis by (simp add: dip_off_def BSIZE_def)
qed

lemma dip_off_disjoint:
  "dip_off i \<noteq> dip_off j \<Longrightarrow> dip_off i + 64 \<le> dip_off j \<or> dip_off j + 64 \<le> dip_off i"
  by (simp add: dip_off_def) linarith

section \<open>iupdate and ilock\<close>

definition dinode_of :: "inode \<Rightarrow> dinode" where
  "dinode_of i = \<lparr>d_type = i_type i, d_major = i_major i, d_minor = i_minor i, d_nlink = i_nlink i,
     d_size = i_size i, d_addrs = i_addrs i\<rparr>"

definition iblk :: "nat \<Rightarrow> 'a fs_state_scheme \<Rightarrow> u32" where
  "iblk ip s = IBLOCK (i_inum (ino ip s)) (sb s)"

text \<open>A transaction is open, with room for the inode block of \<open>ip\<close> in the log and the cache.\<close>

definition can_update :: "nat \<Rightarrow> 'a fs_state_scheme \<Rightarrow> bool" where
  "can_update ip s \<longleftrightarrow> log_inv s \<and> ip < length (icache s) \<and> i_dev (ino ip s) = 1 \<and> length (i_addrs (ino ip s)) = 13 \<and>
     block_ok (iblk ip s) s \<and> iblk ip s \<notin> locked s \<and> 1 \<le> log_outstanding s \<and> lh_n s < log_size s - 1 \<and>
     card (locked s) + nat (lh_n s) < NBUF"

lemma iupdate_spec:
  assumes "can_update ip s"
  obtains s' where "iupdate ip s = Ok s'" "log_inv s'"
    "view s' = (view s)(iblk ip s := dinode_put (dip_off (i_inum (ino ip s))) (dinode_of (ino ip s)) (view s (iblk ip s)))"
    "dirty s' = insert (iblk ip s) (dirty s)" "locked s' = locked s" "log_frame s s'" "lh_n s' \<le> lh_n s + 1"
proof -
  let ?d = "dinode_put (dip_off (i_inum (ino ip s))) (dinode_of (ino ip s)) (view s (iblk ip s))"
  have c: "log_inv s" "block_ok (iblk ip s) s" "iblk ip s \<notin> locked s" "1 \<le> log_outstanding s"
    "lh_n s < log_size s - 1" "card (locked s) + nat (lh_n s) < NBUF" "i_dev (ino ip s) = 1"
    "length (i_addrs (ino ip s)) = 13"
    using assms by (simp_all add: can_update_def)
  have vl: "length (view s (iblk ip s)) = BSIZE"
    by (rule bio.contents_length) (use c(1) in \<open>simp add: log_inv_def\<close>)
  have len: "length ?d = BSIZE"
    using vl dip_off_fits length_dinode_bytes [of "dinode_of (ino ip s)"] c(8)
    by (simp add: dinode_put_def dinode_of_def)
  obtain i s1 s2 s3 where u: "bread 1 (iblk ip s) s = Ok (i, s1)" "bdata i s1 = view s (iblk ip s)" "same_frame s s1"
    "log_write i (set_bdata i ?d s1) = Ok s2" "brelse i s2 = Ok s3" "log_inv s3" "view s3 = (view s)(iblk ip s := ?d)"
    "dirty s3 = insert (iblk ip s) (dirty s)" "locked s3 = locked s" "log_frame s s3" "lh_n s3 \<le> lh_n s + 1"
    by (rule log_update [OF c(1-3) len c(4-6)]) (simp split: if_splits)
  have "ino ip s1 = ino ip s" by (rule frame_fs(4) [OF u(3)])
  then have "iupdate ip s = Ok s3"
    using u(1,2,4,5) c(7) by (simp add: iupdate_def iblk_def [symmetric] dinode_of_def res_simps)
  then show ?thesis using u(6-11) by (intro that)
qed

lemma ilock_spec:
  fixes s :: "'a fs_state_scheme"
  assumes inv: "log_inv s" and ip: "ip < length (icache s)" "1 \<le> i_ref (ino ip s)" "\<not> sl_locked (i_lock (ino ip s))"
    "\<not> i_valid (ino ip s)" "i_dev (ino ip s) = 1"
    and b: "block_ok (iblk ip s) s" "iblk ip s \<notin> locked s" "iblk ip s \<in> dirty s \<or> card (locked s) + nat (lh_n s) < NBUF"
    and ty: "d_type (dinode_get (dip_off (i_inum (ino ip s))) (view s (iblk ip s))) \<noteq> 0"
  obtains s' where "ilock ip s = Ok s'" "log_inv s'" "view s' = view s" "sl_locked (i_lock (ino ip s'))" "i_valid (ino ip s')"
    "dinode_of (ino ip s') = dinode_get (dip_off (i_inum (ino ip s))) (view s (iblk ip s))"
proof -
  define t where "t = upd_ip ip (\<lambda>i. i\<lparr>i_lock := (i_lock (ino ip s))\<lparr>sl_locked := True, sl_pid := cur_pid s\<rparr>\<rparr>) s"
  have t: "log_inv t" "view t = view s" "locked t = locked s" "lh_n t = lh_n s" "dirty t = dirty s" "sb t = sb s" "length (icache t) = length (icache s)"
    "ino ip t = (ino ip s)\<lparr>i_lock := (i_lock (ino ip s))\<lparr>sl_locked := True, sl_pid := cur_pid s\<rparr>\<rparr>"
    using inv ip(1) by (simp_all add: t_def)
  have bt: "block_ok (iblk ip s) t" "iblk ip t = iblk ip s" using b(1) t(6,8) by (simp_all add: t_def iblk_def)
  obtain i s1 where r: "bread 1 (iblk ip s) t = Ok (i, s1)"
    using bio.read_progress [of t "iblk ip s"] bt(1) b(2,3) t(1,3,4,5) card_dirty(2) [OF t(1)]
    by (auto simp: log_inv_def block_ok_def)
  have bi: "bio_inv t" using t(1) by (simp add: log_inv_def)
  note rl = bio.read_law [OF bi r]
  have fr: "same_frame t s1" using rl by simp
  define di where "di = dinode_get (dip_off (i_inum (ino ip s))) (view s (iblk ip s))"
  have g: "bdata i s1 = view s (iblk ip s)" using bio.held_get [of s1 i "iblk ip s"] rl t(2) by simp
  define u where "u = upd_ip ip (\<lambda>i. i\<lparr>i_type := d_type di, i_major := d_major di, i_minor := d_minor di,
                    i_nlink := d_nlink di, i_size := d_size di, i_addrs := d_addrs di\<rparr>) s1"
  have is1: "log_inv s1" using log_inv_frame [OF t(1)] rl by simp
  have hu: "bio_inv u" "holds u i (iblk ip s)" "iblk ip s \<in> dirty u \<or> view u (iblk ip s) = memdisk u (iblk ip s)"
    using rl bio.clean_law [OF bi, of "iblk ip s"] b(2) t(3) bio_ext(5) [of u s1] by (auto simp: u_def)
  obtain s2 where s2: "brelse i u = Ok s2" "bio_inv s2" "view s2 = view u" "same_frame u s2" "memdisk s2 = memdisk u" "dirty s2 = dirty u"
    using bio.release_law [OF hu] by blast
  have is2: "log_inv s2" using log_inv_frame [of u s2] is1 s2 by (simp add: u_def)
  have i1: "ino ip s1 = ino ip t" "length (icache s1) = length (icache s)" "sb s1 = sb s"
    using frame_fs [OF fr] t(6,7) by simp_all
  have i2: "ino ip s2 = ino ip u" "length (icache s2) = length (icache s)"
    using frame_fs [OF s2(4)] i1(2) by (simp_all add: u_def)
  have iu: "ino ip u = (ino ip t)\<lparr>i_type := d_type di, i_major := d_major di, i_minor := d_minor di,
                    i_nlink := d_nlink di, i_size := d_size di, i_addrs := d_addrs di\<rparr>"
    using i1 ip(1) by (simp add: u_def)
  define v where "v = upd_ip ip (\<lambda>i. i\<lparr>i_valid := True\<rparr>) s2"
  have iv: "ino ip v = (ino ip u)\<lparr>i_valid := True\<rparr>" using i2 ip(1) by (simp add: v_def)
  have "ilock ip s = Ok v"
    using ip r g s2(1) ty iv iu t(8) i1
    by (simp add: ilock_def acquiresleep_def res_simps t_def [symmetric] iblk_def [symmetric] bt(2) di_def [symmetric]
        u_def [symmetric] v_def [symmetric])
  moreover have "view v = view s" using s2(3) rl t(2) by (simp add: v_def u_def)
  moreover have "dinode_of (ino ip v) = di" using iv iu by (simp add: dinode_of_def)
  ultimately show ?thesis using is2 iv iu t(8) by (intro that [of v]) (simp_all add: v_def di_def)
qed

text \<open>
  The inode cache has other contents: the entries are recycled by \<open>iget\<close> without a write.
  An entry just allocated by \<open>iget\<close> is referenced, unlocked and not valid.
\<close>

definition fresh_entry :: "nat \<Rightarrow> u32 \<Rightarrow> inode list \<Rightarrow> bool" where
  "fresh_entry jp inum c \<longleftrightarrow> jp < length c \<and> 1 \<le> i_ref (c ! jp) \<and> \<not> sl_locked (i_lock (c ! jp)) \<and>
     \<not> i_valid (c ! jp) \<and> i_dev (c ! jp) = 1 \<and> i_inum (c ! jp) = inum"

lemma icache_layers [simp]:
  fixes s :: "'a fs_state_scheme"
  shows "view (s\<lparr>icache := c\<rparr>) = view s" "locked (s\<lparr>icache := c\<rparr>) = locked s" "dirty (s\<lparr>icache := c\<rparr>) = dirty s"
    "log_inv (s\<lparr>icache := c\<rparr>) = log_inv s" "block_ok b (s\<lparr>icache := c\<rparr>) = block_ok b s"
proof -
  have "bio_inv (s\<lparr>icache := c\<rparr>) = bio_inv s" by (rule bio_ext) simp_all
  moreover show "dirty (s\<lparr>icache := c\<rparr>) = dirty s" by (rule bio_ext) simp_all
  ultimately show "log_inv (s\<lparr>icache := c\<rparr>) = log_inv s" by (simp add: log_inv_def log_wf_def log_blocks_def)
  show "view (s\<lparr>icache := c\<rparr>) = view s" "locked (s\<lparr>icache := c\<rparr>) = locked s" by (rule bio_ext; simp)+
  show "block_ok b (s\<lparr>icache := c\<rparr>) = block_ok b s" by (simp add: block_ok_def)
qed

text \<open>\<open>ilock\<close> of a fresh entry finds what the inode block holds.\<close>

lemma ilock_fresh:
  fixes s :: "'a fs_state_scheme"
  assumes inv: "log_inv s" and e: "fresh_entry jp inum c"
    and b: "block_ok (IBLOCK inum (sb s)) s" "IBLOCK inum (sb s) \<notin> locked s"
      "IBLOCK inum (sb s) \<in> dirty s \<or> card (locked s) + nat (lh_n s) < NBUF"
    and di: "dinode_get (dip_off inum) (view s (IBLOCK inum (sb s))) = di" "d_type di \<noteq> 0"
  shows "\<exists>s'. ilock jp (s\<lparr>icache := c\<rparr>) = Ok s' \<and> dinode_of (ino jp s') = di"
proof -
  let ?s = "s\<lparr>icache := c\<rparr>"
  have i: "jp < length (icache ?s)" "1 \<le> i_ref (ino jp ?s)" "\<not> sl_locked (i_lock (ino jp ?s))" "\<not> i_valid (ino jp ?s)"
    "i_dev (ino jp ?s) = 1" "i_inum (ino jp ?s) = inum"
    using e by (simp_all add: fresh_entry_def ino_def)
  have k: "iblk jp ?s = IBLOCK inum (sb s)" using i(6) by (simp add: iblk_def)
  obtain s' where "ilock jp ?s = Ok s'"
    "dinode_of (ino jp s') = dinode_get (dip_off (i_inum (ino jp ?s))) (view ?s (iblk jp ?s))"
    by (rule ilock_spec [of ?s jp]) (use inv i b di k in simp_all)
  then show ?thesis using i(6) k di by auto
qed

section \<open>Small files\<close>

text \<open>\<open>sfile_ok\<close>: the content of a small file lies in its inode.\<close>

definition sfile_ok :: "inode \<Rightarrow> bool" where
  "sfile_ok i \<longleftrightarrow> i_type i = T_SFILE \<and> length (i_addrs i) = 13 \<and> i_size i \<le> 52"

definition sfile_data :: "inode \<Rightarrow> u8 list" where
  "sfile_data i = take (unat (i_size i)) (words_bytes (i_addrs i))"

lemma sfile_guards:
  assumes "unat off + length src \<le> 52" "n = (of_nat (length src) :: u32)"
  shows "unat n = length src" "unat (off + n) = unat off + length src" "\<not> off + n < off"
    "\<not> MAXFILE * BSIZE < unat (off + n)" "sint n = int (length src)"
proof -
  show n: "unat n = length src" using assms by (simp add: unat_of_nat take_bit_nat_eq_self)
  show o: "unat (off + n) = unat off + length src" using unat_add_no_wrap [of off n] n assms(1) by simp
  then show "\<not> off + n < off" "\<not> MAXFILE * BSIZE < unat (off + n)"
    using assms(1) by (simp_all add: word_less_nat_alt fs_consts)
  have "uint n = int (length src)" using n by (metis uint_nat)
  then show "sint n = int (length src)"
    using assms(1) by (simp add: sint_uint signed_take_bit_int_eq_self)
qed

lemma can_update_upd:
  assumes "can_update ip s" "\<And>i. i_dev (f i) = i_dev i" "\<And>i. i_inum (f i) = i_inum i"
    "length (i_addrs (f (ino ip s))) = 13"
  shows "can_update ip (upd_ip ip f s)"
  using assms by (simp add: can_update_def iblk_def)

text \<open>The inode that \<open>writei\<close> leaves behind for a small file.\<close>

definition sfile_put :: "nat \<Rightarrow> u8 list \<Rightarrow> inode \<Rightarrow> inode" where
  "sfile_put off src i = i\<lparr>i_addrs := bytes_words (splice off src (words_bytes (i_addrs i)))\<rparr>"

lemma sfile_put_facts:
  assumes "sfile_ok i" "off + length src \<le> 52"
  shows "words_bytes (i_addrs (sfile_put off src i)) = splice off src (words_bytes (i_addrs i))"
    "length (i_addrs (sfile_put off src i)) = 13" "i_type (sfile_put off src i) = T_SFILE"
    "i_size (sfile_put off src i) = i_size i"
proof -
  have "length (splice off src (words_bytes (i_addrs i))) = 4 * 13"
    using assms by (simp add: sfile_ok_def)
  then show "words_bytes (i_addrs (sfile_put off src i)) = splice off src (words_bytes (i_addrs i))"
    "length (i_addrs (sfile_put off src i)) = 13"
    by (simp_all add: sfile_put_def words_bytes_bytes_words length_bytes_words)
qed (use assms in \<open>simp_all add: sfile_put_def sfile_ok_def\<close>)

text \<open>An overwrite inside the file changes the cached inode only; a write past its end is recorded.\<close>

lemma writei_sfile_inside:
  assumes "sfile_ok (ino ip s)" "ip < length (icache s)" "unat off + length src \<le> unat (i_size (ino ip s))"
  shows "writei devs ip src off s = Ok (int (length src), upd_ip ip (sfile_put (unat off) src) s)"
proof -
  have b: "unat off + length src \<le> 52" using assms by (simp add: sfile_ok_def word_le_nat_alt)
  note g = sfile_guards [OF b refl]
  have "\<not> i_size (ino ip s) < off" "\<not> i_size (ino ip s) < off + of_nat (length src)"
    using assms(3) g(2) by (simp_all add: word_less_nat_alt)
  then show ?thesis
    using assms b g sfile_put_facts [OF assms(1) b]
    by (simp add: writei_def Let_def fs_types sfile_ok_def res_simps sfile_put_def [abs_def])
qed

lemma writei_sfile_grow:
  assumes "sfile_ok (ino ip s)" "can_update ip s" "off \<le> i_size (ino ip s)"
    "unat (i_size (ino ip s)) < unat off + length src" "unat off + length src \<le> 52"
  obtains s' where "writei devs ip src off s = Ok (int (length src), s')"
    "ino ip s' = (sfile_put (unat off) src (ino ip s))\<lparr>i_size := off + of_nat (length src)\<rparr>"
    "iupdate ip (upd_ip ip (\<lambda>i. (sfile_put (unat off) src i)\<lparr>i_size := off + of_nat (length src)\<rparr>) s) = Ok s'"
proof -
  let ?n = "of_nat (length src) :: u32"
  let ?f = "\<lambda>i. (sfile_put (unat off) src i)\<lparr>i_size := off + ?n\<rparr>"
  note g = sfile_guards [OF assms(5) refl]
  note p = sfile_put_facts [OF assms(1,5)]
  have l: "ip < length (icache s)" using assms(2) by (simp add: can_update_def)
  have "can_update ip (upd_ip ip ?f s)"
    by (rule can_update_upd [OF assms(2)]) (use p in \<open>simp_all add: sfile_put_def\<close>)
  then obtain s' where u: "iupdate ip (upd_ip ip ?f s) = Ok s'" "log_frame (upd_ip ip ?f s) s'"
    by (rule iupdate_spec)
  have i: "ino ip s' = ?f (ino ip s)" using log_frame_fs(4) [OF u(2)] l by simp
  have two: "upd_ip ip (\<lambda>i. i\<lparr>i_size := off + ?n\<rparr>) (upd_ip ip (\<lambda>i. i\<lparr>i_addrs :=
      bytes_words (splice (unat off) src (words_bytes (i_addrs i)))\<rparr>) s) = upd_ip ip ?f s"
    using l by (simp add: upd_ip_def sfile_put_def)
  have c: "\<not> i_size (ino ip s) < off" "i_size (ino ip s) < off + ?n" "?n > 0"
    using assms(3,4) g(1,2) by (auto simp: word_less_nat_alt word_le_nat_alt)
  have "writei devs ip src off s = Ok (int (length src), s')"
    using assms(1,5) l g c p u(1) i two
    by (simp add: writei_def Let_def fs_types sfile_ok_def res_simps)
  then show ?thesis using that i u(1) by blast
qed

lemma take_splice:
  assumes "off \<le> sz" "sz \<le> length w" "off + length src \<le> length w"
  shows "take (max sz (off + length src)) (splice off src w) =
    take off (take sz w) @ src @ drop (off + length src) (take sz w)"
proof (cases "src = []")
  case True
  then show ?thesis using assms append_take_drop_id [of off "take sz w"] by (simp add: max_def del: append_take_drop_id)
next
  case False
  then obtain k where "length src = Suc k" by (cases src) auto
  then show ?thesis
    using assms by (cases "sz \<le> off + length src") (auto simp: splice_def max_def min_def drop_take)
qed

definition sfile_after :: "u32 \<Rightarrow> u8 list \<Rightarrow> inode \<Rightarrow> inode \<Rightarrow> bool" where
  "sfile_after off src i j \<longleftrightarrow> sfile_ok j \<and> words_bytes (i_addrs j) = splice (unat off) src (words_bytes (i_addrs i)) \<and>
     unat (i_size j) = max (unat (i_size i)) (unat off + length src)"

lemma writei_sfile:
  assumes "sfile_ok (ino ip s)" "can_update ip s" "off \<le> i_size (ino ip s)" "unat off + length src \<le> 52"
  obtains s' where "writei devs ip src off s = Ok (int (length src), s')" "sfile_after off src (ino ip s) (ino ip s')"
proof (cases "unat off + length src \<le> unat (i_size (ino ip s))")
  case True
  have l: "ip < length (icache s)" using assms(2) by (simp add: can_update_def)
  have "sfile_after off src (ino ip s) (sfile_put (unat off) src (ino ip s))"
    using sfile_put_facts [OF assms(1,4)] assms(1) True by (simp add: sfile_after_def sfile_ok_def)
  then show ?thesis using writei_sfile_inside [OF assms(1) l True] l by (intro that) auto
next
  case False
  note g = sfile_guards [OF assms(4) refl]
  obtain s' where s': "writei devs ip src off s = Ok (int (length src), s')"
    "ino ip s' = (sfile_put (unat off) src (ino ip s))\<lparr>i_size := off + of_nat (length src)\<rparr>"
    using writei_sfile_grow [OF assms(1-3) _ assms(4)] False by (metis not_le)
  have "sfile_after off src (ino ip s) (ino ip s')"
    using sfile_put_facts [OF assms(1,4)] g(2) False assms(4) s'(2)
    by (simp add: sfile_after_def sfile_ok_def word_le_nat_alt)
  then show ?thesis using that s'(1) by blast
qed

lemma readi_sfile:
  assumes "sfile_after off src i (ino ip s)" "sfile_ok i" "unat off + length src \<le> 52"
  shows "readi devs ip off (of_nat (length src)) s = Ok (int (length src), src, s)"
proof -
  note g = sfile_guards [OF assms(3) refl]
  have a: "words_bytes (i_addrs (ino ip s)) = splice (unat off) src (words_bytes (i_addrs i))"
    "unat off + length src \<le> unat (i_size (ino ip s))" "i_type (ino ip s) = T_SFILE" "length (i_addrs (ino ip s)) = 13"
    using assms(1) by (auto simp: sfile_after_def sfile_ok_def)
  have c: "\<not> i_size (ino ip s) < off" "\<not> i_size (ino ip s) < off + of_nat (length src)"
    using a(2) g(2) by (simp_all add: word_less_nat_alt)
  have "slice (unat off) (length src) (splice (unat off) src (words_bytes (i_addrs i))) = src"
    using assms(2,3) by (simp add: sfile_ok_def)
  then show ?thesis using a c g assms(3) by (simp add: readi_def Let_def fs_types)
qed

section \<open>A sample file system\<close>

text \<open>A log state with the fields of the file system added is in the same abstract state.\<close>

lemma extend_views:
  fixes s :: log_state
  shows "bufs (log_state.extend s m) = bufs s" "memdisk (log_state.extend s m) = memdisk s"
    "disksize (log_state.extend s m) = disksize s" "view (log_state.extend s m) = view s"
    "locked (log_state.extend s m) = locked s" "dirty (log_state.extend s m) = dirty s"
    "log_inv (log_state.extend s m) = log_inv s" "log_start (log_state.extend s m) = log_start s"
    "log_size (log_state.extend s m) = log_size s" "lh_n (log_state.extend s m) = lh_n s"
    "log_outstanding (log_state.extend s m) = log_outstanding s" "log_state.more (log_state.extend s m) = m"
proof -
  show f: "bufs (log_state.extend s m) = bufs s" "memdisk (log_state.extend s m) = memdisk s"
    "disksize (log_state.extend s m) = disksize s" "log_start (log_state.extend s m) = log_start s"
    "log_size (log_state.extend s m) = log_size s" "lh_n (log_state.extend s m) = lh_n s"
    "log_outstanding (log_state.extend s m) = log_outstanding s" "log_state.more (log_state.extend s m) = m"
    by (simp_all add: log_state.defs)
  have g: "lh_block (log_state.extend s m) = lh_block s" "log_dev (log_state.extend s m) = log_dev s"
    by (simp_all add: log_state.defs)
  have "cached (log_state.extend s m) = cached s" by (simp add: fun_eq_iff cached_def f)
  then show "view (log_state.extend s m) = view s"
    by (auto simp: fun_eq_iff view_def bdata_def f split: option.split)
  show d: "locked (log_state.extend s m) = locked s" "dirty (log_state.extend s m) = dirty s"
    by (simp_all add: locked_def dirty_def f)
  show "log_inv (log_state.extend s m) = log_inv s"
    by (simp add: log_inv_def log_wf_def log_blocks_def bio_inv_def d f g)
qed

text \<open>Small file number 5, of three bytes, in entry 0; entry 1 of another cache is recycled for it.\<close>

definition sample_inode :: inode where
  "sample_inode = \<lparr>i_dev = 1, i_inum = 5, i_ref = 1, i_lock = initsleeplock, i_valid = True, i_type = T_SFILE,
     i_major = 0, i_minor = 0, i_nlink = 1, i_size = 3, i_addrs = 0x00636261 # replicate 12 0\<rparr>"

definition sample_cache :: "inode list" where
  "sample_cache = [sample_inode, sample_inode\<lparr>i_valid := False, i_type := 0, i_size := 0, i_addrs := replicate 13 0\<rparr>]"

definition sample_superblock :: superblock where
  "sample_superblock = \<lparr>sb_size = 1000, sb_nblocks = 941, sb_ninodes = 200, sb_nlog = 30, sb_logstart = 2,
     sb_inodestart = 32, sb_bmapstart = 58\<rparr>"

lemma sample_fs:
  obtains s :: fs_state where "can_update 0 s" "ino 0 s = sample_inode" "fresh_entry 1 5 sample_cache"
    "icache s = sample_cache" "sb s = sample_superblock" "lh_n s = 1" "log_size s = 30" "locked s = {}"
proof -
  obtain l :: log_state where l: "log_inv l" "locked l = {}" "log_start l = 2" "log_size l = 30" "lh_n l = 1"
    "log_outstanding l = 1" "disksize l = 1000"
    using sample_txn by metis
  define s where "s = log_state.extend l (fs_state.fields sample_superblock sample_cache 0)"
  have m: "log_state.more s = fs_state.fields sample_superblock sample_cache 0" by (simp add: s_def extend_views)
  have f: "icache s = sample_cache" "sb s = sample_superblock"
    using m by (cases s; simp add: fs_state.defs)+
  have e: "log_inv s = log_inv l" "locked s = locked l" "log_start s = log_start l" "log_size s = log_size l"
    "lh_n s = lh_n l" "log_outstanding s = log_outstanding l" "disksize s = disksize l"
    by (simp_all add: s_def extend_views)
  have i: "ino 0 s = sample_inode" by (simp add: ino_def f sample_cache_def)
  have b: "iblk 0 s = 32" by (simp add: iblk_def i f sample_inode_def sample_superblock_def IBLOCK_def IPB_def)
  have "can_update 0 s"
    unfolding can_update_def i b f block_ok_def e
    using l by (simp add: sample_cache_def sample_inode_def in_log_def NBUF_def)
  moreover have "fresh_entry 1 5 sample_cache"
    by (simp add: fresh_entry_def sample_cache_def sample_inode_def initsleeplock_def)
  ultimately show ?thesis using that i f e l by metis
qed

definition devs0 :: "fs_state devsw" where
  "devs0 = \<lparr>dev_read = (\<lambda>_. None), dev_write = (\<lambda>_. None)\<rparr>"

text \<open>The same with the inode written to its block.\<close>

lemma sample_fs_synced:
  obtains s :: fs_state where "can_update 0 s" "ino 0 s = sample_inode" "fresh_entry 1 5 sample_cache"
    "dinode_get (dip_off 5) (view s (iblk 0 s)) = dinode_of sample_inode"
proof -
  obtain s :: fs_state where s: "can_update 0 s" "ino 0 s = sample_inode" "fresh_entry 1 5 sample_cache"
    "icache s = sample_cache" "sb s = sample_superblock" "lh_n s = 1" "log_size s = 30" "locked s = {}"
    by (rule sample_fs)
  obtain s1 where u: "iupdate 0 s = Ok s1" "log_inv s1"
    "view s1 = (view s)(iblk 0 s := dinode_put (dip_off (i_inum (ino 0 s))) (dinode_of (ino 0 s)) (view s (iblk 0 s)))"
    "locked s1 = locked s" "log_frame s s1" "lh_n s1 \<le> lh_n s + 1"
    by (rule iupdate_spec [OF s(1)])
  have g: "ino 0 s1 = ino 0 s" "icache s1 = icache s" "sb s1 = sb s" using log_frame_fs [OF u(5)] by simp_all
  then have b: "iblk 0 s1 = iblk 0 s" by (simp add: iblk_def)
  have fr: "disksize s1 = disksize s" "log_start s1 = log_start s" "log_size s1 = log_size s"
    "log_outstanding s1 = log_outstanding s"
    using u(5) by (simp_all add: log_frame_def)
  have "can_update 0 s1"
    using s(1) u(2,4,6) s(6-8) unfolding can_update_def b g block_ok_def fr by (simp add: NBUF_def)
  moreover have "length (view s (iblk 0 s)) = BSIZE"
    by (rule bio.contents_length) (use s(1) in \<open>simp add: can_update_def log_inv_def\<close>)
  then have "dinode_get (dip_off 5) (view s1 (iblk 0 s1)) = dinode_of sample_inode"
    using u(3) b s(2) dinode_get_put [of "dip_off 5" "view s (iblk 0 s)" "dinode_of sample_inode"] dip_off_fits [of 5]
    by (simp add: sample_inode_def dinode_of_def)
  ultimately show ?thesis using that s(2,3) g by metis
qed

section \<open>Properties\<close>

text \<open>
  C13. What \<open>iupdate\<close> writes is what \<open>ilock\<close> reads: inside a transaction with room \<open>iupdate\<close> succeeds,
  and when the inode is loaded again into any recycled entry of the inode cache, \<open>ilock\<close>
  restores its type, device numbers, link count, size and addresses.  The other inodes of
  the same block keep their content.
\<close>

theorem iupdate_ilock:
  assumes "can_update ip s" "i_type (ino ip s) \<noteq> 0"
  shows "\<exists>s1. iupdate ip s = Ok s1 \<and>
    (\<forall>c jp. fresh_entry jp (i_inum (ino ip s)) c \<longrightarrow>
       (\<exists>s2. ilock jp (s1\<lparr>icache := c\<rparr>) = Ok s2 \<and> dinode_of (ino jp s2) = dinode_of (ino ip s))) \<and>
    (\<forall>j. dip_off j \<noteq> dip_off (i_inum (ino ip s)) \<longrightarrow>
       dinode_get (dip_off j) (view s1 (iblk ip s)) = dinode_get (dip_off j) (view s (iblk ip s)))"
proof -
  let ?o = "dip_off (i_inum (ino ip s))" and ?b = "IBLOCK (i_inum (ino ip s)) (sb s)"
  have c: "log_inv s" "length (i_addrs (ino ip s)) = 13" "block_ok ?b s" "?b \<notin> locked s"
    using assms(1) by (simp_all add: can_update_def iblk_def)
  have a: "length (d_addrs (dinode_of (ino ip s))) = 13" using c(2) by (simp add: dinode_of_def)
  have vl: "length (view s ?b) = BSIZE" by (rule bio.contents_length) (use c(1) in \<open>simp add: log_inv_def\<close>)
  obtain s1 where s1: "iupdate ip s = Ok s1" "log_inv s1"
    "view s1 = (view s)(?b := dinode_put ?o (dinode_of (ino ip s)) (view s ?b))"
    "dirty s1 = insert ?b (dirty s)" "locked s1 = locked s" "log_frame s s1"
    using iupdate_spec [OF assms(1)] unfolding iblk_def by metis
  have q: "sb s1 = sb s" "block_ok ?b s1" using log_frame_fs [OF s1(6)] s1(6) c(3) by (simp_all add: block_ok_def log_frame_def)
  have g: "dinode_get ?o (view s1 ?b) = dinode_of (ino ip s)"
    using dinode_get_put [OF _ a] dip_off_fits vl s1(3) by simp
  have "\<exists>s2. ilock jp (s1\<lparr>icache := c'\<rparr>) = Ok s2 \<and> dinode_of (ino jp s2) = dinode_of (ino ip s)"
    if "fresh_entry jp (i_inum (ino ip s)) c'" for jp c'
    by (rule ilock_fresh [OF s1(2) that]) (use q g s1(4,5) c(4) assms(2) in \<open>simp_all add: dinode_of_def\<close>)
  moreover have "dinode_get (dip_off j) (view s1 ?b) = dinode_get (dip_off j) (view s ?b)" if "dip_off j \<noteq> ?o" for j
    using dinode_get_put_other [OF _ _ _ a, of ?o "view s ?b" "dip_off j"] dip_off_disjoint [OF that] dip_off_fits vl s1(3) by auto
  ultimately show ?thesis using s1(1) by (auto simp: iblk_def)
qed

theorem iupdate_ilock_witness:
  "\<exists>(s :: fs_state) s1 s2. iupdate 0 s = Ok s1 \<and> ilock 1 (s1\<lparr>icache := sample_cache\<rparr>) = Ok s2 \<and>
     i_size (ino 1 s2) = 3 \<and> i_type (ino 1 s2) = T_SFILE"
proof -
  obtain s :: fs_state where s: "can_update 0 s" "ino 0 s = sample_inode" "fresh_entry 1 5 sample_cache"
    by (rule sample_fs)
  then have n: "i_type (ino 0 s) \<noteq> 0" "i_inum (ino 0 s) = 5" by (simp_all add: sample_inode_def fs_types)
  obtain s1 s2 where r: "iupdate 0 s = Ok s1" "ilock 1 (s1\<lparr>icache := sample_cache\<rparr>) = Ok s2"
    "dinode_of (ino 1 s2) = dinode_of (ino 0 s)"
    using iupdate_ilock [OF s(1) n(1)] s(3) n(2) by metis
  then have "i_size (ino 1 s2) = 3 \<and> i_type (ino 1 s2) = T_SFILE"
    using s(2) by (simp add: dinode_of_def sample_inode_def)
  with r show ?thesis by blast
qed

text \<open>
  C14. Reading a small file returns what was written: a write of at most 52 bytes in all, at
  an offset inside the file or at its end, succeeds; the file then holds the old bytes
  with the new ones in their place, is as long as the write needs, and a read at the same
  offset returns the bytes written.
\<close>

theorem sfile_write_read:
  assumes "sfile_ok (ino ip s)" "can_update ip s" "off \<le> i_size (ino ip s)" "unat off + length src \<le> 52"
  shows "\<exists>s'. writei devs ip src off s = Ok (int (length src), s') \<and> sfile_ok (ino ip s') \<and>
    unat (i_size (ino ip s')) = max (unat (i_size (ino ip s))) (unat off + length src) \<and>
    sfile_data (ino ip s') = take (unat off) (sfile_data (ino ip s)) @ src @ drop (unat off + length src) (sfile_data (ino ip s)) \<and>
    readi devs ip off (of_nat (length src)) s' = Ok (int (length src), src, s')"
proof -
  obtain s' where w: "writei devs ip src off s = Ok (int (length src), s')" and a: "sfile_after off src (ino ip s) (ino ip s')"
    by (rule writei_sfile [OF assms])
  have "sfile_data (ino ip s') =
      take (unat off) (sfile_data (ino ip s)) @ src @ drop (unat off + length src) (sfile_data (ino ip s))"
    unfolding sfile_data_def using a assms
    by (subst take_splice [symmetric]) (auto simp: sfile_after_def sfile_ok_def word_le_nat_alt)
  then show ?thesis using w a readi_sfile [OF a assms(1,4)] by (auto simp: sfile_after_def)
qed

theorem sfile_write_read_witness:
  "\<exists>(s :: fs_state) s'. writei devs0 0 [0x78, 0x79] 2 s = Ok (2, s') \<and> sfile_data (ino 0 s') = [0x61, 0x62, 0x78, 0x79] \<and>
     readi devs0 0 2 2 s' = Ok (2, [0x78, 0x79], s')"
proof -
  obtain s :: fs_state where s: "can_update 0 s" "ino 0 s = sample_inode" by (rule sample_fs)
  have d: "sfile_data sample_inode = [0x61, 0x62, 0x63]" by code_simp
  have "sfile_ok (ino 0 s)" using s(2) by (simp add: sfile_ok_def sample_inode_def)
  then show ?thesis
    using sfile_write_read [of 0 s 2 "[0x78, 0x79]" devs0] s d by (auto simp: sample_inode_def)
qed

text \<open>
  C29. An overwrite inside a small file does not survive: the write succeeds and changes the
  inode in the cache, but no block, since \<open>writei\<close> calls \<open>iupdate\<close> only when the file grows.
  When the inode is loaded again into a recycled entry, \<open>ilock\<close> finds the old content.
\<close>

theorem sfile_overwrite_lost:
  assumes "sfile_ok (ino ip s)" "can_update ip s" "unat off + length src \<le> unat (i_size (ino ip s))"
    "dinode_get (dip_off (i_inum (ino ip s))) (view s (iblk ip s)) = dinode_of (ino ip s)"
    "fresh_entry jp (i_inum (ino ip s)) c"
  shows "\<exists>s1 s2. writei devs ip src off s = Ok (int (length src), s1) \<and>
    slice (unat off) (length src) (sfile_data (ino ip s1)) = src \<and> view s1 = view s \<and>
    ilock jp (s1\<lparr>icache := c\<rparr>) = Ok s2 \<and> sfile_data (ino jp s2) = sfile_data (ino ip s)"
proof -
  let ?s1 = "upd_ip ip (sfile_put (unat off) src) s"
  have l: "ip < length (icache s)" "log_inv s" "block_ok (iblk ip s) s" "iblk ip s \<notin> locked s"
    "card (locked s) + nat (lh_n s) < NBUF"
    using assms(2) by (simp_all add: can_update_def)
  have b: "unat off + length src \<le> 52" using assms(1,3) by (simp add: sfile_ok_def word_le_nat_alt)
  note p = sfile_put_facts [OF assms(1) b]
  have w: "writei devs ip src off s = Ok (int (length src), ?s1)" by (rule writei_sfile_inside [OF assms(1) l(1) assms(3)])
  have "slice (unat off) (length src) (sfile_data (ino ip ?s1)) = src"
    using p l(1) assms(1,3) b by (simp add: sfile_data_def slice_def drop_take splice_def sfile_ok_def)
  moreover have "d_type (dinode_of (ino ip s)) \<noteq> 0" using assms(1) by (simp add: dinode_of_def sfile_ok_def fs_types)
  then obtain s2 where "ilock jp (?s1\<lparr>icache := c\<rparr>) = Ok s2" "dinode_of (ino jp s2) = dinode_of (ino ip s)"
    using ilock_fresh [of ?s1 jp "i_inum (ino ip s)" c] assms(4,5) l by (auto simp: iblk_def)
  ultimately show ?thesis using w by (auto simp: dinode_of_def sfile_data_def)
qed

theorem sfile_overwrite_lost_witness:
  "\<exists>(s :: fs_state) s1 s2. writei devs0 0 [0x78] 0 s = Ok (1, s1) \<and> slice 0 1 (sfile_data (ino 0 s1)) = [0x78] \<and>
     ilock 1 (s1\<lparr>icache := sample_cache\<rparr>) = Ok s2 \<and> sfile_data (ino 1 s2) = [0x61, 0x62, 0x63]"
proof -
  obtain s :: fs_state where s: "can_update 0 s" "ino 0 s = sample_inode" "fresh_entry 1 5 sample_cache"
    "dinode_get (dip_off 5) (view s (iblk 0 s)) = dinode_of sample_inode"
    by (rule sample_fs_synced)
  have d: "sfile_data sample_inode = [0x61, 0x62, 0x63]" by code_simp
  have i: "sfile_ok sample_inode" "i_inum sample_inode = 5" "i_size sample_inode = 3"
    by (simp_all add: sfile_ok_def sample_inode_def)
  show ?thesis
    using sfile_overwrite_lost [of 0 s 0 "[0x78]" 1 sample_cache devs0] s d i by fastforce
qed

text \<open>
  C30. Nothing keeps a small file inside its inode: the only limit that \<open>writei\<close> checks is the
  size of a regular file, so a write that ends between byte 53 and that limit copies past
  the end of the \<open>addrs\<close> array.
\<close>

theorem sfile_write_overflows:
  assumes "sfile_ok (ino ip s)" "off \<le> i_size (ino ip s)"
    "52 < unat off + length src" "unat off + length src \<le> MAXFILE * BSIZE"
  shows "writei devs ip src off s = Fail (Fault ''writei: write past ip->addrs'')"
proof -
  have n: "unat (of_nat (length src) :: u32) = length src"
    using assms(4) by (simp add: unat_of_nat take_bit_nat_eq_self fs_consts)
  then have o: "unat (off + of_nat (length src)) = unat off + length src"
    using unat_add_no_wrap [of off "of_nat (length src)"] assms(4) by (simp add: fs_consts)
  have "src \<noteq> []" using assms(1-3) by (auto simp: sfile_ok_def word_le_nat_alt)
  with o show ?thesis
    using assms n by (simp add: writei_def Let_def fs_types sfile_ok_def res_simps word_less_nat_alt word_le_nat_alt)
qed

theorem sfile_write_overflows_witness:
  "\<exists>s :: fs_state. sfile_ok (ino 0 s) \<and>
     writei devs0 0 (replicate 60 0) 0 s = Fail (Fault ''writei: write past ip->addrs'')"
proof -
  obtain s :: fs_state where s: "ino 0 s = sample_inode" by (rule sample_fs)
  have ok: "sfile_ok (ino 0 s)" using s by (simp add: sfile_ok_def sample_inode_def)
  have "writei devs0 0 (replicate 60 0) 0 s = Fail (Fault ''writei: write past ip->addrs'')"
    by (rule sfile_write_overflows [OF ok]) (simp_all add: fs_consts)
  with ok show ?thesis by blast
qed

end
