(* ===== verification/Xv6_Balloc.thy ===== *)
theory Xv6_Balloc
  imports Xv6_Inode
begin

text \<open>
  Properties of the block allocator of \<^verbatim>\<open>fs.c\<close>: the free bitmap as a set of used blocks, which
  \<open>balloc\<close> extends by the first block that is not in it and \<open>bfree\<close> shrinks.
\<close>

section \<open>Bits\<close>

lemma byte_and_bit: "y AND push_bit j 1 \<noteq> 0 \<longleftrightarrow> bit y j" for y :: u8
  by (metis and_exp_eq_0_iff_not_bit push_bit_of_1)

lemma bmap_used_bit: "bmap_used bi d \<longleftrightarrow> bit (d ! (bi div 8)) (bi mod 8)"
  unfolding bmap_used_def byte_and_bit ..

lemma same_bit: "bi div 8 = bj div 8 \<Longrightarrow> bi mod 8 = bj mod 8 \<longleftrightarrow> bj = bi" for bi bj :: nat
  by (metis div_mod_decomp)

lemma bmap_used_set:
  assumes "bi div 8 < length d"
  shows "bmap_used bj (bmap_set bi d) \<longleftrightarrow> bj = bi \<or> bmap_used bj d"
  using assms same_bit [of bi bj]
  by (cases "bi div 8 = bj div 8") (auto simp: bmap_used_bit bmap_set_def bit_simps)

lemma bmap_used_clear:
  assumes "bi div 8 < length d"
  shows "bmap_used bj (bmap_clear bi d) \<longleftrightarrow> bj \<noteq> bi \<and> bmap_used bj d"
  using assms same_bit [of bi bj]
  by (cases "bi div 8 = bj div 8") (auto simp: bmap_used_bit bmap_clear_def bit_simps)

lemma length_bmap [simp]: "length (bmap_set bi d) = length d" "length (bmap_clear bi d) = length d"
  by (simp_all add: bmap_set_def bmap_clear_def)

section \<open>The bitmap\<close>

definition blk_used :: "nat \<Rightarrow> 'a fs_state_scheme \<Rightarrow> bool" where
  "blk_used b s \<longleftrightarrow> bmap_used (b mod BPB) (view s (BBLOCK b (sb s)))"

text \<open>
  \<open>balloc_ok\<close>: a transaction is open with room for a bitmap block and a data block; nobody holds
  the bitmap blocks; and the free blocks are blocks of the disk, outside the log and the bitmap, that
  nobody holds.
\<close>

definition fs_size :: "'a fs_state_scheme \<Rightarrow> nat" where
  "fs_size s = unat (sb_size (sb s))"

definition home_block :: "u32 \<Rightarrow> 'a fs_state_scheme \<Rightarrow> bool" where
  "home_block b s \<longleftrightarrow> block_ok b s \<and> b \<notin> locked s"

definition bitmap_ok :: "'a fs_state_scheme \<Rightarrow> bool" where
  "bitmap_ok s \<longleftrightarrow> (\<forall>b < fs_size s. home_block (BBLOCK b (sb s)) s)"

definition room :: "int \<Rightarrow> 'a fs_state_scheme \<Rightarrow> bool" where
  "room k s \<longleftrightarrow> 1 \<le> log_outstanding s \<and> lh_n s + k \<le> log_size s - 1 \<and> int (card (locked s)) + lh_n s + k \<le> int NBUF"

definition balloc_ok :: "'a fs_state_scheme \<Rightarrow> bool" where
  "balloc_ok s \<longleftrightarrow> log_inv s \<and> bitmap_ok s \<and> room 2 s \<and>
     (\<forall>b < fs_size s. \<not> blk_used b s \<longrightarrow> home_block (of_nat b) s \<and> (\<forall>c < fs_size s. of_nat b \<noteq> BBLOCK c (sb s)))"

lemma BBLOCK_eq_iff:
  assumes "b < 2 ^ 32" "c < 2 ^ 32"
  shows "BBLOCK b q = BBLOCK c q \<longleftrightarrow> b div BPB = c div BPB"
proof -
  have "b div BPB < 2 ^ 32" "c div BPB < 2 ^ 32" using assms by (auto intro: le_less_trans [OF div_le_dividend])
  then have "(of_nat (b div BPB) :: u32) = of_nat (c div BPB) \<longleftrightarrow> b div BPB = c div BPB"
    by (metis unat_of_nat32)
  then show ?thesis by (simp add: BBLOCK_def)
qed

lemma BPB_bound: "bi mod BPB div 8 < BSIZE"
proof -
  have "bi mod BPB < BPB" by (simp add: fs_consts)
  then show ?thesis by (simp add: BPB_def BSIZE_def)
qed

lemma fs_size_bound: "b < fs_size s \<Longrightarrow> b < 2 ^ 32"
  using unat_u32_bound [of "sb_size (sb s)"] by (simp add: fs_size_def)

text \<open>The bits after one bitmap block has changed.\<close>

lemma used_after:
  assumes "view s' (BBLOCK c (sb s)) = (if BBLOCK c (sb s) = BBLOCK b (sb s) then f (view s (BBLOCK b (sb s)))
      else view s (BBLOCK c (sb s)))"
    "b < 2 ^ 32" "c < 2 ^ 32" "sb s' = sb s"
    "\<And>j. bmap_used j (f (view s (BBLOCK b (sb s)))) \<longleftrightarrow> g (j = b mod BPB) (bmap_used j (view s (BBLOCK b (sb s))))"
    "\<And>x. g False x = x"
  shows "blk_used c s' \<longleftrightarrow> g (c = b) (blk_used c s)"
proof (cases "c div BPB = b div BPB")
  case True
  have m: "c mod BPB = b mod BPB \<longleftrightarrow> c = b" using True by (metis div_mult_mod_eq)
  have B: "BBLOCK c (sb s) = BBLOCK b (sb s)" using BBLOCK_eq_iff [OF assms(3,2)] True by blast
  then have "view s' (BBLOCK c (sb s)) = f (view s (BBLOCK b (sb s)))" using assms(1) by argo
  then show ?thesis unfolding blk_used_def assms(4) m [symmetric] B using assms(5) [of "c mod BPB"] by argo
next
  case False
  then have "view s' (BBLOCK c (sb s)) = view s (BBLOCK c (sb s))" "c \<noteq> b"
    using assms(1) BBLOCK_eq_iff [OF assms(3,2), of "sb s"] by auto
  then show ?thesis unfolding blk_used_def assms(4) using assms(6) by simp
qed

section \<open>balloc\<close>

lemma balloc_scan_Some:
  "balloc_scan k bi b sz d = Some j \<Longrightarrow>
     bi \<le> j \<and> j < bi + k \<and> b + j < sz \<and> \<not> bmap_used j d \<and> (\<forall>i. bi \<le> i \<longrightarrow> i < j \<longrightarrow> bmap_used i d)"
proof (induction k arbitrary: bi)
  case (Suc k)
  show ?case
  proof (cases "b + bi < sz \<and> bmap_used bi d")
    case True
    then have "balloc_scan k (Suc bi) b sz d = Some j" using Suc.prems by simp
    from Suc.IH [OF this] show ?thesis using True by (metis Suc_leD Suc_leI add_Suc_shift le_neq_implies_less)
  next
    case False
    then show ?thesis using Suc.prems by (auto split: if_splits)
  qed
qed simp

lemma balloc_scan_None:
  "balloc_scan k bi b sz d = None \<Longrightarrow> bi \<le> i \<Longrightarrow> i < bi + k \<Longrightarrow> b + i < sz \<Longrightarrow> bmap_used i d"
proof (induction k arbitrary: bi)
  case (Suc k)
  then show ?case by (cases "i = bi") (auto split: if_splits)
qed simp

text \<open>What \<open>balloc\<close> leaves behind.\<close>

definition allocated :: "nat \<Rightarrow> 'a fs_state_scheme \<Rightarrow> 'a fs_state_scheme \<Rightarrow> bool" where
  "allocated n s s' \<longleftrightarrow> log_inv s' \<and> log_frame s s' \<and> locked s' = locked s \<and> lh_n s' \<le> lh_n s + 2 \<and>
     view s' = (view s)(BBLOCK n (sb s) := bmap_set (n mod BPB) (view s (BBLOCK n (sb s))), of_nat n := replicate BSIZE 0)"

lemma update_block:
  fixes s :: "'a fs_state_scheme"
  assumes "log_inv s" "home_block b s" "room k s" "1 \<le> k" "length d = BSIZE"
  obtains i s1 s2 s3 where "bread 1 b s = Ok (i, s1)" "bdata i s1 = view s b" "same_frame s s1"
    "log_write i (set_bdata i d s1) = Ok s2" "brelse i s2 = Ok s3" "log_inv s3" "view s3 = (view s)(b := d)"
    "locked s3 = locked s" "log_frame s s3" "lh_n s3 \<le> lh_n s + 1" "room (k - 1) s3"
proof -
  have c: "block_ok b s" "b \<notin> locked s" "1 \<le> log_outstanding s" "lh_n s < log_size s - 1"
    "card (locked s) + nat (lh_n s) < NBUF"
    using assms(2,3,4) lh_n_bound(3) [of s] assms(1) by (auto simp: home_block_def room_def log_inv_def)
  show ?thesis
  proof (rule log_update [OF assms(1) c(1,2) assms(5) c(3-5)])
    fix i s1 s2 s3
    assume u: "bread 1 b s = Ok (i, s1)" "bdata i s1 = view s b" "same_frame s s1"
      "log_write i (set_bdata i d s1) = Ok s2" "brelse i s2 = Ok s3" "log_inv s3" "view s3 = (view s)(b := d)"
      "locked s3 = locked s" "log_frame s s3" "lh_n s3 = (if b \<in> dirty s then lh_n s else lh_n s + 1)"
    have l: "lh_n s3 \<le> lh_n s + 1" using u(10) by simp
    then have "room (k - 1) s3" using assms(3) u(8,9) by (simp add: room_def log_frame_def)
    then show ?thesis using that u l by blast
  qed
qed

lemma balloc_here:
  assumes "balloc_ok s" "b < fs_size s" "BPB dvd b" "balloc_scan BPB 0 b (fs_size s) (view s (BBLOCK b (sb s))) = Some bi"
  shows "\<exists>s'. balloc_loop b (fs_size s) 1 s = Ok (of_nat (b + bi), s') \<and> allocated (b + bi) s s'"
proof -
  let ?B = "BBLOCK b (sb s)"
  have sc: "bi < BPB" "b + bi < fs_size s" "\<not> bmap_used bi (view s ?B)"
    using balloc_scan_Some [OF assms(4)] by simp_all
  have md: "(b + bi) mod BPB = bi" "(b + bi) div BPB = b div BPB" using assms(3) sc(1) by auto
  then have B: "BBLOCK (b + bi) (sb s) = ?B" by (simp add: BBLOCK_def)
  have u: "\<not> blk_used (b + bi) s" using sc(3) md B by (simp add: blk_used_def)
  have h: "log_inv s" "home_block ?B s" "room 2 s" using assms(1,2) by (auto simp: balloc_ok_def bitmap_ok_def)
  have h4: "home_block (of_nat (b + bi)) s \<and> (\<forall>c < fs_size s. of_nat (b + bi) \<noteq> BBLOCK c (sb s))"
    using assms(1) sc(2) u unfolding balloc_ok_def by blast
  have "length (view s ?B) = BSIZE"
    by (rule bio.contents_length) (use h(1) in \<open>simp add: log_inv_def\<close>)
  then have len: "length (bmap_set bi (view s ?B)) = BSIZE" by simp
  obtain i s1 s2 s3 where a: "bread 1 ?B s = Ok (i, s1)" "bdata i s1 = view s ?B" "same_frame s s1"
    "log_write i (set_bdata i (bmap_set bi (view s ?B)) s1) = Ok s2" "brelse i s2 = Ok s3" "log_inv s3"
    "view s3 = (view s)(?B := bmap_set bi (view s ?B))"
    "locked s3 = locked s" "log_frame s s3" "lh_n s3 \<le> lh_n s + 1" "room 1 s3"
    by (rule update_block [OF h(1-3) _ len]) auto
  have h3: "home_block (of_nat (b + bi)) s3"
    using h4 a(8,9) by (simp add: home_block_def block_ok_def log_frame_def)
  obtain j t1 t2 t3 where z: "bread 1 (of_nat (b + bi)) s3 = Ok (j, t1)"
    "log_write j (set_bdata j (replicate BSIZE 0) t1) = Ok t2" "brelse j t2 = Ok t3" "log_inv t3"
    "view t3 = (view s3)(of_nat (b + bi) := replicate BSIZE 0)"
    "locked t3 = locked s3" "log_frame s3 t3" "lh_n t3 \<le> lh_n s3 + 1"
    by (rule update_block [OF a(6) h3 a(11), of "replicate BSIZE 0"]) auto
  have "bzero 1 (of_nat (b + bi)) s3 = Ok t3" using z(1-3) by (simp add: bzero_def)
  then have "balloc_loop b (fs_size s) 1 s = Ok (of_nat (b + bi), t3)"
    using assms(2,4) a(1,2,4,5) by (simp add: balloc_loop.simps [of b])
  moreover have "allocated (b + bi) s t3"
    using z(4-8) a(7-10) log_frame_trans [OF a(9) z(7)] md B by (simp add: allocated_def)
  ultimately show ?thesis by blast
qed

text \<open>A bitmap block without a free bit is read and released, and the loop goes on with the next one.\<close>

lemma balloc_next:
  assumes "balloc_ok s" "b < fs_size s" "balloc_scan BPB 0 b (fs_size s) (view s (BBLOCK b (sb s))) = None"
  obtains s2 where "balloc_loop b (fs_size s) 1 s = balloc_loop (b + BPB) (fs_size s2) 1 s2" "balloc_ok s2"
    "\<And>c. blk_used c s2 \<longleftrightarrow> blk_used c s" "fs_size s2 = fs_size s" "\<And>n s'. allocated n s2 s' \<Longrightarrow> allocated n s s'"
proof -
  let ?B = "BBLOCK b (sb s)"
  have k: "log_inv s" "?B < disksize s" "?B \<notin> locked s" "card (locked s) + nat (lh_n s) < NBUF"
    using assms(1,2) lh_n_bound(3) [of s]
    by (auto simp: balloc_ok_def bitmap_ok_def home_block_def block_ok_def room_def log_inv_def)
  obtain i s1 s2 where r: "bread 1 ?B s = Ok (i, s1)" "bdata i s1 = view s ?B" "brelse i s1 = Ok s2"
    "log_inv s2" "same_view s s2"
    by (rule log_read [OF k]) blast
  have v: "view s2 = view s" "locked s2 = locked s" "lh_n s2 = lh_n s" "log_frame s s2" "sb s2 = sb s"
    using r(5) log_frame_fs(2) [of s s2] by (simp_all add: same_view_def)
  have u: "blk_used c s2 \<longleftrightarrow> blk_used c s" "fs_size s2 = fs_size s" for c by (simp_all add: blk_used_def fs_size_def v)
  have hb: "home_block c s2 = home_block c s" for c
    using v(4) by (simp add: home_block_def block_ok_def v(2) log_frame_def)
  have "room 2 s2 = room 2 s" using v by (simp add: room_def log_frame_def)
  then have "balloc_ok s2" using assms(1) r(4) by (simp add: balloc_ok_def bitmap_ok_def u v(5) hb)
  moreover have "balloc_loop b (fs_size s) 1 s = balloc_loop (b + BPB) (fs_size s2) 1 s2"
    using assms(2,3) r(1-3) by (simp add: balloc_loop.simps [of b] u)
  moreover have "allocated n s2 s' \<Longrightarrow> allocated n s s'" for n s'
    using log_frame_trans [OF v(4)] by (auto simp: allocated_def v)
  ultimately show ?thesis using u by (intro that)
qed

lemma used_in_block:
  assumes "BPB dvd b" "i < BPB"
  shows "blk_used (b + i) s \<longleftrightarrow> bmap_used i (view s (BBLOCK b (sb s)))"
proof -
  have "(b + i) mod BPB = i" "(b + i) div BPB = b div BPB" using assms by auto
  then show ?thesis by (simp add: blk_used_def BBLOCK_def)
qed

text \<open>The blocks below \<open>b\<close> are used: the loop finds the first free block, or panics.\<close>

lemma balloc_loop_spec:
  assumes "balloc_ok s" "BPB dvd b" "\<forall>c < min b (fs_size s). blk_used c s" "n < fs_size s" "\<not> blk_used n s"
    "\<forall>c < n. blk_used c s"
  shows "\<exists>s'. balloc_loop b (fs_size s) 1 s = Ok (of_nat n, s') \<and> allocated n s s'"
  using assms
proof (induction "fs_size s - b" arbitrary: b s rule: less_induct)
  case less
  let ?B = "BBLOCK b (sb s)"
  have nb: "b \<le> n" using less.prems(3-5) by (meson linorder_not_less min_less_iff_conj)
  then have b: "b < fs_size s" using less.prems(4) by simp
  note bit = used_in_block [OF less.prems(2), of _ s]
  have upto: "blk_used c s" if "c < b + i" "\<And>j. j < i \<Longrightarrow> b + j < fs_size s \<Longrightarrow> blk_used (b + j) s" "c < fs_size s" for c i
  proof (cases "c < b")
    case True
    then show ?thesis using less.prems(3) that(3) by simp
  next
    case False
    then show ?thesis using that(2) [of "c - b"] that(1,3) by simp
  qed
  show ?case
  proof (cases "balloc_scan BPB 0 b (fs_size s) (view s ?B)")
    case (Some bi)
    note sc = balloc_scan_Some [OF Some]
    have "\<not> blk_used (b + bi) s" using bit [of bi] sc by simp
    moreover have "blk_used c s" if "c < b + bi" for c
      by (rule upto [OF that]) (use bit sc that in auto)
    ultimately have "n = b + bi" using less.prems(5,6) by (metis linorder_neqE_nat)
    then show ?thesis using balloc_here [OF less.prems(1) b less.prems(2) Some] by simp
  next
    case None
    have full: "blk_used c s" if "c < b + BPB" "c < fs_size s" for c
      by (rule upto [OF that(1) _ that(2)]) (use bit balloc_scan_None [OF None] in auto)
    obtain s2 where s2: "balloc_loop b (fs_size s) 1 s = balloc_loop (b + BPB) (fs_size s2) 1 s2" "balloc_ok s2"
      "\<And>c. blk_used c s2 \<longleftrightarrow> blk_used c s" "fs_size s2 = fs_size s" "\<And>n s'. allocated n s2 s' \<Longrightarrow> allocated n s s'"
      by (rule balloc_next [OF less.prems(1) b None]) blast
    have "\<exists>s'. balloc_loop (b + BPB) (fs_size s2) 1 s2 = Ok (of_nat n, s') \<and> allocated n s2 s'"
      by (intro less.hyps) (use less.prems b full s2(2-4) in \<open>simp_all add: fs_consts\<close>)
    then show ?thesis using s2(1,5) by auto
  qed
qed

lemma balloc_loop_full:
  assumes "balloc_ok s" "BPB dvd b" "\<forall>c < fs_size s. blk_used c s"
  shows "balloc_loop b (fs_size s) 1 s = Fail (Panic ''balloc: out of blocks'')"
  using assms
proof (induction "fs_size s - b" arbitrary: b s rule: less_induct)
  case less
  show ?case
  proof (cases "b < fs_size s")
    case True
    have none: "balloc_scan BPB 0 b (fs_size s) (view s (BBLOCK b (sb s))) = None"
    proof (cases "balloc_scan BPB 0 b (fs_size s) (view s (BBLOCK b (sb s)))")
      case (Some bi)
      then show ?thesis
        using balloc_scan_Some [OF Some] used_in_block [OF less.prems(2), of bi s] less.prems(3) by auto
    qed
    obtain s2 where s2: "balloc_loop b (fs_size s) 1 s = balloc_loop (b + BPB) (fs_size s2) 1 s2" "balloc_ok s2"
      "\<And>c. blk_used c s2 \<longleftrightarrow> blk_used c s" "fs_size s2 = fs_size s"
      by (rule balloc_next [OF less.prems(1) True none]) blast
    have "balloc_loop (b + BPB) (fs_size s2) 1 s2 = Fail (Panic ''balloc: out of blocks'')"
      by (intro less.hyps) (use less.prems True s2(2-4) in \<open>simp_all add: fs_consts\<close>)
    then show ?thesis using s2(1) by simp
  qed (simp add: balloc_loop.simps [of b])
qed

lemma balloc_used:
  assumes "balloc_ok s" "n < fs_size s" "\<not> blk_used n s" "allocated n s s'" "c < fs_size s"
  shows "blk_used c s' \<longleftrightarrow> c = n \<or> blk_used c s"
proof (rule used_after [where g = "\<lambda>e x. e \<or> x" and f = "bmap_set (n mod BPB)"])
  let ?d = "view s (BBLOCK n (sb s))"
  have i: "bio_inv s" using assms(1) by (simp add: balloc_ok_def log_inv_def)
  have "length ?d = BSIZE" by (rule bio.contents_length) (rule i)
  then show "bmap_used j (bmap_set (n mod BPB) ?d) \<longleftrightarrow> j = n mod BPB \<or> bmap_used j ?d" for j
    using BPB_bound by (intro bmap_used_set) simp
  have "of_nat n \<noteq> BBLOCK c (sb s)" using assms(1,2,3,5) by (auto simp: balloc_ok_def)
  then show "view s' (BBLOCK c (sb s)) = (if BBLOCK c (sb s) = BBLOCK n (sb s) then bmap_set (n mod BPB) ?d
      else view s (BBLOCK c (sb s)))"
    using assms(4) by (auto simp: allocated_def)
  show "sb s' = sb s" using assms(4) log_frame_fs(2) [of s s'] by (simp add: allocated_def)
qed (use assms(2,5) fs_size_bound in auto)

lemma allocated_view:
  assumes "allocated n s s'"
  shows "view s' (of_nat n) = replicate BSIZE 0"
    "b \<noteq> of_nat n \<Longrightarrow> b \<noteq> BBLOCK n (sb s) \<Longrightarrow> view s' b = view s b"
  using assms by (simp_all add: allocated_def)

section \<open>bfree\<close>

text \<open>\<open>bfree\<close> reads the super block again; \<open>bfree_ok\<close>: it is the one in memory.\<close>

definition bfree_ok :: "'a fs_state_scheme \<Rightarrow> bool" where
  "bfree_ok s \<longleftrightarrow> log_inv s \<and> bitmap_ok s \<and> room 1 s \<and> 1 < disksize s \<and> 1 \<notin> locked s \<and> sb_decode (view s 1) = sb s"

lemma bfree_readsb:
  assumes "bfree_ok s"
  obtains s1 where "readsb 1 s = Ok (sb s, s1)" "s1\<lparr>sb := sb s\<rparr> = s1" "log_inv s1" "same_view s s1" "sb s1 = sb s"
    "room 1 s1" "\<And>b. home_block b s1 = home_block b s"
proof -
  have c: "log_inv s" "1 < disksize s" "1 \<notin> locked s" "card (locked s) + nat (lh_n s) < NBUF"
    using assms lh_n_bound(3) [of s] by (auto simp: bfree_ok_def room_def log_inv_def)
  obtain i s1 s2 where r: "bread 1 1 s = Ok (i, s1)" "bdata i s1 = view s 1" "brelse i s1 = Ok s2" "log_inv s2" "same_view s s2"
    by (rule log_read [OF c]) blast
  have f: "log_frame s s2" "locked s2 = locked s" "lh_n s2 = lh_n s" using r(5) by (simp_all add: same_view_def)
  have q: "sb s2 = sb s" by (rule log_frame_fs(2) [OF f(1)])
  moreover have "s2\<lparr>sb := sb s\<rparr> = s2" unfolding q [symmetric] by simp
  moreover have "room 1 s2" using assms f by (simp add: bfree_ok_def room_def log_frame_def)
  moreover have "home_block b s2 = home_block b s" for b using f by (simp add: home_block_def block_ok_def log_frame_def)
  ultimately show ?thesis using r assms by (intro that [of s2]) (simp_all add: readsb_def bfree_ok_def)
qed

definition freed :: "nat \<Rightarrow> 'a fs_state_scheme \<Rightarrow> 'a fs_state_scheme \<Rightarrow> bool" where
  "freed n s s' \<longleftrightarrow> log_inv s' \<and> log_frame s s' \<and> locked s' = locked s \<and> lh_n s' \<le> lh_n s + 1 \<and>
     view s' = (view s)(BBLOCK n (sb s) := bmap_clear (n mod BPB) (view s (BBLOCK n (sb s))))"

lemma bfree_spec:
  assumes "bfree_ok s" "n < fs_size s"
  shows "blk_used n s \<Longrightarrow> \<exists>s'. bfree 1 (of_nat n) s = Ok s' \<and> freed n s s'"
    "\<not> blk_used n s \<Longrightarrow> bfree 1 (of_nat n) s = Fail (Panic ''freeing free block'')"
proof -
  let ?B = "BBLOCK n (sb s)"
  let ?d = "bmap_clear (n mod BPB) (view s ?B)"
  obtain s1 where s1: "readsb 1 s = Ok (sb s, s1)" "s1\<lparr>sb := sb s\<rparr> = s1" "log_inv s1" "same_view s s1" "sb s1 = sb s"
    "room 1 s1" "\<And>b. home_block b s1 = home_block b s"
    by (rule bfree_readsb [OF assms(1)]) blast
  have n: "unat (of_nat n :: u32) = n" using fs_size_bound [OF assms(2)] by simp
  have v: "view s1 = view s" "locked s1 = locked s" "lh_n s1 = lh_n s" "log_frame s s1" using s1(4) by (simp_all add: same_view_def)
  have h: "home_block ?B s1" using assms s1(7) by (simp add: bfree_ok_def bitmap_ok_def)
  have "length (view s ?B) = BSIZE"
    by (rule bio.contents_length) (use assms(1) in \<open>simp add: bfree_ok_def log_inv_def\<close>)
  then have len: "length ?d = BSIZE" by simp
  obtain i t1 t2 t3 where u: "bread 1 ?B s1 = Ok (i, t1)" "bdata i t1 = view s ?B"
    "log_write i (set_bdata i ?d t1) = Ok t2" "brelse i t2 = Ok t3" "log_inv t3" "view t3 = (view s)(?B := ?d)"
    "locked t3 = locked s" "log_frame s1 t3" "lh_n t3 \<le> lh_n s + 1"
    by (rule update_block [OF s1(3) h s1(6) _ len]) (use v in auto)
  have e: "bfree 1 (of_nat n) s = bindr (bread 1 ?B s1) (\<lambda>(bp, s).
      if \<not> bmap_used (n mod BPB) (bdata bp s) then Fail (Panic ''freeing free block'')
      else bindr (log_write bp (set_bdata bp (bmap_clear (n mod BPB) (bdata bp s)) s)) (brelse bp))"
    by (simp only: bfree_def s1(1,2,5) bindr.simps prod.case Let_def n)
  show "\<not> blk_used n s \<Longrightarrow> bfree 1 (of_nat n) s = Fail (Panic ''freeing free block'')"
    unfolding e using u(1,2) by (simp add: blk_used_def)
  assume "blk_used n s"
  then have "bfree 1 (of_nat n) s = Ok t3"
    unfolding e using u(1-4) by (simp add: blk_used_def)
  moreover have "freed n s t3" using u(5-9) log_frame_trans [OF v(4) u(8)] by (simp add: freed_def)
  ultimately show "\<exists>s'. bfree 1 (of_nat n) s = Ok s' \<and> freed n s s'" by blast
qed

lemma bfree_used:
  assumes "bfree_ok s" "n < fs_size s" "freed n s s'" "c < fs_size s"
  shows "blk_used c s' \<longleftrightarrow> c \<noteq> n \<and> blk_used c s"
proof (rule used_after [where g = "\<lambda>e x. \<not> e \<and> x" and f = "bmap_clear (n mod BPB)"])
  let ?d = "view s (BBLOCK n (sb s))"
  have i: "bio_inv s" using assms(1) by (simp add: bfree_ok_def log_inv_def)
  have "length ?d = BSIZE" by (rule bio.contents_length) (rule i)
  then show "bmap_used j (bmap_clear (n mod BPB) ?d) \<longleftrightarrow> j \<noteq> n mod BPB \<and> bmap_used j ?d" for j
    using BPB_bound by (intro bmap_used_clear) simp
  show "view s' (BBLOCK c (sb s)) = (if BBLOCK c (sb s) = BBLOCK n (sb s) then bmap_clear (n mod BPB) ?d
      else view s (BBLOCK c (sb s)))"
    using assms(3) by (auto simp: freed_def)
  show "sb s' = sb s" using assms(3) log_frame_fs(2) [of s s'] by (simp add: freed_def)
qed (use assms(2,4) fs_size_bound in auto)

section \<open>A sample bitmap\<close>

text \<open>All blocks but number 100 are used.\<close>

definition sample_bitmap :: block where
  "sample_bitmap = bmap_clear 100 (replicate BSIZE 0xFF)"

lemma sample_bitmap_used: "c < BPB \<Longrightarrow> bmap_used c sample_bitmap \<longleftrightarrow> c \<noteq> 100"
proof -
  assume c: "c < BPB"
  have "bit (0xFF :: u8) i" if "i < 8" for i
    using that by (simp add: less_Suc_eq numeral_eq_Suc bit_iff_odd drop_bit_eq_div) auto
  then have "bmap_used c (replicate BSIZE 0xFF)" using c by (simp add: bmap_used_bit BPB_def less_mult_imp_div_less)
  then show ?thesis by (simp add: sample_bitmap_def bmap_used_clear BSIZE_def)
qed

lemma sample_balloc:
  obtains s :: fs_state where "balloc_ok s" "bfree_ok s" "room 2 s" "fs_size s = 1000" "\<And>c. c < 1000 \<Longrightarrow> blk_used c s \<longleftrightarrow> c \<noteq> 100"
    "sb s = sample_superblock"
proof -
  obtain l :: log_state where l: "log_inv l" "locked l = {}" "log_start l = 2" "log_size l = 30" "lh_n l = 1"
    "log_outstanding l = 1" "disksize l = 1000" "dirty l = {60}" "memdisk l 1 = sample_sb"
    using sample_txn by metis
  have v1: "view l 1 = sample_sb" using bio.clean_law [of l 1] l by (simp add: log_inv_def)
  have pre: "block_ok 58 l" "58 \<notin> locked l" "length sample_bitmap = BSIZE" "1 \<le> log_outstanding l"
    "lh_n l < log_size l - 1" "card (locked l) + nat (lh_n l) < NBUF"
    using l by (simp_all add: block_ok_def in_log_def NBUF_def sample_bitmap_def)
  obtain m where m: "log_inv m" "view m = (view l)(58 := sample_bitmap)" "locked m = locked l" "log_frame l m" "lh_n m = 2"
    by (rule log_update [OF l(1) pre]) (use l in simp)
  define s where "s = log_state.extend m (fs_state.fields sample_superblock [] 0)"
  have "log_state.more s = fs_state.fields sample_superblock [] 0" by (simp add: s_def extend_views)
  then have f: "sb s = sample_superblock" by (cases s) (simp add: fs_state.defs)
  have e: "log_inv s = log_inv m" "locked s = locked m" "log_start s = log_start m" "log_size s = log_size m"
    "lh_n s = lh_n m" "log_outstanding s = log_outstanding m" "disksize s = disksize m" "view s = view m"
    by (simp_all add: s_def extend_views)
  have d: "disksize m = 1000" "log_start m = 2" "log_size m = 30" "log_outstanding m = 1" "locked m = {}"
    using m(3,4) l by (simp_all add: log_frame_def)
  have sz: "fs_size s = 1000" by (simp add: fs_size_def f sample_superblock_def)
  have B: "BBLOCK c (sb s) = 58" if "c < 1000" for c
    using that by (simp add: BBLOCK_def f sample_superblock_def fs_consts)
  have us: "blk_used c s \<longleftrightarrow> c \<noteq> 100" if "c < 1000" for c
    using that B [OF that] sample_bitmap_used [of c] by (simp add: blk_used_def e m(2) fs_consts)
  have h: "home_block b s \<longleftrightarrow> b < 1000 \<and> \<not> in_log 2 30 b" for b
    by (simp add: home_block_def block_ok_def e d)
  have "bitmap_ok s" by (simp add: bitmap_ok_def sz B h in_log_def)
  moreover have r: "room 2 s" "room 1 s" by (simp_all add: room_def e d m(5) NBUF_def)
  moreover have "sb_decode (view s 1) = sb s"
    by (simp add: e m(2) v1 f sample_sb_decode sample_superblock_def)
  ultimately have ok: "balloc_ok s" "bfree_ok s"
    by (auto simp: balloc_ok_def bfree_ok_def e d m(1) sz us B h in_log_def)
  show ?thesis by (rule that [OF ok r(1) sz us f])
qed

section \<open>Properties\<close>

text \<open>
  C10. \<open>balloc\<close> returns the first free block of the bitmap, filled with zeros, and marks it used;
  every other block keeps its mark, and no block but these two, the new one and its bitmap block, changes.
  When no block is free it panics.
\<close>

theorem balloc_first_free:
  assumes "balloc_ok s"
  shows "(\<forall>n < fs_size s. \<not> blk_used n s \<and> (\<forall>c < n. blk_used c s) \<longrightarrow>
      (\<exists>s'. balloc 1 s = Ok (of_nat n, s') \<and> log_inv s' \<and> view s' (of_nat n) = replicate BSIZE 0 \<and>
        (\<forall>c < fs_size s. blk_used c s' \<longleftrightarrow> c = n \<or> blk_used c s) \<and>
        (\<forall>b. b \<noteq> of_nat n \<longrightarrow> b \<noteq> BBLOCK n (sb s) \<longrightarrow> view s' b = view s b))) \<and>
    ((\<forall>n < fs_size s. blk_used n s) \<longrightarrow> balloc 1 s = Fail (Panic ''balloc: out of blocks''))"
proof (intro conjI allI impI)
  fix n assume n: "n < fs_size s" "\<not> blk_used n s \<and> (\<forall>c < n. blk_used c s)"
  obtain s' where s': "balloc 1 s = Ok (of_nat n, s')" "allocated n s s'"
    using balloc_loop_spec [OF assms, of 0 n] n by (auto simp: balloc_def fs_size_def [symmetric])
  then show "\<exists>s'. balloc 1 s = Ok (of_nat n, s') \<and> log_inv s' \<and> view s' (of_nat n) = replicate BSIZE 0 \<and>
        (\<forall>c < fs_size s. blk_used c s' \<longleftrightarrow> c = n \<or> blk_used c s) \<and>
        (\<forall>b. b \<noteq> of_nat n \<longrightarrow> b \<noteq> BBLOCK n (sb s) \<longrightarrow> view s' b = view s b)"
    using balloc_used [OF assms n(1) _ s'(2)] allocated_view [OF s'(2)] n by (auto simp: allocated_def)
next
  assume "\<forall>n < fs_size s. blk_used n s"
  then show "balloc 1 s = Fail (Panic ''balloc: out of blocks'')"
    using balloc_loop_full [OF assms, of 0] by (simp add: balloc_def fs_size_def [symmetric])
qed

theorem balloc_first_free_witness:
  "\<exists>(s :: fs_state) s'. \<not> blk_used 100 s \<and> balloc 1 s = Ok (100, s') \<and> blk_used 100 s' \<and> view s' 100 = replicate BSIZE 0"
proof -
  obtain s :: fs_state where s: "balloc_ok s" "fs_size s = 1000" "\<And>c. c < 1000 \<Longrightarrow> blk_used c s \<longleftrightarrow> c \<noteq> 100"
    by (rule sample_balloc) blast
  have "100 < fs_size s" "\<not> blk_used 100 s \<and> (\<forall>c < 100. blk_used c s)" using s(2,3) by auto
  then show ?thesis using balloc_first_free [OF s(1)] by (metis of_nat_numeral)
qed

text \<open>
  C22. \<open>bfree\<close> frees a used block, so that \<open>balloc\<close> may return it again: its mark goes, the other
  marks stay, and no block but its bitmap block changes.  To free it a second time panics.
\<close>

theorem bfree_clears_once:
  assumes "bfree_ok s" "room 2 s" "n < fs_size s" "blk_used n s" "BBLOCK n (sb s) \<noteq> 1"
  shows "\<exists>s'. bfree 1 (of_nat n) s = Ok s' \<and> (\<forall>c < fs_size s. blk_used c s' \<longleftrightarrow> c \<noteq> n \<and> blk_used c s) \<and>
    (\<forall>b. b \<noteq> BBLOCK n (sb s) \<longrightarrow> view s' b = view s b) \<and>
    bfree 1 (of_nat n) s' = Fail (Panic ''freeing free block'')"
proof -
  obtain s' where s': "bfree 1 (of_nat n) s = Ok s'" "freed n s s'" using bfree_spec(1) [OF assms(1,3,4)] by blast
  have q: "sb s' = sb s" using s'(2) log_frame_fs(2) [of s s'] by (simp add: freed_def)
  have f: "log_frame s s'" "locked s' = locked s" "lh_n s' \<le> lh_n s + 1" "log_inv s'"
    "\<And>b. b \<noteq> BBLOCK n (sb s) \<Longrightarrow> view s' b = view s b"
    using s'(2) by (simp_all add: freed_def)
  have z: "fs_size s' = fs_size s" by (simp add: fs_size_def q)
  have "home_block b s' = home_block b s" for b using f by (simp add: home_block_def block_ok_def log_frame_def)
  then have "bfree_ok s'"
    using assms(1,2,5) f by (simp add: bfree_ok_def bitmap_ok_def room_def q z log_frame_def)
  then show ?thesis
    using s'(1) f(5) bfree_used [OF assms(1,3) s'(2)] bfree_spec(2) [of s' n] assms(3) z by auto
qed

theorem bfree_clears_once_witness:
  "\<exists>(s :: fs_state) s'. blk_used 99 s \<and> bfree 1 99 s = Ok s' \<and> \<not> blk_used 99 s' \<and>
    bfree 1 99 s' = Fail (Panic ''freeing free block'')"
proof -
  obtain s :: fs_state where s: "bfree_ok s" "room 2 s" "fs_size s = 1000" "\<And>c. c < 1000 \<Longrightarrow> blk_used c s \<longleftrightarrow> c \<noteq> 100"
    "sb s = sample_superblock"
    by (rule sample_balloc) blast
  have n: "99 < fs_size s" "blk_used 99 s" "BBLOCK 99 (sb s) \<noteq> 1"
    using s(3,4) by (simp_all add: s(5) BBLOCK_def sample_superblock_def fs_consts)
  show ?thesis using bfree_clears_once [OF s(1,2) n] n by auto
qed

end
