(* ===== verification/Xv6_Dir.thy ===== *)
theory Xv6_Dir
  imports Xv6_Fs
begin

text \<open>
  Directories and path names: the last two layers of \<^verbatim>\<open>fs.c\<close>.

  A directory entry is 16 bytes, the inode number and a name of \<open>DIRSIZ\<close> bytes.  A path is
  the list of its bytes without the terminating NUL.  A name buffer is the list of the
  bytes before its terminator, at most \<open>DIRSIZ\<close> of them.
\<close>

section \<open>Directories\<close>

definition namecmp :: "u8 list \<Rightarrow> u8 list \<Rightarrow> int" where
  "namecmp s t = strncmp (lstr s) (lstr t) DIRSIZ"

definition de_inum :: "u8 list \<Rightarrow> u16" where
  "de_inum de = get16 0 de"

definition de_name :: "u8 list \<Rightarrow> u8 list" where
  "de_name de = slice 2 DIRSIZ de"

definition de_make :: "u32 \<Rightarrow> u8 list \<Rightarrow> u8 list" where
  "de_make inum name = le16 (ucast inum) @ strncpy_bytes (lstr name) DIRSIZ"

function dirlookup_loop :: "'a fs_state_scheme devsw \<Rightarrow> nat \<Rightarrow> nat \<Rightarrow> u8 list \<Rightarrow> nat \<Rightarrow> 'a fs_state_scheme \<Rightarrow>
    ((nat \<times> nat) option \<times> 'a fs_state_scheme) res" where
  "dirlookup_loop devs sz dp name off s =
     (if off < sz then
        bindr (readi devs dp (of_nat off) 16 s) (\<lambda>(r, de, s).
        if r \<noteq> 16 then Fail (Panic ''dirlink read'')
        else if de_inum de = 0 then dirlookup_loop devs sz dp name (off + 16) s
        else if namecmp name (de_name de) = 0 then
          bindr (iget (i_dev (ino dp s)) (ucast (de_inum de)) s) (\<lambda>(ip, s).
          Ok (Some (ip, off), s))
        else dirlookup_loop devs sz dp name (off + 16) s)
      else Ok (None, s))"
  by pat_completeness auto
termination
  by (relation "measure (\<lambda>(devs, sz, dp, name, off, s). sz - off)") auto

declare dirlookup_loop.simps [simp del]

text \<open>The result is the inode and the offset stored through \<open>poff\<close>.\<close>

definition dirlookup :: "'a fs_state_scheme devsw \<Rightarrow> nat \<Rightarrow> u8 list \<Rightarrow> 'a fs_state_scheme \<Rightarrow>
    ((nat \<times> nat) option \<times> 'a fs_state_scheme) res" where
  "dirlookup devs dp name s =
     (if i_type (ino dp s) \<noteq> T_DIR \<and> i_type (ino dp s) \<noteq> T_SDIR then Fail (Panic ''dirlookup not DIR'')
      else dirlookup_loop devs (unat (i_size (ino dp s))) dp name 0 s)"

function dirlink_free :: "'a fs_state_scheme devsw \<Rightarrow> nat \<Rightarrow> nat \<Rightarrow> nat \<Rightarrow> 'a fs_state_scheme \<Rightarrow>
    (nat \<times> 'a fs_state_scheme) res" where
  "dirlink_free devs sz dp off s =
     (if off < sz then
        bindr (readi devs dp (of_nat off) 16 s) (\<lambda>(r, de, s).
        if r \<noteq> 16 then Fail (Panic ''dirlink read'')
        else if de_inum de = 0 then Ok (off, s)
        else dirlink_free devs sz dp (off + 16) s)
      else Ok (off, s))"
  by pat_completeness auto
termination
  by (relation "measure (\<lambda>(devs, sz, dp, off, s). sz - off)") auto

declare dirlink_free.simps [simp del]

definition dirlink :: "'a fs_state_scheme devsw \<Rightarrow> nat \<Rightarrow> u8 list \<Rightarrow> u32 \<Rightarrow> 'a fs_state_scheme \<Rightarrow>
    (int \<times> 'a fs_state_scheme) res" where
  "dirlink devs dp name inum s =
     bindr (dirlookup devs dp name s) (\<lambda>(r, s).
     case r of
       Some (ip, off) \<Rightarrow> bindr (iput ip s) (\<lambda>s. Ok (- 1, s))
     | None \<Rightarrow>
         bindr (dirlink_free devs (unat (i_size (ino dp s))) dp 0 s) (\<lambda>(off, s).
         bindr (writei devs dp (de_make inum name) (of_nat off) s) (\<lambda>(r, s).
         if r \<noteq> 16 then Fail (Panic ''dirlink'') else Ok (0, s))))"

section \<open>Paths\<close>

definition slash :: u8 where "slash = 0x2F"

text \<open>The next path element in its buffer, and the rest of the path.\<close>

definition skipelem :: "u8 list \<Rightarrow> (u8 list \<times> u8 list) option" where
  "skipelem path =
     (let path = dropWhile (\<lambda>c. c = slash) path in
      if path = [] then None
      else
        (let elem = takeWhile (\<lambda>c. c \<noteq> slash) path;
             path = dropWhile (\<lambda>c. c \<noteq> slash) path;
             name = (if length elem \<ge> DIRSIZ then take DIRSIZ elem else elem)
         in Some (name, dropWhile (\<lambda>c. c = slash) path)))"

lemma skipelem_shorter: "skipelem path = Some (name, rest) \<Longrightarrow> length rest < length path"
proof -
  assume a: "skipelem path = Some (name, rest)"
  let ?p = "dropWhile (\<lambda>c. c = slash) path"
  have ne: "?p \<noteq> []" and rest: "rest = dropWhile (\<lambda>c. c = slash) (dropWhile (\<lambda>c. c \<noteq> slash) ?p)"
    using a by (auto simp: skipelem_def Let_def split: if_splits)
  have "hd ?p \<noteq> slash" using hd_dropWhile [OF ne] by simp
  with ne have "length (dropWhile (\<lambda>c. c \<noteq> slash) ?p) < length ?p"
    by (cases ?p) (auto simp: less_Suc_eq_le length_dropWhile_le)
  moreover have "length rest \<le> length (dropWhile (\<lambda>c. c \<noteq> slash) ?p)" "length ?p \<le> length path"
    unfolding rest by (rule length_dropWhile_le)+
  ultimately show ?thesis by linarith
qed

function namex_loop :: "'a fs_state_scheme devsw \<Rightarrow> u8 list \<Rightarrow> bool \<Rightarrow> nat \<Rightarrow> u8 list \<Rightarrow> 'a fs_state_scheme \<Rightarrow>
    ((nat \<times> u8 list) option \<times> 'a fs_state_scheme) res" where
  "namex_loop devs path parent ip name s =
     (case skipelem path of
        Some (name, path') \<Rightarrow>
          bindr (ilock ip s) (\<lambda>s.
          if i_type (ino ip s) \<noteq> T_DIR \<and> i_type (ino ip s) \<noteq> T_SDIR then
            bindr (iunlockput ip s) (\<lambda>s. Ok (None, s))
          else if parent \<and> path' = [] then
            bindr (iunlock ip s) (\<lambda>s. Ok (Some (ip, name), s))
          else
            bindr (dirlookup devs ip name s) (\<lambda>(r, s).
            case r of
              None \<Rightarrow> bindr (iunlockput ip s) (\<lambda>s. Ok (None, s))
            | Some (next, off) \<Rightarrow>
                bindr (iunlockput ip s) (\<lambda>s.
                namex_loop devs path' parent next name s)))
      | None \<Rightarrow>
          if parent then bindr (iput ip s) (\<lambda>s. Ok (None, s))
          else Ok (Some (ip, name), s))"
  by pat_completeness auto
termination
  by (relation "measure (\<lambda>(devs, path, parent, ip, name, s). length path)") (auto dest: skipelem_shorter)

declare namex_loop.simps [simp del]

definition namex :: "'a fs_state_scheme devsw \<Rightarrow> u8 list \<Rightarrow> bool \<Rightarrow> 'a fs_state_scheme \<Rightarrow>
    ((nat \<times> u8 list) option \<times> 'a fs_state_scheme) res" where
  "namex devs path parent s =
     bindr (if path \<noteq> [] \<and> hd path = slash then iget ROOTDEV ROOTINO s else Ok (idup (cwd s) s)) (\<lambda>(ip, s).
     namex_loop devs path parent ip [] s)"

definition namei :: "'a fs_state_scheme devsw \<Rightarrow> u8 list \<Rightarrow> 'a fs_state_scheme \<Rightarrow> (nat option \<times> 'a fs_state_scheme) res" where
  "namei devs path s = bindr (namex devs path False s) (\<lambda>(r, s). Ok (map_option fst r, s))"

definition nameiparent :: "'a fs_state_scheme devsw \<Rightarrow> u8 list \<Rightarrow> 'a fs_state_scheme \<Rightarrow>
    ((nat \<times> u8 list) option \<times> 'a fs_state_scheme) res" where
  "nameiparent devs path s = namex devs path True s"

end
