(* ===== verification/Xv6_Mkfs.thy ===== *)
theory Xv6_Mkfs
  imports Xv6_Balloc Xv6_Dir
begin

text \<open>
  \<^verbatim>\<open>mkfs.c\<close>, the program that builds the first file system image.

  The image is a function from block numbers to blocks.  Writing a sector succeeds; reading
  one behind the \<open>FSSIZE\<close> sectors of the file ends the program, and every write there comes
  after a read of the same sector.  \<open>xint\<close> and \<open>xshort\<close> put a number into little-endian order, which is
  what the encodings of the super block, the inodes and the directory entries do here.
  The files to be copied are pairs of a name and the chunks that \<open>read\<close> returns.
\<close>

definition NINODES :: nat where "NINODES = 200"

definition nbitmap :: nat where "nbitmap = FSSIZE div (BSIZE * 8) + 1"
definition ninodeblocks :: nat where "ninodeblocks = NINODES div unat IPB + 1"
definition nmeta :: nat where "nmeta = 2 + LOGSIZE + ninodeblocks + nbitmap"

record mkfs_state =
  img :: "u32 \<Rightarrow> block"
  freeinode :: u32
  freeblock :: u32

definition mkfs_sb :: superblock where
  "mkfs_sb = \<lparr>sb_size = of_nat FSSIZE, sb_nblocks = of_nat (FSSIZE - nmeta), sb_ninodes = of_nat NINODES,
     sb_nlog = of_nat LOGSIZE, sb_logstart = 2, sb_inodestart = of_nat (2 + LOGSIZE),
     sb_bmapstart = of_nat (2 + LOGSIZE + ninodeblocks)\<rparr>"

definition sb_bytes :: "superblock \<Rightarrow> u8 list" where
  "sb_bytes q = words_bytes [sb_size q, sb_nblocks q, sb_ninodes q, sb_nlog q, sb_logstart q, sb_inodestart q, sb_bmapstart q]"

definition wsect :: "u32 \<Rightarrow> block \<Rightarrow> mkfs_state \<Rightarrow> mkfs_state" where
  "wsect sec buf s = s\<lparr>img := (img s)(sec := buf)\<rparr>"

definition rsect :: "u32 \<Rightarrow> mkfs_state \<Rightarrow> block res" where
  "rsect sec s = (if unat sec < FSSIZE then Ok (img s sec) else Fail (Panic ''read''))"

definition winode :: "u32 \<Rightarrow> dinode \<Rightarrow> mkfs_state \<Rightarrow> mkfs_state res" where
  "winode inum ip s =
     bindr (rsect (IBLOCK inum mkfs_sb) s) (\<lambda>buf.
     Ok (wsect (IBLOCK inum mkfs_sb) (dinode_put (dip_off inum) ip buf) s))"

definition rinode :: "u32 \<Rightarrow> mkfs_state \<Rightarrow> dinode res" where
  "rinode inum s = bindr (rsect (IBLOCK inum mkfs_sb) s) (\<lambda>buf. Ok (dinode_get (dip_off inum) buf))"

definition mk_ialloc :: "u16 \<Rightarrow> mkfs_state \<Rightarrow> (u32 \<times> mkfs_state) res" where
  "mk_ialloc type s =
     (let inum = freeinode s
      in bindr (winode inum \<lparr>d_type = type, d_major = 0, d_minor = 0, d_nlink = 1, d_size = 0, d_addrs = replicate 13 0\<rparr>
                  (s\<lparr>freeinode := freeinode s + 1\<rparr>)) (\<lambda>s. Ok (inum, s)))"

definition mk_bitmap :: "nat \<Rightarrow> block" where
  "mk_bitmap used = fold bmap_set [0..<used] (replicate BSIZE 0)"

definition mk_balloc :: "nat \<Rightarrow> mkfs_state \<Rightarrow> mkfs_state res" where
  "mk_balloc used s =
     (if used < BSIZE * 8 then Ok (wsect (sb_bmapstart mkfs_sb) (mk_bitmap used) s) else Fail (Panic ''assert''))"

text \<open>The block of an inode that holds its block number \<open>fbn\<close>, allocated if necessary.\<close>

definition mk_block :: "nat \<Rightarrow> dinode \<Rightarrow> mkfs_state \<Rightarrow> (u32 \<times> dinode \<times> mkfs_state) res" where
  "mk_block fbn din s =
     (if fbn < NDIRECT then
        (if d_addrs din ! fbn = 0
         then Ok (freeblock s, din\<lparr>d_addrs := (d_addrs din)[fbn := freeblock s]\<rparr>, s\<lparr>freeblock := freeblock s + 1\<rparr>)
         else Ok (d_addrs din ! fbn, din, s))
      else
        (let (din, s) =
           (if d_addrs din ! NDIRECT = 0
            then (din\<lparr>d_addrs := (d_addrs din)[NDIRECT := freeblock s]\<rparr>, s\<lparr>freeblock := freeblock s + 1\<rparr>)
            else (din, s));
             ib = d_addrs din ! NDIRECT; off = 4 * (fbn - NDIRECT)
         in bindr (rsect ib s) (\<lambda>indirect.
            if get32 off indirect = 0
            then Ok (freeblock s, din, wsect ib (put32 off (freeblock s) indirect) (s\<lparr>freeblock := freeblock s + 1\<rparr>))
            else Ok (get32 off indirect, din, s))))"

function iappend_loop :: "u8 list \<Rightarrow> nat \<Rightarrow> dinode \<Rightarrow> mkfs_state \<Rightarrow> (nat \<times> dinode \<times> mkfs_state) res" where
  "iappend_loop p off din s =
     (if p = [] then Ok (off, din, s)
      else if MAXFILE \<le> off div BSIZE then Fail (Panic ''assert'')
      else
        (let fbn = off div BSIZE; n1 = min (length p) ((fbn + 1) * BSIZE - off)
         in bindr (mk_block fbn din s) (\<lambda>(x, din, s).
            bindr (rsect x s) (\<lambda>buf.
            iappend_loop (drop n1 p) (off + n1) din (wsect x (splice (off - fbn * BSIZE) (take n1 p) buf) s)))))"
  by pat_completeness auto
termination
proof (relation "measure (\<lambda>(p, off, din, s). length p)", goal_cases)
  case prems: (2 p off din s fbn n1)
  have "off < (off div BSIZE + 1) * BSIZE"
    by (simp add: BSIZE_def dividend_less_div_times)
  with prems show ?case by simp
qed simp

declare iappend_loop.simps [simp del]

definition iappend :: "u32 \<Rightarrow> u8 list \<Rightarrow> mkfs_state \<Rightarrow> mkfs_state res" where
  "iappend inum p s =
     bindr (rinode inum s) (\<lambda>din.
     bindr (iappend_loop p (unat (d_size din)) din s) (\<lambda>(off, din, s).
     winode inum (din\<lparr>d_size := of_nat off\<rparr>) s))"

primrec iappends :: "u32 \<Rightarrow> u8 list list \<Rightarrow> mkfs_state \<Rightarrow> mkfs_state res" where
  "iappends inum [] s = Ok s"
| "iappends inum (c # cs) s = bindr (iappend inum c s) (iappends inum cs)"

definition dirent_bytes :: "u32 \<Rightarrow> u8 list \<Rightarrow> u8 list" where
  "dirent_bytes inum name = le16 (ucast inum) @ take DIRSIZ (name @ replicate DIRSIZ 0)"

primrec mkfs_files :: "(u8 list \<times> u8 list list) list \<Rightarrow> mkfs_state \<Rightarrow> mkfs_state res" where
  "mkfs_files [] s = Ok s"
| "mkfs_files (f # fs) s =
     (let (name, chunks) = f
      in if slash \<in> set name then Fail (Panic ''assert'')
         else
           (let name = (if name \<noteq> [] \<and> hd name = 95 then tl name else name)
            in bindr (mk_ialloc T_FILE s) (\<lambda>(inum, s).
               bindr (iappend ROOTINO (dirent_bytes inum name) s) (\<lambda>s.
               bindr (iappends inum chunks s) (mkfs_files fs)))))"

definition mkfs_empty :: mkfs_state where
  "mkfs_empty = \<lparr>img = (\<lambda>b. replicate BSIZE 0), freeinode = 1, freeblock = of_nat nmeta\<rparr>"

definition mkfs :: "(u8 list \<times> u8 list list) list \<Rightarrow> mkfs_state res" where
  "mkfs files =
     bindr (mk_ialloc T_DIR (wsect 1 (splice 0 (sb_bytes mkfs_sb) (replicate BSIZE 0)) mkfs_empty)) (\<lambda>(rootino, s).
     if rootino \<noteq> ROOTINO then Fail (Panic ''assert'')
     else
       bindr (iappend rootino (dirent_bytes rootino [46]) s) (\<lambda>s.
       bindr (iappend rootino (dirent_bytes rootino [46, 46]) s) (\<lambda>s.
       bindr (mkfs_files files s) (\<lambda>s.
       bindr (rinode rootino s) (\<lambda>din.
       let off = (d_size din div of_nat BSIZE + 1) * of_nat BSIZE
       in bindr (winode rootino (din\<lparr>d_size := off\<rparr>) s) (\<lambda>s.
          mk_balloc (unat (freeblock s)) s))))))"

section \<open>The image is what the kernel expects\<close>

text \<open>The kernel reads the super block that \<open>mkfs\<close> writes.\<close>

lemma mkfs_superblock: "sb_decode (splice 0 (sb_bytes mkfs_sb) (replicate BSIZE 0)) = mkfs_sb"
  by code_simp

text \<open>The regions follow each other without overlap: log, inodes, bitmap, data.\<close>

lemma mkfs_layout:
  "unat (sb_logstart mkfs_sb) + unat (sb_nlog mkfs_sb) = unat (sb_inodestart mkfs_sb)"
  "unat (sb_inodestart mkfs_sb) + ninodeblocks = unat (sb_bmapstart mkfs_sb)"
  "unat (sb_bmapstart mkfs_sb) + nbitmap = nmeta" "nmeta + unat (sb_nblocks mkfs_sb) = unat (sb_size mkfs_sb)"
  by code_simp+

lemma rinode_winode:
  assumes "winode inum di s = Ok t" "length (img s (IBLOCK inum mkfs_sb)) = BSIZE" "length (d_addrs di) = 13"
  shows "rinode inum t = Ok di"
  using assms dinode_get_put [of "dip_off inum" "img s (IBLOCK inum mkfs_sb)" di] dip_off_fits [of inum]
  by (auto simp: rinode_def winode_def wsect_def rsect_def split: if_splits)

text \<open>In the bitmap that \<open>mkfs\<close> writes, the blocks it has used are the allocated ones.\<close>

lemma mk_bitmap_used:
  assumes "used \<le> BPB" "b < BPB"
  shows "bmap_used b (mk_bitmap used) \<longleftrightarrow> b < used" "length (mk_bitmap used) = BSIZE"
proof -
  have "length (mk_bitmap used) = BSIZE \<and> (\<forall>b < BPB. bmap_used b (mk_bitmap used) \<longleftrightarrow> b < used)"
    using assms(1)
  proof (induction used)
    case 0
    have "replicate BSIZE (0 :: u8) ! (b div 8) = 0" if "b < BPB" for b
      using that by (simp add: BPB_def BSIZE_def)
    then show ?case by (simp add: mk_bitmap_def bmap_used_def)
  next
    case (Suc used)
    then have l: "used div 8 < length (mk_bitmap used)" by (simp add: BPB_def BSIZE_def)
    have e: "mk_bitmap (Suc used) = bmap_set used (mk_bitmap used)" by (simp add: mk_bitmap_def)
    have "length (mk_bitmap (Suc used)) = length (mk_bitmap used)" by (simp add: e bmap_set_def)
    then show ?case using Suc bmap_used_set [OF l] by (auto simp: e)
  qed
  then show "bmap_used b (mk_bitmap used) \<longleftrightarrow> b < used" "length (mk_bitmap used) = BSIZE"
    using assms(2) by simp_all
qed

end
