(* ===== verification/Xv6_Pipe.thy ===== *)
theory Xv6_Pipe
  imports Xv6_Prelude
begin

text \<open>
  Pipes, \<^verbatim>\<open>pipe.c\<close>: the ring buffer and the two loops that fill and drain it.

  A call runs until it returns or goes to sleep.  A sleeping writer keeps the bytes it has
  not stored yet and a sleeping reader its request, and both continue with the same
  function when they are woken: the test of the \<open>while\<close> loop is made again.  The counters
  \<open>nread\<close> and \<open>nwrite\<close> are 32-bit words that are never reset and wrap around.
\<close>

definition PIPESIZE :: nat where "PIPESIZE = 512"

record pipe =
  p_data :: "u8 list"
  nread :: u32
  nwrite :: u32
  readopen :: bool
  writeopen :: bool

section \<open>Operations\<close>

datatype write_result = Wrote | WriteError | WriteSleep "u8 list"

datatype read_result = ReadBytes "u8 list" | ReadError | ReadSleep

definition pipe_init :: "u8 list \<Rightarrow> pipe" where
  "pipe_init page = \<lparr>p_data = take PIPESIZE page, nread = 0, nwrite = 0, readopen = True, writeopen = True\<rparr>"

definition pipe_full :: "pipe \<Rightarrow> bool" where
  "pipe_full p \<longleftrightarrow> nwrite p = nread p + of_nat PIPESIZE"

definition pipe_put :: "u8 \<Rightarrow> pipe \<Rightarrow> pipe" where
  "pipe_put c p = p\<lparr>p_data := (p_data p)[unat (nwrite p) mod PIPESIZE := c], nwrite := nwrite p + 1\<rparr>"

fun pipewrite :: "bool \<Rightarrow> u8 list \<Rightarrow> pipe \<Rightarrow> write_result \<times> pipe" where
  "pipewrite killed [] p = (Wrote, p)"
| "pipewrite killed (c # cs) p =
     (if pipe_full p then
        if \<not> readopen p \<or> killed then (WriteError, p) else (WriteSleep (c # cs), p)
      else pipewrite killed cs (pipe_put c p))"

primrec piperead_loop :: "nat \<Rightarrow> pipe \<Rightarrow> u8 list \<times> pipe" where
  "piperead_loop 0 p = ([], p)"
| "piperead_loop (Suc n) p =
     (if nread p = nwrite p then ([], p)
      else
        (let c = p_data p ! (unat (nread p) mod PIPESIZE);
             (cs, p) = piperead_loop n (p\<lparr>nread := nread p + 1\<rparr>)
         in (c # cs, p)))"

definition piperead :: "bool \<Rightarrow> nat \<Rightarrow> pipe \<Rightarrow> read_result \<times> pipe" where
  "piperead killed n p =
     (if nread p = nwrite p \<and> writeopen p then
        if killed then (ReadError, p) else (ReadSleep, p)
      else (let (cs, p) = piperead_loop n p in (ReadBytes cs, p)))"

text \<open>The second result says that both ends are closed and the page is freed.\<close>

definition pipeclose :: "bool \<Rightarrow> pipe \<Rightarrow> pipe \<times> bool" where
  "pipeclose writable p =
     (let p = (if writable then p\<lparr>writeopen := False\<rparr> else p\<lparr>readopen := False\<rparr>)
      in (p, \<not> readopen p \<and> \<not> writeopen p))"

section \<open>The buffer as a queue\<close>

definition pipe_inv :: "pipe \<Rightarrow> bool" where
  "pipe_inv p \<longleftrightarrow> length (p_data p) = PIPESIZE \<and> unat (nwrite p - nread p) \<le> PIPESIZE"

definition pending :: "pipe \<Rightarrow> u8 list" where
  "pending p = map (\<lambda>i. p_data p ! ((unat (nread p) + i) mod PIPESIZE)) [0..<unat (nwrite p - nread p)]"

lemma length_pending [simp]: "length (pending p) = unat (nwrite p - nread p)"
  by (simp add: pending_def)

lemma nth_pending:
  "i < length (pending p) \<Longrightarrow> pending p ! i = p_data p ! ((unat (nread p) + i) mod PIPESIZE)"
  by (simp add: pending_def)

lemma unat_plus_mod: "unat (a + b :: u32) mod PIPESIZE = (unat a + unat b) mod PIPESIZE"
proof -
  have "(512 :: nat) dvd 2 ^ 32" by (simp add: dvd_def)
  then show ?thesis by (simp add: unat_word_ariths PIPESIZE_def mod_mod_cancel)
qed

lemma full_iff: "pipe_inv p \<Longrightarrow> pipe_full p \<longleftrightarrow> length (pending p) = PIPESIZE"
proof -
  have "nwrite p = nread p + of_nat PIPESIZE \<longleftrightarrow> nwrite p - nread p = of_nat PIPESIZE"
    by (auto simp: algebra_simps)
  then show ?thesis by (simp add: pipe_full_def PIPESIZE_def word_unat_eq_iff)
qed

lemma empty_iff: "nread p = nwrite p \<longleftrightarrow> pending p = []"
proof -
  have "pending p = [] \<longleftrightarrow> nwrite p - nread p = 0"
    by (metis length_0_conv length_pending unat_eq_zero)
  then show ?thesis by auto
qed

lemma pipe_put_queue:
  assumes inv: "pipe_inv p" and room: "\<not> pipe_full p"
  shows "pipe_inv (pipe_put c p)" "pending (pipe_put c p) = pending p @ [c]"
proof -
  let ?n = "unat (nwrite p - nread p)"
  have n: "?n < PIPESIZE" using inv full_iff [OF inv] room by (simp add: pipe_inv_def)
  have e: "nwrite p + 1 - nread p = nwrite p - nread p + 1" by simp
  have n': "unat (nwrite p + 1 - nread p) = Suc ?n"
    unfolding e using n unat_add_no_wrap [of "nwrite p - nread p" 1] by (simp add: PIPESIZE_def)
  show "pipe_inv (pipe_put c p)"
    using inv n n' by (simp add: pipe_inv_def pipe_put_def)
  have w: "unat (nwrite p) mod PIPESIZE = (unat (nread p) + ?n) mod PIPESIZE"
    using unat_plus_mod [of "nread p" "nwrite p - nread p"] by simp
  have ne: "(unat (nread p) + i) mod PIPESIZE \<noteq> (unat (nread p) + ?n) mod PIPESIZE" if "i < ?n" for i
  proof
    assume "(unat (nread p) + i) mod PIPESIZE = (unat (nread p) + ?n) mod PIPESIZE"
    then have "PIPESIZE dvd (unat (nread p) + ?n) - (unat (nread p) + i)"
      using that by (metis add_le_cancel_left less_imp_le_nat mod_eq_dvd_iff_nat)
    then have "PIPESIZE dvd ?n - i" by simp
    with that n show False by (simp add: nat_dvd_not_less)
  qed
  show "pending (pipe_put c p) = pending p @ [c]"
  proof (rule nth_equalityI)
    show "length (pending (pipe_put c p)) = length (pending p @ [c])"
      by (simp add: pipe_put_def n')
    fix i assume "i < length (pending (pipe_put c p))"
    then have "i < Suc ?n" by (simp add: pipe_put_def n')
    then consider "i < ?n" | "i = ?n" by linarith
    then show "pending (pipe_put c p) ! i = (pending p @ [c]) ! i"
    proof cases
      case 1
      then show ?thesis
        using ne [OF 1] by (simp add: nth_pending nth_append pipe_put_def n' w)
    next
      case 2
      have "(unat (nread p) + ?n) mod PIPESIZE < length (p_data p)"
        using inv by (simp add: pipe_inv_def PIPESIZE_def)
      with 2 show ?thesis by (simp add: nth_pending nth_append pipe_put_def n' w)
    qed
  qed
qed

lemma pipe_get_queue:
  assumes inv: "pipe_inv p" and ne: "nread p \<noteq> nwrite p"
  defines "p' \<equiv> p\<lparr>nread := nread p + 1\<rparr>"
  shows "pipe_inv p'" "pending p = p_data p ! (unat (nread p) mod PIPESIZE) # pending p'"
proof -
  let ?n = "unat (nwrite p - nread p)"
  have pos: "0 < ?n" using ne by (simp add: unat_gt_0)
  have e: "nwrite p - (nread p + 1) = nwrite p - nread p - 1" by simp
  have n': "Suc (unat (nwrite p - (nread p + 1))) = ?n"
    unfolding e using pos ne by (simp add: unat_minus_one)
  show "pipe_inv p'" using inv n' by (simp add: pipe_inv_def p'_def)
  show "pending p = p_data p ! (unat (nread p) mod PIPESIZE) # pending p'"
  proof (rule nth_equalityI)
    show "length (pending p) = length (p_data p ! (unat (nread p) mod PIPESIZE) # pending p')"
      using n' by (simp add: p'_def)
    fix i assume i: "i < length (pending p)"
    show "pending p ! i = (p_data p ! (unat (nread p) mod PIPESIZE) # pending p') ! i"
    proof (cases i)
      case 0
      with i show ?thesis by (simp add: nth_pending)
    next
      case (Suc j)
      have j: "j < length (pending p')" using i Suc n' by (simp add: p'_def)
      have "(unat (nread p + 1) + j) mod PIPESIZE = (unat (nread p) + Suc j) mod PIPESIZE"
      proof -
        have "(unat (nread p + 1) + j) mod PIPESIZE = (unat (nread p + 1) mod PIPESIZE + j) mod PIPESIZE"
          by (simp add: mod_add_left_eq)
        also have "\<dots> = (unat (nread p) + 1 + j) mod PIPESIZE"
          by (simp only: unat_plus_mod unat_1 mod_add_left_eq)
        finally show ?thesis by simp
      qed
      with i j Suc show ?thesis by (simp add: nth_pending p'_def)
    qed
  qed
qed

text \<open>
  The interface between the two loops and the buffer: a queue with bounded capacity, on
  which they are correct whatever its implementation.
\<close>

locale bounded_queue =
  fixes inv :: "'q \<Rightarrow> bool" and contents :: "'q \<Rightarrow> 'c list" and cap :: nat
    and full :: "'q \<Rightarrow> bool" and put :: "'c \<Rightarrow> 'q \<Rightarrow> 'q"
    and empty :: "'q \<Rightarrow> bool" and get :: "'q \<Rightarrow> 'c \<times> 'q"
  assumes full_law: "inv q \<Longrightarrow> full q \<longleftrightarrow> length (contents q) = cap"
    and bound: "inv q \<Longrightarrow> length (contents q) \<le> cap"
    and put_law: "inv q \<Longrightarrow> \<not> full q \<Longrightarrow> inv (put c q) \<and> contents (put c q) = contents q @ [c]"
    and empty_law: "inv q \<Longrightarrow> empty q \<longleftrightarrow> contents q = []"
    and get_law: "inv q \<Longrightarrow> get q = (c, q') \<Longrightarrow> \<not> empty q \<Longrightarrow> inv q' \<and> contents q = c # contents q'"
begin

fun fill :: "'c list \<Rightarrow> 'q \<Rightarrow> 'c list \<times> 'q" where
  "fill [] q = ([], q)"
| "fill (c # cs) q = (if full q then (c # cs, q) else fill cs (put c q))"

fun drain :: "nat \<Rightarrow> 'q \<Rightarrow> 'c list \<times> 'q" where
  "drain 0 q = ([], q)"
| "drain (Suc n) q = (if empty q then ([], q) else (let (c, q) = get q; (cs, q) = drain n q in (c # cs, q)))"

lemma fill_spec:
  "inv q \<Longrightarrow> fill cs q = (rest, q') \<Longrightarrow>
   inv q' \<and> (\<exists>k. rest = drop k cs \<and> contents q' = contents q @ take k cs \<and>
     k = min (length cs) (cap - length (contents q)))"
proof (induction cs arbitrary: q)
  case Nil
  then show ?case by simp
next
  case (Cons c cs)
  show ?case
  proof (cases "full q")
    case True
    with Cons.prems show ?thesis using full_law [of q] by auto
  next
    case False
    have p: "inv (put c q)" "contents (put c q) = contents q @ [c]" using put_law Cons.prems(1) False by auto
    have "length (contents q) < cap" using full_law [of q] bound [of q] Cons.prems(1) False by simp
    then have cap: "cap - length (contents q) = Suc (cap - Suc (length (contents q)))" by simp
    have f: "fill cs (put c q) = (rest, q')" using Cons.prems(2) False by simp
    from Cons.IH [OF p(1) f] show ?thesis unfolding p(2) by (auto simp: cap)
  qed
qed

lemma drain_spec:
  "inv q \<Longrightarrow> drain n q = (cs, q') \<Longrightarrow> inv q' \<and> cs = take n (contents q) \<and> contents q' = drop n (contents q)"
proof (induction n arbitrary: q cs q')
  case (Suc n)
  show ?case
  proof (cases "empty q")
    case True
    with Suc.prems show ?thesis using empty_law [of q] by auto
  next
    case False
    obtain c q1 where g: "get q = (c, q1)" by force
    obtain ds q2 where d: "drain n q1 = (ds, q2)" by force
    have "inv q1" "contents q = c # contents q1" using get_law [OF Suc.prems(1) g False] by auto
    with Suc.IH [of q1 ds q2] Suc.prems(2) g d False show ?thesis by auto
  qed
qed simp

end

definition pipe_get :: "pipe \<Rightarrow> u8 \<times> pipe" where
  "pipe_get p = (p_data p ! (unat (nread p) mod PIPESIZE), p\<lparr>nread := nread p + 1\<rparr>)"

interpretation ring: bounded_queue pipe_inv pending PIPESIZE pipe_full pipe_put "\<lambda>p. nread p = nwrite p" pipe_get
proof
  fix p c p'
  show "pipe_inv p \<Longrightarrow> pipe_full p \<longleftrightarrow> length (pending p) = PIPESIZE" by (rule full_iff)
  show "pipe_inv p \<Longrightarrow> length (pending p) \<le> PIPESIZE" by (simp add: pipe_inv_def)
  show "pipe_inv p \<Longrightarrow> \<not> pipe_full p \<Longrightarrow> pipe_inv (pipe_put c p) \<and> pending (pipe_put c p) = pending p @ [c]"
    using pipe_put_queue by simp
  show "pipe_inv p \<Longrightarrow> nread p = nwrite p \<longleftrightarrow> pending p = []" using empty_iff by simp
  show "pipe_inv p \<Longrightarrow> pipe_get p = (c, p') \<Longrightarrow> nread p \<noteq> nwrite p \<Longrightarrow> pipe_inv p' \<and> pending p = c # pending p'"
    using pipe_get_queue [of p] by (auto simp: pipe_get_def)
qed

lemma pipewrite_fill:
  "pipewrite killed cs p =
     (let (rest, p') = ring.fill cs p in
      (if rest = [] then Wrote else if \<not> readopen p \<or> killed then WriteError else WriteSleep rest, p'))"
proof (induction killed cs p rule: pipewrite.induct)
  case (2 killed c cs p)
  have "readopen (pipe_put c p) = readopen p" by (simp add: pipe_put_def)
  with 2 show ?case by (simp split: prod.splits)
qed simp


lemma fill_flags: "ring.fill cs p = (rest, p') \<Longrightarrow> readopen p' = readopen p \<and> writeopen p' = writeopen p \<and> nread p' = nread p"
  by (induction cs arbitrary: p) (auto simp: pipe_put_def split: if_splits)

section \<open>Readers and writers\<close>

text \<open>
  Any interleaving of calls on one pipe, with the history of the bytes that writers have
  handed over and of those that readers have received.  A step is a run of \<open>pipewrite\<close> or
  \<open>piperead\<close> between two sleeps, by any process and with any arguments, or the closing of
  an end.
\<close>

record pipe_sys =
  the_pipe :: pipe
  sent :: "u8 list"
  received :: "u8 list"

inductive pipe_step :: "pipe_sys \<Rightarrow> pipe_sys \<Rightarrow> bool" where
  wrote: "pipewrite killed cs (the_pipe s) = (r, p) \<Longrightarrow>
    pipe_step s (s\<lparr>the_pipe := p, sent := sent s @ take (unat (nwrite p - nwrite (the_pipe s))) cs\<rparr>)"
| was_read: "piperead killed n (the_pipe s) = (ReadBytes cs, p) \<Longrightarrow>
    pipe_step s (s\<lparr>the_pipe := p, received := received s @ cs\<rparr>)"
| closed: "pipe_step s (s\<lparr>the_pipe := fst (pipeclose w (the_pipe s))\<rparr>)"

inductive_cases pipe_stepE: "pipe_step s s'"


lemma fill_count:
  assumes "pipe_inv p" "ring.fill cs p = (rest, p')"
  shows "pending p' = pending p @ take (unat (nwrite p' - nwrite p)) cs" "rest = drop (unat (nwrite p' - nwrite p)) cs"
proof -
  obtain k where k: "pipe_inv p'" "rest = drop k cs" "pending p' = pending p @ take k cs" "k = min (length cs) (PIPESIZE - length (pending p))"
    using ring.fill_spec [OF assms] by blast
  have nr: "nread p' = nread p" using fill_flags [OF assms(2)] by simp
  have "unat (nwrite p' - nread p) = unat (nwrite p - nread p) + k"
    using arg_cong [OF k(3), of length] k(4) nr by simp
  moreover have "nwrite p' - nwrite p = (nwrite p' - nread p) - (nwrite p - nread p)" by simp
  ultimately have "unat (nwrite p' - nwrite p) = k"
    by (metis add_diff_cancel_left' le_add1 unat_sub word_le_nat_alt)
  with k show "pending p' = pending p @ take (unat (nwrite p' - nwrite p)) cs" "rest = drop (unat (nwrite p' - nwrite p)) cs"
    by simp_all
qed

lemma pipewrite_spec:
  assumes "pipe_inv p" "pipewrite killed cs p = (r, p')"
  defines "k \<equiv> unat (nwrite p' - nwrite p)"
  shows "pipe_inv p'" "pending p' = pending p @ take k cs"
    "r = (if drop k cs = [] then Wrote else if \<not> readopen p \<or> killed then WriteError else WriteSleep (drop k cs))"
    "drop k cs \<noteq> [] \<Longrightarrow> length (pending p') = PIPESIZE"
proof -
  obtain rest where f: "ring.fill cs p = (rest, p')"
    and r: "r = (if rest = [] then Wrote else if \<not> readopen p \<or> killed then WriteError else WriteSleep rest)"
    using assms(2) by (auto simp: pipewrite_fill Let_def split: prod.splits)
  obtain j where j: "pipe_inv p'" "rest = drop j cs" "pending p' = pending p @ take j cs" "j = min (length cs) (PIPESIZE - length (pending p))"
    using ring.fill_spec [OF assms(1) f] by blast
  note c = fill_count [OF assms(1) f, folded k_def]
  show "pipe_inv p'" by (rule j(1))
  show "pending p' = pending p @ take k cs" by (rule c(1))
  show "r = (if drop k cs = [] then Wrote else if \<not> readopen p \<or> killed then WriteError else WriteSleep (drop k cs))"
    using r c(2) by simp
  show "length (pending p') = PIPESIZE" if "drop k cs \<noteq> []"
  proof -
    have "drop j cs \<noteq> []" using that c(2) j(2) by simp
    then have "j < length cs" by simp
    moreover have "length (pending p) \<le> PIPESIZE" using assms(1) by (simp add: pipe_inv_def)
    ultimately show ?thesis using j(3,4) arg_cong [OF j(3), of length] by simp
  qed
qed



section \<open>Properties\<close>


lemma pipe_init_inv: "PIPESIZE \<le> length page \<Longrightarrow> pipe_inv (pipe_init page) \<and> pending (pipe_init page) = []"
  by (simp add: pipe_inv_def pipe_init_def pending_def)



text \<open>
  \<open>pipewrite\<close> stores a prefix of its bytes and returns only when all are stored; it
  goes to sleep or fails only with the buffer completely full, and fails exactly when the
  read end is closed or the process was killed.
\<close>

theorem pipewrite_blocks_only_when_full:
  assumes "pipe_inv p" "pipewrite killed cs p = (r, p')"
  shows "\<exists>k. pending p' = pending p @ take k cs \<and> pipe_inv p' \<and>
    (r = Wrote \<longrightarrow> drop k cs = []) \<and>
    (r = WriteSleep (drop k cs) \<longrightarrow> length (pending p') = PIPESIZE \<and> readopen p \<and> \<not> killed) \<and>
    (r = WriteError \<longrightarrow> length (pending p') = PIPESIZE \<and> (\<not> readopen p \<or> killed)) \<and>
    r \<in> {Wrote, WriteError, WriteSleep (drop k cs)}"
  using pipewrite_spec [OF assms]
  by (intro exI [of _ "unat (nwrite p' - nwrite p)"]) (auto split: if_splits)

theorem pipewrite_blocks_only_when_full_witness:
  "\<exists>r p'. pipewrite False (replicate 600 7) (pipe_init (replicate 4096 1)) = (r, p') \<and> pipe_inv p' \<and>
     r \<noteq> WriteError"
proof -
  obtain r p' where w: "pipewrite False (replicate 600 7) (pipe_init (replicate 4096 1)) = (r, p')" by force
  have i: "pipe_inv (pipe_init (replicate 4096 1))" using pipe_init_inv by (simp add: PIPESIZE_def)
  have o: "readopen (pipe_init (replicate 4096 1))" by (simp add: pipe_init_def)
  from pipewrite_blocks_only_when_full [OF i w] w o show ?thesis by auto
qed

end
