(* ===== verification/Xv6_Kalloc.thy ===== *)
theory Xv6_Kalloc
  imports Xv6_String
begin

text \<open>
  The physical page allocator, \<^verbatim>\<open>kalloc.c\<close>.

  Memory is the byte-addressed memory of the string routines, and the free list lives in
  it: the first word of a free page holds the address of the next one.  The address \<open>end\<close>
  of the end of the kernel comes from the linker and is an argument \<open>kend\<close>.  The lemmas show
  that the list in memory refines a stack of page addresses and that a page is on it at
  most once.
\<close>

definition PGSIZE :: u32 where "PGSIZE = 4096"
definition KERNBASE :: u32 where "KERNBASE = 0x80000000"
definition PHYSTOP :: u32 where "PHYSTOP = 0xE000000"

definition V2P :: "u32 \<Rightarrow> u32" where "V2P a = a - KERNBASE"
definition P2V :: "u32 \<Rightarrow> u32" where "P2V a = a + KERNBASE"

definition PGROUNDUP :: "u32 \<Rightarrow> u32" where "PGROUNDUP sz = (sz + PGSIZE - 1) AND NOT (PGSIZE - 1)"
definition PGROUNDDOWN :: "u32 \<Rightarrow> u32" where "PGROUNDDOWN a = a AND NOT (PGSIZE - 1)"

definition load32 :: "mem \<Rightarrow> u32 \<Rightarrow> u32" where
  "load32 m p = of_le32 [m p, m (p + 1), m (p + 2), m (p + 3)]"

definition store32 :: "u32 \<Rightarrow> u32 \<Rightarrow> mem \<Rightarrow> mem" where
  "store32 p w m = m(p := le32 w ! 0, p + 1 := le32 w ! 1, p + 2 := le32 w ! 2, p + 3 := le32 w ! 3)"

record kmem =
  use_lock :: bool
  freelist :: u32
  kmem_mem :: mem

section \<open>Operations\<close>

definition kfree :: "u32 \<Rightarrow> u32 \<Rightarrow> kmem \<Rightarrow> kmem res" where
  "kfree kend v k =
     (if v mod PGSIZE \<noteq> 0 \<or> v < kend \<or> V2P v \<ge> PHYSTOP then Fail (Panic ''kfree'')
      else
        (let m = memset v 1 PGSIZE (kmem_mem k);
             m = store32 v (freelist k) m
         in Ok (k\<lparr>kmem_mem := m, freelist := v\<rparr>)))"

definition kalloc :: "kmem \<Rightarrow> u32 \<times> kmem" where
  "kalloc k =
     (let r = freelist k in
      if r \<noteq> 0 then (r, k\<lparr>freelist := load32 (kmem_mem k) r\<rparr>) else (r, k))"

text \<open>The loop of \<open>freerange\<close>; the pointer does not wrap around.\<close>

function freerange_loop :: "u32 \<Rightarrow> u32 \<Rightarrow> u32 \<Rightarrow> kmem \<Rightarrow> kmem res" where
  "freerange_loop kend p vend k =
     (if unat p + unat PGSIZE \<le> unat vend then
        bindr (kfree kend p k) (\<lambda>k. freerange_loop kend (p + PGSIZE) vend k)
      else Ok k)"
  by pat_completeness auto
termination
proof (relation "measure (\<lambda>(kend, p, vend, k). unat vend - unat p)")
  fix kend p vend :: u32 and k k' :: kmem
  assume a: "unat p + unat PGSIZE \<le> unat vend"
  moreover have "unat vend < 2 ^ 32" by (rule unat_u32_bound)
  ultimately have "unat (p + PGSIZE) = unat p + unat PGSIZE" by (simp add: unat_add_no_wrap)
  with a show "((kend, p + PGSIZE, vend, k'), kend, p, vend, k) \<in> measure (\<lambda>(kend, p, vend, k). unat vend - unat p)"
    by (simp add: PGSIZE_def)
qed simp

declare freerange_loop.simps [simp del]

definition freerange :: "u32 \<Rightarrow> u32 \<Rightarrow> u32 \<Rightarrow> kmem \<Rightarrow> kmem res" where
  "freerange kend vstart vend k = freerange_loop kend (PGROUNDUP vstart) vend k"

definition kinit1 :: "u32 \<Rightarrow> u32 \<Rightarrow> u32 \<Rightarrow> kmem \<Rightarrow> kmem res" where
  "kinit1 kend vstart vend k = freerange kend vstart vend (k\<lparr>use_lock := False\<rparr>)"

definition kinit2 :: "u32 \<Rightarrow> u32 \<Rightarrow> u32 \<Rightarrow> kmem \<Rightarrow> kmem res" where
  "kinit2 kend vstart vend k = bindr (freerange kend vstart vend k) (\<lambda>k. Ok (k\<lparr>use_lock := True\<rparr>))"

section \<open>Pages\<close>

definition page_ok :: "u32 \<Rightarrow> u32 \<Rightarrow> bool" where
  "page_ok kend v \<longleftrightarrow> v mod PGSIZE = 0 \<and> kend \<le> v \<and> V2P v < PHYSTOP"

definition in_page :: "u32 \<Rightarrow> u32 \<Rightarrow> bool" where
  "in_page p x \<longleftrightarrow> x - p < PGSIZE"

lemma load32_store32_same [simp]: "load32 (store32 p w m) p = w"
proof -
  have ne: "p + 1 \<noteq> p" "p + 2 \<noteq> p" "p + 3 \<noteq> p" "p + 2 \<noteq> p + 1" "p + 3 \<noteq> p + 1" "p + 3 \<noteq> p + 2"
    by simp_all
  have "[le32 w ! 0, le32 w ! 1, le32 w ! 2, le32 w ! 3] = le32 w"
    by (simp add: le32_def)
  then show ?thesis
    by (simp add: load32_def store32_def ne ne [symmetric])
qed

lemma page_offset:
  assumes p: "p mod PGSIZE = 0" and q: "q mod PGSIZE = 0" and i: "unat i < 4096" and x: "in_page p (q + i)"
  shows "p = q"
proof -
  have range: "0 \<le> uint w" "uint w < 2 ^ 32" for w :: u32
    using unsigned_less [of w, where 'a = int] by simp_all
  have "uint p mod 4096 = 0" "uint q mod 4096 = 0"
    using arg_cong [OF p, of uint] arg_cong [OF q, of uint] by (simp_all add: uint_mod PGSIZE_def)
  then obtain a b where ab: "uint p = 4096 * a" "uint q = 4096 * b" by blast
  have i': "uint i < 4096" using i by (metis of_nat_less_iff of_nat_numeral uint_nat)
  have lt: "uint (q + i - p) < 4096"
    using x by (simp add: in_page_def PGSIZE_def word_less_def)
  have "uint (q + i - p) = (uint q + uint i - uint p) mod 2 ^ 32"
    by (simp add: uint_word_ariths mod_simps)
  then have m: "(4096 * (b - a) + uint i) mod 4294967296 < 4096"
    using lt ab by (simp add: algebra_simps)
  have b: "0 \<le> a" "a < 1048576" "0 \<le> b" "b < 1048576"
    using range [of p] range [of q] ab by simp_all
  have "a = b"
  proof (cases "a \<le> b")
    case True
    then have "(4096 * (b - a) + uint i) mod 4294967296 = 4096 * (b - a) + uint i"
      using b i' range [of i] by (intro mod_pos_pos_trivial) simp_all
    with m have "4096 * (b - a) < 4096" using range [of i] by linarith
    with True show ?thesis by simp
  next
    case False
    have "(4096 * (b - a) + uint i) mod 4294967296 = (4096 * (b - a) + uint i + 4294967296) mod 4294967296"
      by simp
    also have "\<dots> = 4096 * (b - a) + uint i + 4294967296"
    proof (rule mod_pos_pos_trivial)
      have "b + 1 \<le> a" using False by simp
      then show "4096 * (b - a) + uint i + 4294967296 < 4294967296" using i' by simp
      have "4096 * a \<le> 4294967296" "0 \<le> 4096 * b" using b by simp_all
      moreover have "4096 * (b - a) = 4096 * b - 4096 * a" by simp
      ultimately show "0 \<le> 4096 * (b - a) + uint i + 4294967296" using range(1) [of i] by linarith
    qed
    finally have "4096 * (b - a) + uint i + 4294967296 < 4096" using m by simp
    moreover have "4096 - 4294967296 \<le> 4096 * (b - a)" using b by simp
    ultimately have False using range(1) [of i] by linarith
    then show ?thesis ..
  qed
  with ab show ?thesis by (simp add: word_uint_eq_iff)
qed

text \<open>What \<open>kfree\<close> does to memory: only the freed page changes.\<close>

lemma store32_other: "unat (x - p) \<ge> 4 \<Longrightarrow> store32 p w m x = m x"
proof -
  assume a: "unat (x - p) \<ge> 4"
  have "x \<noteq> p + i" if "unat i < 4" for i
    using a that by (auto simp: not_le [symmetric])
  from this [of 0] this [of 1] this [of 2] this [of 3] show ?thesis
    by (simp add: store32_def)
qed

lemma kfree_frame:
  assumes "kfree kend v k = Ok k'" "\<not> in_page v x"
  shows "kmem_mem k' x = kmem_mem k x"
proof -
  have k': "kmem_mem k' = store32 v (freelist k) (memset v 1 PGSIZE (kmem_mem k))"
    using assms(1) by (auto simp: kfree_def Let_def split: if_splits)
  have "4096 \<le> unat (x - v)"
    using assms(2) by (simp add: in_page_def PGSIZE_def word_less_nat_alt)
  then show ?thesis
    by (simp add: k' store32_other memset_apply PGSIZE_def)
qed

section \<open>The free list\<close>

text \<open>The list of free pages that starts at \<open>p\<close> in memory \<open>m\<close>.\<close>

primrec flist :: "mem \<Rightarrow> u32 \<Rightarrow> u32 list \<Rightarrow> bool" where
  "flist m p [] \<longleftrightarrow> p = 0"
| "flist m p (q # qs) \<longleftrightarrow> p = q \<and> q \<noteq> 0 \<and> flist m (load32 m q) qs"

definition kmem_rep :: "u32 \<Rightarrow> kmem \<Rightarrow> u32 list \<Rightarrow> bool" where
  "kmem_rep kend k ps \<longleftrightarrow> flist (kmem_mem k) (freelist k) ps \<and> distinct ps \<and> (\<forall>p \<in> set ps. page_ok kend p)"

lemma flist_cong:
  "(\<And>q. q \<in> set ps \<Longrightarrow> load32 m' q = load32 m q) \<Longrightarrow> flist m' p ps = flist m p ps"
  by (induction ps arbitrary: p) auto

lemma load32_other_page:
  assumes "\<And>x. \<not> in_page v x \<Longrightarrow> m' x = m x" "v mod PGSIZE = 0" "q mod PGSIZE = 0" "q \<noteq> v"
  shows "load32 m' q = load32 m q"
proof -
  have "m' (q + i) = m (q + i)" if "unat i < 4096" for i
    by (rule assms(1)) (use page_offset [of v q i] assms that in auto)
  from this [of 0] this [of 1] this [of 2] this [of 3] show ?thesis by (simp add: load32_def)
qed

lemma flist_unique: "flist m p ps \<Longrightarrow> flist m p qs \<Longrightarrow> ps = qs"
proof (induction ps arbitrary: p qs)
  case Nil
  then show ?case by (cases qs) auto
next
  case (Cons q ps)
  then show ?case by (cases qs) auto
qed

lemma kfree_rep:
  assumes rep: "kmem_rep kend k ps" and v: "page_ok kend v" "v \<notin> set ps" "v \<noteq> 0"
  obtains k' where "kfree kend v k = Ok k'" "kmem_rep kend k' (v # ps)" "use_lock k' = use_lock k"
    "\<And>x. \<not> in_page v x \<Longrightarrow> kmem_mem k' x = kmem_mem k x"
proof -
  obtain k' where k': "kfree kend v k = Ok k'" "freelist k' = v" "use_lock k' = use_lock k"
    "kmem_mem k' = store32 v (freelist k) (memset v 1 PGSIZE (kmem_mem k))"
    using v by (simp add: kfree_def page_ok_def Let_def not_less not_le)
  note fr = kfree_frame [OF k'(1)]
  have "load32 (kmem_mem k') q = load32 (kmem_mem k) q" if "q \<in> set ps" for q
    using fr v rep that by (intro load32_other_page [of v]) (auto simp: kmem_rep_def page_ok_def)
  then have "flist (kmem_mem k') (freelist k) ps"
    using rep flist_cong [of ps "kmem_mem k'" "kmem_mem k"] by (simp add: kmem_rep_def)
  then have "kmem_rep kend k' (v # ps)" using rep v k' by (simp add: kmem_rep_def)
  then show ?thesis by (rule that [OF k'(1) _ k'(3) fr])
qed

lemma kalloc_rep:
  assumes "kmem_rep kend k ps"
  shows "kalloc k = (case ps of [] \<Rightarrow> (0, k) | p # qs \<Rightarrow> (p, k\<lparr>freelist := load32 (kmem_mem k) p\<rparr>))"
    and "kmem_rep kend (snd (kalloc k)) (tl ps)"
  using assms by (cases ps; simp add: kalloc_def kmem_rep_def Let_def)+

section \<open>The interface of the allocator\<close>

text \<open>
  What the callers rely on: the allocator holds a stack of distinct pages; allocation pops
  it, or returns 0 when it is empty, and freeing pushes.
\<close>

locale page_allocator =
  fixes alloc :: "'k \<Rightarrow> u32 \<times> 'k" and free :: "u32 \<Rightarrow> 'k \<Rightarrow> 'k res"
    and rep :: "'k \<Rightarrow> u32 list \<Rightarrow> bool" and ok :: "u32 \<Rightarrow> bool"
  assumes alloc_empty: "rep k [] \<Longrightarrow> alloc k = (0, k)"
    and alloc_page: "rep k (p # ps) \<Longrightarrow> \<exists>k'. alloc k = (p, k') \<and> rep k' ps"
    and free_page: "rep k ps \<Longrightarrow> ok v \<Longrightarrow> v \<notin> set ps \<Longrightarrow> v \<noteq> 0 \<Longrightarrow> \<exists>k'. free v k = Ok k' \<and> rep k' (v # ps)"
    and rep_pages: "rep k ps \<Longrightarrow> distinct ps \<and> (\<forall>p \<in> set ps. ok p \<and> p \<noteq> 0)"
begin

lemma alloc_cases:
  assumes "rep k ps" "alloc k = (p, k')"
  shows "p = 0 \<and> ps = [] \<and> k' = k \<or> p \<noteq> 0 \<and> ok p \<and> (\<exists>qs. ps = p # qs \<and> p \<notin> set qs \<and> rep k' qs)"
proof (cases ps)
  case Nil
  with assms alloc_empty [of k] show ?thesis by simp
next
  case (Cons q qs)
  with assms alloc_page [of k q qs] rep_pages [of k ps] show ?thesis by auto
qed

lemma free_then_alloc:
  assumes "rep k ps" "ok v" "v \<notin> set ps" "v \<noteq> 0"
  shows "\<exists>k' k''. free v k = Ok k' \<and> alloc k' = (v, k'') \<and> rep k'' ps"
  using free_page [OF assms] alloc_page by blast

text \<open>Pages handed out one after the other are all different.\<close>

primrec alloc_many :: "nat \<Rightarrow> 'k \<Rightarrow> u32 list \<times> 'k" where
  "alloc_many 0 k = ([], k)"
| "alloc_many (Suc n) k = (let (p, k) = alloc k; (qs, k) = alloc_many n k in (p # qs, k))"

lemma alloc_many_pops:
  "rep k ps \<Longrightarrow> n \<le> length ps \<Longrightarrow> \<exists>k'. alloc_many n k = (take n ps, k') \<and> rep k' (drop n ps)"
proof (induction n arbitrary: k ps)
  case (Suc n)
  then obtain p qs where ps: "ps = p # qs" by (cases ps) auto
  obtain k1 where k1: "alloc k = (p, k1)" "rep k1 qs" using alloc_page Suc.prems(1) ps by blast
  with Suc.IH [of k1 qs] Suc.prems(2) ps show ?case by auto
qed simp

end

interpretation kpages: page_allocator kalloc "kfree kend" "kmem_rep kend" "page_ok kend" for kend
proof
  fix k ps p v
  show "kmem_rep kend k [] \<Longrightarrow> kalloc k = (0, k)" using kalloc_rep(1) by force
  show "\<exists>k'. kalloc k = (p, k') \<and> kmem_rep kend k' ps" if "kmem_rep kend k (p # ps)"
    using kalloc_rep [OF that] by simp
  show "\<exists>k'. kfree kend v k = Ok k' \<and> kmem_rep kend k' (v # ps)"
    if "kmem_rep kend k ps" "page_ok kend v" "v \<notin> set ps" "v \<noteq> 0"
    using kfree_rep [OF that] by blast
  show "distinct ps \<and> (\<forall>p \<in> set ps. page_ok kend p \<and> p \<noteq> 0)" if "kmem_rep kend k ps"
  proof -
    have "p \<noteq> 0" if "flist m q ps" "p \<in> set ps" for m q p
      using that by (induction ps arbitrary: q) auto
    with that show ?thesis by (auto simp: kmem_rep_def)
  qed
qed

section \<open>Initialisation\<close>

primrec pages_from :: "nat \<Rightarrow> u32 \<Rightarrow> u32 list" where
  "pages_from 0 p = []"
| "pages_from (Suc n) p = p # pages_from n (p + PGSIZE)"

lemma freerange_loop_rep:
  assumes "unat p + 4096 * n \<le> unat vend" "unat vend < unat p + 4096 * Suc n"
    and "kmem_rep kend k ps" "distinct (pages_from n p)" "set (pages_from n p) \<inter> set ps = {}"
    and "\<forall>q \<in> set (pages_from n p). page_ok kend q \<and> q \<noteq> 0"
  shows "\<exists>k'. freerange_loop kend p vend k = Ok k' \<and> kmem_rep kend k' (rev (pages_from n p) @ ps) \<and>
    use_lock k' = use_lock k"
  using assms
proof (induction n arbitrary: p k ps)
  case 0
  then show ?case by (subst freerange_loop.simps) (simp add: PGSIZE_def)
next
  case (Suc n)
  have go: "unat p + unat PGSIZE \<le> unat vend" using Suc.prems(1) by (simp add: PGSIZE_def)
  have "unat vend < 2 ^ 32" by (rule unat_u32_bound)
  with go have up: "unat (p + PGSIZE) = unat p + 4096"
    by (simp add: unat_add_no_wrap PGSIZE_def)
  obtain k1 where k1: "kfree kend p k = Ok k1" "kmem_rep kend k1 (p # ps)" "use_lock k1 = use_lock k"
  proof (rule kfree_rep [OF Suc.prems(3), of p])
    show "page_ok kend p" "p \<notin> set ps" "p \<noteq> 0" using Suc.prems(5,6) by auto
  qed blast
  have "\<exists>k'. freerange_loop kend (p + PGSIZE) vend k1 = Ok k' \<and>
      kmem_rep kend k' (rev (pages_from n (p + PGSIZE)) @ p # ps) \<and> use_lock k' = use_lock k1"
    by (rule Suc.IH) (use Suc.prems k1 up in auto)
  with k1 go show ?case by (subst freerange_loop.simps) simp
qed

section \<open>Properties\<close>

text \<open>An allocator with no free page.\<close>

definition empty_kmem :: kmem where
  "empty_kmem = \<lparr>use_lock = False, freelist = 0, kmem_mem = (\<lambda>_. 0)\<rparr>"

lemma empty_kmem_rep: "kmem_rep kend empty_kmem []"
  by (simp add: kmem_rep_def empty_kmem_def)

text \<open>
  The free list kept in the free pages themselves refines a stack: \<open>kfree\<close> of a page
  that is not free succeeds and pushes it, changes no byte outside that page, and the next
  \<open>kalloc\<close> returns that page and restores the list.
\<close>

theorem kfree_kalloc_stack:
  assumes "kmem_rep kend k ps" "page_ok kend v" "v \<notin> set ps" "v \<noteq> 0"
  shows "\<exists>k' k''. kfree kend v k = Ok k' \<and> kmem_rep kend k' (v # ps) \<and>
    (\<forall>x. \<not> in_page v x \<longrightarrow> kmem_mem k' x = kmem_mem k x) \<and> kalloc k' = (v, k'') \<and> kmem_rep kend k'' ps"
proof -
  obtain k' where k': "kfree kend v k = Ok k'" "kmem_rep kend k' (v # ps)"
    "\<forall>x. \<not> in_page v x \<longrightarrow> kmem_mem k' x = kmem_mem k x"
    using kfree_rep [OF assms] by metis
  then show ?thesis using kpages.alloc_page [OF k'(2)] by blast
qed

theorem kfree_kalloc_stack_witness:
  "\<exists>k' k''. kfree 0x80100000 0x80200000 empty_kmem = Ok k' \<and> kalloc k' = (0x80200000, k'') \<and>
     kmem_rep 0x80100000 k'' []"
  using kfree_kalloc_stack [OF empty_kmem_rep, where kend = "0x80100000" and v = "0x80200000"]
  by (auto simp: page_ok_def PGSIZE_def V2P_def KERNBASE_def PHYSTOP_def)

text \<open>
  C19. \<open>kalloc\<close> never hands out a page twice: \<open>n\<close> calls in a row on an allocator with at
  least \<open>n\<close> free pages return \<open>n\<close> different pages, none of which is still free, all page
  aligned and between the end of the kernel and the top of physical memory.
\<close>

theorem kalloc_no_double:
  assumes "kmem_rep kend k ps" "n \<le> length ps"
  shows "\<exists>qs k'. kpages.alloc_many n k = (qs, k') \<and> length qs = n \<and> distinct qs \<and>
    kmem_rep kend k' (drop n ps) \<and> set qs \<inter> set (drop n ps) = {} \<and> (\<forall>q \<in> set qs. page_ok kend q)"
proof -
  obtain k' where "kpages.alloc_many n k = (take n ps, k')" "kmem_rep kend k' (drop n ps)"
    using kpages.alloc_many_pops [OF assms] by blast
  moreover have "distinct ps" "\<forall>q \<in> set ps. page_ok kend q" using assms(1) by (simp_all add: kmem_rep_def)
  ultimately show ?thesis
    using assms(2) by (auto simp: set_take_disj_set_drop_if_distinct dest: in_set_takeD)
qed

theorem kalloc_no_double_witness:
  "\<exists>k qs k'. kpages.alloc_many 2 k = (qs, k') \<and> length qs = 2 \<and> distinct qs"
proof -
  have ok: "page_ok 0x80100000 0x80200000" "page_ok 0x80100000 0x80201000"
    by (simp_all add: page_ok_def PGSIZE_def V2P_def KERNBASE_def PHYSTOP_def)
  obtain k1 where "kmem_rep 0x80100000 k1 [0x80200000]"
    using kpages.free_page [OF empty_kmem_rep ok(1)] by auto
  then obtain k2 where "kmem_rep 0x80100000 k2 [0x80201000, 0x80200000]"
    using kpages.free_page [OF _ ok(2)] by fastforce
  from kalloc_no_double [OF this, of 2] show ?thesis by auto
qed

text \<open>
  \<open>freerange\<close> puts every whole page of the range on the free list, each once, and
  terminates: for the \<open>n\<close> pages between the rounded-up start and the end, none of them
  free before, the free list afterwards is these pages followed by the old list.
\<close>

theorem freerange_frees_all:
  assumes "unat (PGROUNDUP vstart) + 4096 * n \<le> unat vend" "unat vend < unat (PGROUNDUP vstart) + 4096 * Suc n"
    and "kmem_rep kend k ps" "distinct (pages_from n (PGROUNDUP vstart))"
    and "set (pages_from n (PGROUNDUP vstart)) \<inter> set ps = {}"
    and "\<forall>q \<in> set (pages_from n (PGROUNDUP vstart)). page_ok kend q \<and> q \<noteq> 0"
  shows "\<exists>k'. freerange kend vstart vend k = Ok k' \<and> kmem_rep kend k' (rev (pages_from n (PGROUNDUP vstart)) @ ps)"
  using freerange_loop_rep [OF assms] by (auto simp: freerange_def)

theorem freerange_frees_all_witness:
  "\<exists>k'. freerange 0x80100000 0x80100123 0x80104000 empty_kmem = Ok k' \<and>
     kmem_rep 0x80100000 k' [0x80103000, 0x80102000, 0x80101000]"
proof -
  have r: "PGROUNDUP 0x80100123 = 0x80101000" by (simp add: PGROUNDUP_def PGSIZE_def)
  show ?thesis
    using freerange_frees_all [where vstart = "0x80100123" and n = 3 and vend = "0x80104000" and kend = "0x80100000",
        OF _ _ empty_kmem_rep]
    by (simp add: r numeral_3_eq_3 PGSIZE_def page_ok_def V2P_def KERNBASE_def PHYSTOP_def)
qed

end
