(* ===== verification/Xv6_File.thy ===== *)
theory Xv6_File
  imports Xv6_Dir Xv6_Pipe Xv6_Kalloc
begin

text \<open>
  Open files, \<^verbatim>\<open>file.c\<close>, and the allocation and closing of pipes of \<^verbatim>\<open>pipe.c\<close>, which
  use the file table and the page allocator.

  The state extends that of the file system with the file table, the pipes by the address
  of their page, the page allocator, the file descriptors of the running process and
  whether it has been killed.  A \<open>struct file *\<close> is an index into the table.  The bytes
  that a read stores and those that a write takes are lists; the system calls move them
  between the lists and user memory.
\<close>

definition NFILE :: nat where "NFILE = 100"
definition NOFILE :: nat where "NOFILE = 16"

datatype fdtype = FD_NONE | FD_PIPE | FD_INODE

record kfile =
  f_type :: fdtype
  f_ref :: int
  f_readable :: bool
  f_writable :: bool
  f_pipe :: u32
  f_ip :: nat
  f_off :: u32

record file_state = fs_state +
  ftable :: "kfile list"
  pipes :: "u32 \<Rightarrow> pipe"
  kpool :: kmem
  kend :: u32
  ofile :: "nat option list"
  pkilled :: bool

definition fil :: "nat \<Rightarrow> 'a file_state_scheme \<Rightarrow> kfile" where
  "fil f s = ftable s ! f"

definition upd_file :: "nat \<Rightarrow> (kfile \<Rightarrow> kfile) \<Rightarrow> 'a file_state_scheme \<Rightarrow> 'a file_state_scheme" where
  "upd_file f g s = s\<lparr>ftable := (ftable s)[f := g (ftable s ! f)]\<rparr>"

section \<open>The file table\<close>

fun filealloc_scan :: "kfile list \<Rightarrow> nat \<Rightarrow> nat option" where
  "filealloc_scan [] k = None"
| "filealloc_scan (f # fs) k = (if f_ref f = 0 then Some k else filealloc_scan fs (Suc k))"

definition filealloc :: "'a file_state_scheme \<Rightarrow> nat option \<times> 'a file_state_scheme" where
  "filealloc s =
     (case filealloc_scan (ftable s) 0 of
        Some f \<Rightarrow> (Some f, upd_file f (\<lambda>x. x\<lparr>f_ref := 1\<rparr>) s)
      | None \<Rightarrow> (None, s))"

definition filedup :: "nat \<Rightarrow> 'a file_state_scheme \<Rightarrow> 'a file_state_scheme res" where
  "filedup f s =
     (if f_ref (fil f s) < 1 then Fail (Panic ''filedup'')
      else Ok (upd_file f (\<lambda>x. x\<lparr>f_ref := f_ref x + 1\<rparr>) s))"

definition kpipeclose :: "u32 \<Rightarrow> bool \<Rightarrow> 'a file_state_scheme \<Rightarrow> 'a file_state_scheme res" where
  "kpipeclose p writable s =
     (let (q, dead) = pipeclose writable (pipes s p);
          s = s\<lparr>pipes := (pipes s)(p := q)\<rparr>
      in if dead then bindr (kfree (kend s) p (kpool s)) (\<lambda>k. Ok (s\<lparr>kpool := k\<rparr>)) else Ok s)"

definition fileclose :: "nat \<Rightarrow> 'a file_state_scheme \<Rightarrow> 'a file_state_scheme res" where
  "fileclose f s =
     (if f_ref (fil f s) < 1 then Fail (Panic ''fileclose'')
      else
        (let s = upd_file f (\<lambda>x. x\<lparr>f_ref := f_ref x - 1\<rparr>) s in
         if f_ref (fil f s) > 0 then Ok s
         else
           (let ff = fil f s;
                s = upd_file f (\<lambda>x. x\<lparr>f_ref := 0, f_type := FD_NONE\<rparr>) s
            in case f_type ff of
                 FD_PIPE \<Rightarrow> kpipeclose (f_pipe ff) (f_writable ff) s
               | FD_INODE \<Rightarrow>
                   bindr (begin_op s) (\<lambda>s.
                   bindr (iput (f_ip ff) s) (\<lambda>s.
                   end_op s))
               | FD_NONE \<Rightarrow> Ok s)))"

definition filestat :: "nat \<Rightarrow> 'a file_state_scheme \<Rightarrow> (int \<times> stat option \<times> 'a file_state_scheme) res" where
  "filestat f s =
     (if f_type (fil f s) = FD_INODE then
        bindr (ilock (f_ip (fil f s)) s) (\<lambda>s.
        let st = stati (f_ip (fil f s)) s in
        bindr (iunlock (f_ip (fil f s)) s) (\<lambda>s.
        Ok (0, Some st, s)))
      else Ok (- 1, None, s))"

section \<open>Reading and writing\<close>

definition kpiperead :: "u32 \<Rightarrow> nat \<Rightarrow> 'a file_state_scheme \<Rightarrow> (int \<times> u8 list \<times> 'a file_state_scheme) res" where
  "kpiperead p n s =
     (case piperead (pkilled s) n (pipes s p) of
        (ReadBytes bs, q) \<Rightarrow> Ok (int (length bs), bs, s\<lparr>pipes := (pipes s)(p := q)\<rparr>)
      | (ReadError, q) \<Rightarrow> Ok (- 1, [], s)
      | (ReadSleep, q) \<Rightarrow> Fail (Blocked ''piperead''))"

definition kpipewrite :: "u32 \<Rightarrow> u8 list \<Rightarrow> 'a file_state_scheme \<Rightarrow> (int \<times> 'a file_state_scheme) res" where
  "kpipewrite p bs s =
     (case pipewrite (pkilled s) bs (pipes s p) of
        (Wrote, q) \<Rightarrow> Ok (int (length bs), s\<lparr>pipes := (pipes s)(p := q)\<rparr>)
      | (WriteError, q) \<Rightarrow> Ok (- 1, s\<lparr>pipes := (pipes s)(p := q)\<rparr>)
      | (WriteSleep rest, q) \<Rightarrow> Fail (Blocked ''pipewrite''))"

definition fileread :: "'a file_state_scheme devsw \<Rightarrow> nat \<Rightarrow> nat \<Rightarrow> 'a file_state_scheme \<Rightarrow>
    (int \<times> u8 list \<times> 'a file_state_scheme) res" where
  "fileread devs f n s =
     (if \<not> f_readable (fil f s) then Ok (- 1, [], s)
      else case f_type (fil f s) of
        FD_PIPE \<Rightarrow> kpiperead (f_pipe (fil f s)) n s
      | FD_INODE \<Rightarrow>
          bindr (ilock (f_ip (fil f s)) s) (\<lambda>s.
          bindr (readi devs (f_ip (fil f s)) (f_off (fil f s)) (of_nat n) s) (\<lambda>(r, bs, s).
          let s = (if r > 0 then upd_file f (\<lambda>x. x\<lparr>f_off := f_off x + word_of_int r\<rparr>) s else s) in
          bindr (iunlock (f_ip (fil f s)) s) (\<lambda>s.
          Ok (r, bs, s))))
      | FD_NONE \<Rightarrow> Fail (Panic ''fileread''))"

definition write_max :: nat where
  "write_max = ((LOGSIZE - 1 - 1 - 2) div 2) * 512"

text \<open>The loop of \<open>filewrite\<close> over the bytes that are left; the result is whether all were written.\<close>

function filewrite_loop :: "'a file_state_scheme devsw \<Rightarrow> nat \<Rightarrow> u8 list \<Rightarrow> 'a file_state_scheme \<Rightarrow>
    (bool \<times> 'a file_state_scheme) res" where
  "filewrite_loop devs f bs s =
     (if bs = [] then Ok (True, s)
      else
        (let n1 = min (length bs) write_max in
         bindr (begin_op s) (\<lambda>s.
         bindr (ilock (f_ip (fil f s)) s) (\<lambda>s.
         bindr (writei devs (f_ip (fil f s)) (take n1 bs) (f_off (fil f s)) s) (\<lambda>(r, s).
         let s = (if r > 0 then upd_file f (\<lambda>x. x\<lparr>f_off := f_off x + word_of_int r\<rparr>) s else s) in
         bindr (iunlock (f_ip (fil f s)) s) (\<lambda>s.
         bindr (end_op s) (\<lambda>s.
         if r < 0 then Ok (False, s)
         else if r \<noteq> int n1 then Fail (Panic ''short filewrite'')
         else filewrite_loop devs f (drop n1 bs) s)))))))"
  by pat_completeness auto
termination
  by (relation "measure (\<lambda>(devs, f, bs, s). length bs)") (auto simp: write_max_def LOGSIZE_def)

declare filewrite_loop.simps [simp del]

definition filewrite :: "'a file_state_scheme devsw \<Rightarrow> nat \<Rightarrow> u8 list \<Rightarrow> 'a file_state_scheme \<Rightarrow>
    (int \<times> 'a file_state_scheme) res" where
  "filewrite devs f bs s =
     (if \<not> f_writable (fil f s) then Ok (- 1, s)
      else case f_type (fil f s) of
        FD_PIPE \<Rightarrow> kpipewrite (f_pipe (fil f s)) bs s
      | FD_INODE \<Rightarrow>
          bindr (filewrite_loop devs f bs s) (\<lambda>(all, s).
          Ok (if all then int (length bs) else - 1, s))
      | FD_NONE \<Rightarrow> Fail (Panic ''filewrite''))"

section \<open>Pipes in the file table\<close>

definition close_opt :: "nat option \<Rightarrow> 'a file_state_scheme \<Rightarrow> 'a file_state_scheme res" where
  "close_opt f s = (case f of None \<Rightarrow> Ok s | Some f \<Rightarrow> fileclose f s)"

definition pipealloc :: "'a file_state_scheme \<Rightarrow> ((nat \<times> nat) option \<times> 'a file_state_scheme) res" where
  "pipealloc s =
     (let (f0, s) = filealloc s;
          (f1, s) = (case f0 of None \<Rightarrow> (None, s) | Some _ \<Rightarrow> filealloc s) in
      case (f0, f1) of
        (Some r, Some w) \<Rightarrow>
          (let (p, k) = kalloc (kpool s); s = s\<lparr>kpool := k\<rparr> in
           if p = 0 then
             bindr (fileclose r s) (\<lambda>s. bindr (fileclose w s) (\<lambda>s. Ok (None, s)))
           else
             (let q = pipe_init (map (\<lambda>i. kmem_mem (kpool s) (p + 52 + of_nat i)) [0..<PIPESIZE]);
                  s = s\<lparr>pipes := (pipes s)(p := q)\<rparr>;
                  s = upd_file r (\<lambda>x. x\<lparr>f_type := FD_PIPE, f_readable := True, f_writable := False, f_pipe := p\<rparr>) s;
                  s = upd_file w (\<lambda>x. x\<lparr>f_type := FD_PIPE, f_readable := False, f_writable := True, f_pipe := p\<rparr>) s
              in Ok (Some (r, w), s)))
      | _ \<Rightarrow> bindr (close_opt f0 s) (\<lambda>s. bindr (close_opt f1 s) (\<lambda>s. Ok (None, s))))"

end
