(* ===== verification/Xv6_Sysfile.thy ===== *)
theory Xv6_Sysfile
  imports Xv6_File
begin

text \<open>
  The system calls on files, \<^verbatim>\<open>sysfile.c\<close>, and the fetching of their arguments from user
  memory, the first part of \<^verbatim>\<open>syscall.c\<close>.

  The state is completed by the user memory and the size of the running process, its
  saved stack pointer, and the counters of \<open>getcount\<close>.  A user pointer is a word; a fetched
  string is the list of its bytes before the NUL.  Every system call returns its result
  register and the new state.
\<close>

definition O_RDONLY :: u32 where "O_RDONLY = 0"
definition O_WRONLY :: u32 where "O_WRONLY = 1"
definition O_RDWR :: u32 where "O_RDWR = 2"
definition O_CREATE :: u32 where "O_CREATE = 0x200"
definition O_SFILE :: u32 where "O_SFILE = 0x400"

record sys_state = file_state +
  psz :: u32
  umem :: mem
  tf_esp :: u32
  count_array :: "u32 list"
  inits :: bool
  numberz :: u32

section \<open>Arguments\<close>

definition fetchint :: "u32 \<Rightarrow> 'a sys_state_scheme \<Rightarrow> u32 option" where
  "fetchint addr s = (if addr \<ge> psz s \<or> addr + 4 > psz s then None else Some (load32 (umem s) addr))"

primrec fetchstr_loop :: "nat \<Rightarrow> u32 \<Rightarrow> mem \<Rightarrow> u8 list option" where
  "fetchstr_loop 0 p m = None"
| "fetchstr_loop (Suc k) p m =
     (if m p = 0 then Some [] else map_option (\<lambda>cs. m p # cs) (fetchstr_loop k (p + 1) m))"

definition fetchstr :: "u32 \<Rightarrow> 'a sys_state_scheme \<Rightarrow> u8 list option" where
  "fetchstr addr s =
     (if addr \<ge> psz s then None else fetchstr_loop (unat (psz s) - unat addr) addr (umem s))"

definition argint :: "nat \<Rightarrow> 'a sys_state_scheme \<Rightarrow> u32 option" where
  "argint n s = fetchint (tf_esp s + 4 + 4 * of_nat n) s"

definition argptr :: "nat \<Rightarrow> u32 \<Rightarrow> 'a sys_state_scheme \<Rightarrow> u32 option" where
  "argptr n sz s =
     (case argint n s of
        None \<Rightarrow> None
      | Some i \<Rightarrow> if sint sz < 0 \<or> i \<ge> psz s \<or> i + sz > psz s then None else Some i)"

definition argstr :: "nat \<Rightarrow> 'a sys_state_scheme \<Rightarrow> u8 list option" where
  "argstr n s = (case argint n s of None \<Rightarrow> None | Some addr \<Rightarrow> fetchstr addr s)"

definition argfd :: "nat \<Rightarrow> 'a sys_state_scheme \<Rightarrow> (nat \<times> nat) option" where
  "argfd n s =
     (case argint n s of
        None \<Rightarrow> None
      | Some w \<Rightarrow>
          (let fd = sint w in
           if fd < 0 \<or> fd \<ge> int NOFILE then None
           else map_option (\<lambda>f. (nat fd, f)) (ofile s ! nat fd)))"

text \<open>Bytes and words stored through a checked user pointer.\<close>

primrec store_bytes :: "u8 list \<Rightarrow> u32 \<Rightarrow> mem \<Rightarrow> mem" where
  "store_bytes [] p m = m"
| "store_bytes (b # bs) p m = store_bytes bs (p + 1) (m(p := b))"

section \<open>Descriptors\<close>

fun fdalloc_scan :: "nat option list \<Rightarrow> nat \<Rightarrow> nat option" where
  "fdalloc_scan [] k = None"
| "fdalloc_scan (x # xs) k = (if x = None then Some k else fdalloc_scan xs (Suc k))"

definition fdalloc :: "nat \<Rightarrow> 'a file_state_scheme \<Rightarrow> nat option \<times> 'a file_state_scheme" where
  "fdalloc f s =
     (case fdalloc_scan (ofile s) 0 of
        Some fd \<Rightarrow> (Some fd, s\<lparr>ofile := (ofile s)[fd := Some f]\<rparr>)
      | None \<Rightarrow> (None, s))"

definition sys_dup :: "'a sys_state_scheme \<Rightarrow> (int \<times> 'a sys_state_scheme) res" where
  "sys_dup s =
     (case argfd 0 s of
        None \<Rightarrow> Ok (- 1, s)
      | Some (_, f) \<Rightarrow>
          (case fdalloc f s of
             (None, s) \<Rightarrow> Ok (- 1, s)
           | (Some fd, s) \<Rightarrow> bindr (filedup f s) (\<lambda>s. Ok (int fd, s))))"

definition sys_read :: "'a sys_state_scheme devsw \<Rightarrow> 'a sys_state_scheme \<Rightarrow> (int \<times> 'a sys_state_scheme) res" where
  "sys_read devs s =
     (case (argfd 0 s, argint 2 s) of
        (Some (_, f), Some n) \<Rightarrow>
          (case argptr 1 n s of
             None \<Rightarrow> Ok (- 1, s)
           | Some p \<Rightarrow>
               bindr (fileread devs f (unat n) s) (\<lambda>(r, bs, s).
               Ok (r, s\<lparr>umem := store_bytes bs p (umem s)\<rparr>)))
      | _ \<Rightarrow> Ok (- 1, s))"

definition sys_write :: "'a sys_state_scheme devsw \<Rightarrow> 'a sys_state_scheme \<Rightarrow> (int \<times> 'a sys_state_scheme) res" where
  "sys_write devs s =
     (case (argfd 0 s, argint 2 s) of
        (Some (_, f), Some n) \<Rightarrow>
          (case argptr 1 n s of
             None \<Rightarrow> Ok (- 1, s)
           | Some p \<Rightarrow> filewrite devs f (map (\<lambda>i. umem s (p + of_nat i)) [0..<unat n]) s)
      | _ \<Rightarrow> Ok (- 1, s))"

definition sys_close :: "'a sys_state_scheme \<Rightarrow> (int \<times> 'a sys_state_scheme) res" where
  "sys_close s =
     (case argfd 0 s of
        None \<Rightarrow> Ok (- 1, s)
      | Some (fd, f) \<Rightarrow>
          bindr (fileclose f (s\<lparr>ofile := (ofile s)[fd := None]\<rparr>)) (\<lambda>s. Ok (0, s)))"

text \<open>The fields of \<open>struct stat\<close> at their offsets; the padding is not written.\<close>

definition store_stat :: "stat \<Rightarrow> u32 \<Rightarrow> mem \<Rightarrow> mem" where
  "store_stat st p m =
     store_bytes (le16 (st_type st)) p (store_bytes (le32 (st_dev st)) (p + 4)
       (store_bytes (le32 (st_ino st)) (p + 8) (store_bytes (le16 (st_nlink st)) (p + 12)
         (store_bytes (le32 (st_size st)) (p + 16) m))))"

definition sys_fstat :: "'a sys_state_scheme \<Rightarrow> (int \<times> 'a sys_state_scheme) res" where
  "sys_fstat s =
     (case (argfd 0 s, argptr 1 20 s) of
        (Some (_, f), Some p) \<Rightarrow>
          bindr (filestat f s) (\<lambda>(r, st, s).
          Ok (r, case st of None \<Rightarrow> s | Some st \<Rightarrow> s\<lparr>umem := store_stat st p (umem s)\<rparr>))
      | _ \<Rightarrow> Ok (- 1, s))"

section \<open>Links\<close>

definition op_fails :: "'a sys_state_scheme \<Rightarrow> (int \<times> 'a sys_state_scheme) res" where
  "op_fails s = bindr (end_op s) (\<lambda>s. Ok (- 1, s))"

definition sys_link_bad :: "nat \<Rightarrow> 'a sys_state_scheme \<Rightarrow> (int \<times> 'a sys_state_scheme) res" where
  "sys_link_bad ip s =
     bindr (ilock ip s) (\<lambda>s.
     bindr (iupdate ip (upd_ip ip (\<lambda>i. i\<lparr>i_nlink := i_nlink i - 1\<rparr>) s)) (\<lambda>s.
     bindr (iunlockput ip s) op_fails))"

definition sys_link :: "'a sys_state_scheme devsw \<Rightarrow> 'a sys_state_scheme \<Rightarrow> (int \<times> 'a sys_state_scheme) res" where
  "sys_link devs s =
     (case (argstr 0 s, argstr 1 s) of
        (Some old, Some new) \<Rightarrow>
          bindr (begin_op s) (\<lambda>s.
          bindr (namei devs old s) (\<lambda>(r, s).
          case r of
            None \<Rightarrow> op_fails s
          | Some ip \<Rightarrow>
              bindr (ilock ip s) (\<lambda>s.
              if i_type (ino ip s) = T_DIR then bindr (iunlockput ip s) op_fails
              else if i_type (ino ip s) = T_SDIR then bindr (iunlockput ip s) op_fails
              else
                bindr (iupdate ip (upd_ip ip (\<lambda>i. i\<lparr>i_nlink := i_nlink i + 1\<rparr>) s)) (\<lambda>s.
                bindr (iunlock ip s) (\<lambda>s.
                bindr (nameiparent devs new s) (\<lambda>(r, s).
                case r of
                  None \<Rightarrow> sys_link_bad ip s
                | Some (dp, name) \<Rightarrow>
                    bindr (ilock dp s) (\<lambda>s.
                    bindr (if i_dev (ino dp s) \<noteq> i_dev (ino ip s) then Ok (- 1, s)
                           else dirlink devs dp name (i_inum (ino ip s)) s) (\<lambda>(r, s).
                    if r < 0 then bindr (iunlockput dp s) (sys_link_bad ip)
                    else
                      bindr (iunlockput dp s) (\<lambda>s.
                      bindr (iput ip s) (\<lambda>s.
                      bindr (end_op s) (\<lambda>s.
                      Ok (0, s))))))))))))
      | _ \<Rightarrow> Ok (- 1, s))"

function isdirempty_loop :: "'a fs_state_scheme devsw \<Rightarrow> nat \<Rightarrow> nat \<Rightarrow> nat \<Rightarrow> 'a fs_state_scheme \<Rightarrow>
    (bool \<times> 'a fs_state_scheme) res" where
  "isdirempty_loop devs sz dp off s =
     (if off < sz then
        bindr (readi devs dp (of_nat off) 16 s) (\<lambda>(r, de, s).
        if r \<noteq> 16 then Fail (Panic ''isdirempty: readi'')
        else if de_inum de \<noteq> 0 then Ok (False, s)
        else isdirempty_loop devs sz dp (off + 16) s)
      else Ok (True, s))"
  by pat_completeness auto
termination
  by (relation "measure (\<lambda>(devs, sz, dp, off, s). sz - off)") auto

declare isdirempty_loop.simps [simp del]

definition isdirempty :: "'a fs_state_scheme devsw \<Rightarrow> nat \<Rightarrow> 'a fs_state_scheme \<Rightarrow> (bool \<times> 'a fs_state_scheme) res" where
  "isdirempty devs dp s = isdirempty_loop devs (unat (i_size (ino dp s))) dp (2 * 16) s"

definition dot :: "u8 list" where "dot = cbytes ''.''"
definition dotdot :: "u8 list" where "dotdot = cbytes ''..''"

definition sys_unlink :: "'a sys_state_scheme devsw \<Rightarrow> 'a sys_state_scheme \<Rightarrow> (int \<times> 'a sys_state_scheme) res" where
  "sys_unlink devs s =
     (case argstr 0 s of
        None \<Rightarrow> Ok (- 1, s)
      | Some path \<Rightarrow>
          bindr (begin_op s) (\<lambda>s.
          bindr (nameiparent devs path s) (\<lambda>(r, s).
          case r of
            None \<Rightarrow> op_fails s
          | Some (dp, name) \<Rightarrow>
              bindr (ilock dp s) (\<lambda>s.
              if namecmp name dot = 0 \<or> namecmp name dotdot = 0 then bindr (iunlockput dp s) op_fails
              else
                bindr (dirlookup devs dp name s) (\<lambda>(r, s).
                case r of
                  None \<Rightarrow> bindr (iunlockput dp s) op_fails
                | Some (ip, off) \<Rightarrow>
                    bindr (ilock ip s) (\<lambda>s.
                    if sint (i_nlink (ino ip s)) < 1 then Fail (Panic ''unlink: nlink < 1'')
                    else
                      bindr (if i_type (ino ip s) = T_DIR \<or> i_type (ino ip s) = T_SDIR
                             then isdirempty devs ip s else Ok (True, s)) (\<lambda>(empty, s).
                      if \<not> empty then
                        bindr (iunlockput ip s) (\<lambda>s. bindr (iunlockput dp s) op_fails)
                      else
                        bindr (writei devs dp (replicate 16 0) (of_nat off) s) (\<lambda>(r, s).
                        if r \<noteq> 16 then Fail (Panic ''unlink: writei'')
                        else
                          bindr (if i_type (ino ip s) = T_DIR
                                 then iupdate dp (upd_ip dp (\<lambda>i. i\<lparr>i_nlink := i_nlink i - 1\<rparr>) s)
                                 else Ok s) (\<lambda>s.
                          bindr (if i_type (ino ip s) = T_SDIR
                                 then iupdate dp (upd_ip dp (\<lambda>i. i\<lparr>i_nlink := i_nlink i - 1\<rparr>) s)
                                 else Ok s) (\<lambda>s.
                          bindr (iunlockput dp s) (\<lambda>s.
                          bindr (iupdate ip (upd_ip ip (\<lambda>i. i\<lparr>i_nlink := i_nlink i - 1\<rparr>) s)) (\<lambda>s.
                          bindr (iunlockput ip s) (\<lambda>s.
                          bindr (end_op s) (\<lambda>s.
                          Ok (0, s)))))))))))))))"

section \<open>Creating and opening\<close>

text \<open>The \<open>.\<close> and \<open>..\<close> entries of a new directory.\<close>

definition create_dots :: "'a fs_state_scheme devsw \<Rightarrow> nat \<Rightarrow> nat \<Rightarrow> string \<Rightarrow> 'a fs_state_scheme \<Rightarrow> 'a fs_state_scheme res" where
  "create_dots devs ip dp msg s =
     bindr (iupdate dp (upd_ip dp (\<lambda>i. i\<lparr>i_nlink := i_nlink i + 1\<rparr>) s)) (\<lambda>s.
     bindr (dirlink devs ip dot (i_inum (ino ip s)) s) (\<lambda>(r, s).
     if r < 0 then Fail (Panic msg)
     else
       bindr (dirlink devs ip dotdot (i_inum (ino dp s)) s) (\<lambda>(r, s).
       if r < 0 then Fail (Panic msg) else Ok s)))"

definition create :: "'a fs_state_scheme devsw \<Rightarrow> u8 list \<Rightarrow> u16 \<Rightarrow> u16 \<Rightarrow> u16 \<Rightarrow> 'a fs_state_scheme \<Rightarrow>
    (nat option \<times> 'a fs_state_scheme) res" where
  "create devs path type major minor s =
     bindr (nameiparent devs path s) (\<lambda>(r, s).
     case r of
       None \<Rightarrow> Ok (None, s)
     | Some (dp, name) \<Rightarrow>
         bindr (ilock dp s) (\<lambda>s.
         bindr (dirlookup devs dp name s) (\<lambda>(r, s).
         case r of
           Some (ip, off) \<Rightarrow>
             bindr (iunlockput dp s) (\<lambda>s.
             bindr (ilock ip s) (\<lambda>s.
             if type = T_FILE \<and> i_type (ino ip s) = T_FILE then Ok (Some ip, s)
             else if type = T_SDIR \<and> i_type (ino ip s) = T_SDIR then Ok (Some ip, s)
             else if type = T_SFILE \<and> i_type (ino ip s) = T_SFILE then Ok (Some ip, s)
             else bindr (iunlockput ip s) (\<lambda>s. Ok (None, s))))
         | None \<Rightarrow>
             bindr (ialloc (i_dev (ino dp s)) type s) (\<lambda>(ip, s).
             bindr (ilock ip s) (\<lambda>s.
             bindr (iupdate ip (upd_ip ip (\<lambda>i. i\<lparr>i_major := major, i_minor := minor, i_nlink := 1\<rparr>) s)) (\<lambda>s.
             bindr (if type = T_DIR then create_dots devs ip dp ''create dotsz'' s else Ok s) (\<lambda>s.
             bindr (if type = T_SDIR then create_dots devs ip dp ''create dots'' s else Ok s) (\<lambda>s.
             bindr (dirlink devs dp name (i_inum (ino ip s)) s) (\<lambda>(r, s).
             if r < 0 then Fail (Panic ''create: dirlink'')
             else bindr (iunlockput dp s) (\<lambda>s. Ok (Some ip, s)))))))))))"

text \<open>
  The first half of \<open>sys_open\<close>: the locked inode, or \<open>None\<close> where the call returns \<open>-1\<close>
  after \<open>end_op\<close>.  The type of the parent directory is read through a pointer that may be
  null, and without locking the inode.
\<close>

definition open_inode :: "'a sys_state_scheme devsw \<Rightarrow> u8 list \<Rightarrow> u32 \<Rightarrow> 'a sys_state_scheme \<Rightarrow>
    (nat option \<times> 'a sys_state_scheme) res" where
  "open_inode devs path omode s =
     (if omode AND O_CREATE \<noteq> 0 then
        bindr (nameiparent devs path s) (\<lambda>(r, s).
        case r of
          None \<Rightarrow> Fail (Fault ''sys_open: dp->type of a null pointer'')
        | Some (dp, name) \<Rightarrow>
            if omode AND O_SFILE \<noteq> 0 then
              if i_type (ino dp s) \<noteq> T_SDIR then bindr (end_op s) (\<lambda>s. Ok (None, s))
              else
                bindr (create devs path T_SFILE 0 0 s) (\<lambda>(ip, s).
                if ip = None then bindr (end_op s) (\<lambda>s. Ok (None, s)) else Ok (ip, s))
            else
              if i_type (ino dp s) = T_SDIR then bindr (end_op s) (\<lambda>s. Ok (None, s))
              else
                bindr (create devs path T_FILE 0 0 s) (\<lambda>(ip, s).
                if ip = None then bindr (end_op s) (\<lambda>s. Ok (None, s)) else Ok (ip, s)))
      else
        bindr (namei devs path s) (\<lambda>(r, s).
        case r of
          None \<Rightarrow> bindr (end_op s) (\<lambda>s. Ok (None, s))
        | Some ip \<Rightarrow>
            bindr (ilock ip s) (\<lambda>s.
            if i_type (ino ip s) = T_DIR \<and> omode \<noteq> O_RDONLY then
              bindr (iunlockput ip s) (\<lambda>s. bindr (end_op s) (\<lambda>s. Ok (None, s)))
            else if i_type (ino ip s) = T_SDIR \<and> omode \<noteq> O_RDONLY then
              bindr (iunlockput ip s) (\<lambda>s. bindr (end_op s) (\<lambda>s. Ok (None, s)))
            else Ok (Some ip, s))))"

definition sys_open :: "'a sys_state_scheme devsw \<Rightarrow> 'a sys_state_scheme \<Rightarrow> (int \<times> 'a sys_state_scheme) res" where
  "sys_open devs s =
     (case (argstr 0 s, argint 1 s) of
        (Some path, Some omode) \<Rightarrow>
          bindr (begin_op s) (\<lambda>s.
          bindr (open_inode devs path omode s) (\<lambda>(r, s).
          case r of
            None \<Rightarrow> Ok (- 1, s)
          | Some ip \<Rightarrow>
              (case filealloc s of
                 (None, s) \<Rightarrow> bindr (iunlockput ip s) op_fails
               | (Some f, s) \<Rightarrow>
                   (case fdalloc f s of
                      (None, s) \<Rightarrow>
                        bindr (fileclose f s) (\<lambda>s. bindr (iunlockput ip s) op_fails)
                    | (Some fd, s) \<Rightarrow>
                        bindr (iunlock ip s) (\<lambda>s.
                        bindr (end_op s) (\<lambda>s.
                        Ok (int fd, upd_file f (\<lambda>x. x\<lparr>f_type := FD_INODE, f_ip := ip, f_off := 0,
                            f_readable := (omode AND O_WRONLY = 0),
                            f_writable := (omode AND O_WRONLY \<noteq> 0 \<or> omode AND O_RDWR \<noteq> 0)\<rparr>) s)))))))
      | _ \<Rightarrow> Ok (- 1, s))"

text \<open>The common part of \<open>sys_mkdir\<close>, \<open>sys_mknod\<close> and \<open>mkSmallFilesdir\<close>, from the checked arguments on.\<close>

definition make_node :: "'a sys_state_scheme devsw \<Rightarrow> u8 list option \<Rightarrow> u16 \<Rightarrow> u16 \<Rightarrow> u16 \<Rightarrow> 'a sys_state_scheme \<Rightarrow>
    (int \<times> 'a sys_state_scheme) res" where
  "make_node devs path type major minor s =
     (case path of
        None \<Rightarrow> op_fails s
      | Some path \<Rightarrow>
          bindr (create devs path type major minor s) (\<lambda>(r, s).
          case r of
            None \<Rightarrow> op_fails s
          | Some ip \<Rightarrow>
              bindr (iunlockput ip s) (\<lambda>s.
              bindr (end_op s) (\<lambda>s.
              Ok (0, s)))))"

definition sys_mkdir :: "'a sys_state_scheme devsw \<Rightarrow> 'a sys_state_scheme \<Rightarrow> (int \<times> 'a sys_state_scheme) res" where
  "sys_mkdir devs s = bindr (begin_op s) (\<lambda>s. make_node devs (argstr 0 s) T_DIR 0 0 s)"

definition sys_mknod :: "'a sys_state_scheme devsw \<Rightarrow> 'a sys_state_scheme \<Rightarrow> (int \<times> 'a sys_state_scheme) res" where
  "sys_mknod devs s =
     bindr (begin_op s) (\<lambda>s.
     case (argstr 0 s, argint 1 s, argint 2 s) of
       (Some path, Some major, Some minor) \<Rightarrow> make_node devs (Some path) T_DEV (ucast major) (ucast minor) s
     | _ \<Rightarrow> op_fails s)"

definition mkSmallFilesdir :: "'a sys_state_scheme devsw \<Rightarrow> 'a sys_state_scheme \<Rightarrow> (int \<times> 'a sys_state_scheme) res" where
  "mkSmallFilesdir devs s = bindr (begin_op s) (\<lambda>s. make_node devs (argstr 0 s) T_SDIR 0 0 s)"

definition sys_chdir :: "'a sys_state_scheme devsw \<Rightarrow> 'a sys_state_scheme \<Rightarrow> (int \<times> 'a sys_state_scheme) res" where
  "sys_chdir devs s =
     bindr (begin_op s) (\<lambda>s.
     case argstr 0 s of
       None \<Rightarrow> op_fails s
     | Some path \<Rightarrow>
         bindr (namei devs path s) (\<lambda>(r, s).
         case r of
           None \<Rightarrow> op_fails s
         | Some ip \<Rightarrow>
             bindr (ilock ip s) (\<lambda>s.
             if i_type (ino ip s) \<noteq> T_DIR \<and> i_type (ino ip s) \<noteq> T_SDIR then bindr (iunlockput ip s) op_fails
             else
               bindr (iunlock ip s) (\<lambda>s.
               bindr (iput (cwd s) s) (\<lambda>s.
               bindr (end_op s) (\<lambda>s.
               Ok (0, s\<lparr>cwd := ip\<rparr>)))))))"

definition sys_pipe :: "'a sys_state_scheme \<Rightarrow> (int \<times> 'a sys_state_scheme) res" where
  "sys_pipe s =
     (case argptr 0 8 s of
        None \<Rightarrow> Ok (- 1, s)
      | Some p \<Rightarrow>
          bindr (pipealloc s) (\<lambda>(r, s).
          case r of
            None \<Rightarrow> Ok (- 1, s)
          | Some (f0, f1) \<Rightarrow>
              (case fdalloc f0 s of
                 (None, s) \<Rightarrow> bindr (fileclose f0 s) (\<lambda>s. bindr (fileclose f1 s) (\<lambda>s. Ok (- 1, s)))
               | (Some fd0, s) \<Rightarrow>
                   (case fdalloc f1 s of
                      (None, s) \<Rightarrow>
                        bindr (fileclose f0 (s\<lparr>ofile := (ofile s)[fd0 := None]\<rparr>)) (\<lambda>s.
                        bindr (fileclose f1 s) (\<lambda>s. Ok (- 1, s)))
                    | (Some fd1, s) \<Rightarrow>
                        Ok (0, s\<lparr>umem := store32 (p + 4) (of_nat fd1) (store32 p (of_nat fd0) (umem s))\<rparr>)))))"

section \<open>Counting system calls\<close>

definition NCOUNT :: nat where "NCOUNT = 23"

definition updatecount :: "int \<Rightarrow> 'a sys_state_scheme \<Rightarrow> 'a sys_state_scheme res" where
  "updatecount n s =
     (let s = (if \<not> inits s then s\<lparr>count_array := replicate NCOUNT 0\<rparr> else s);
          s = s\<lparr>inits := True\<rparr>
      in if 0 \<le> n \<and> n < int (length (count_array s))
         then Ok (s\<lparr>count_array := (count_array s)[nat n := count_array s ! nat n + 1]\<rparr>)
         else Fail (Fault ''count_array''))"

primrec store_words :: "u32 list \<Rightarrow> u32 \<Rightarrow> u32 \<Rightarrow> mem \<Rightarrow> mem res" where
  "store_words [] p sz m = Ok m"
| "store_words (w # ws) p sz m =
     (if unat p + 4 \<le> unat sz then store_words ws (p + 4) sz (store32 p w m)
      else Fail (Fault ''store past the process''))"

definition getcount :: "'a sys_state_scheme \<Rightarrow> (int \<times> 'a sys_state_scheme) res" where
  "getcount s =
     (case argint 1 s of
        None \<Rightarrow> Ok (- 1, s)
      | Some sz \<Rightarrow>
          (case argptr 0 sz s of
             None \<Rightarrow> Ok (- 1, s)
           | Some p \<Rightarrow>
               if sint sz < 23 \<or> p = 0 then Ok (- 1, s)
               else
                 bindr (store_words (count_array s) p (psz s) (umem s)) (\<lambda>m.
                 Ok (0, s\<lparr>umem := m\<rparr>))))"

definition updatem :: "u32 \<Rightarrow> 'a sys_state_scheme \<Rightarrow> 'a sys_state_scheme" where
  "updatem newsz s = s\<lparr>numberz := newsz\<rparr>"

end
