(* ===== verification/Xv6_Vm.thy ===== *)
theory Xv6_Vm
  imports Xv6_Kalloc
begin

text \<open>
  Page tables, \<^verbatim>\<open>vm.c\<close>.

  Page directories and page tables are pages of the byte memory that the page allocator
  manages; a page directory is its kernel address.  A function that returns a null pointer
  on failure returns 0.  Loading control registers and segment descriptors has no effect on
  this state and is left out.  The address \<open>data\<close> of the kernel's data segment comes from
  the linker and is the argument \<open>kdata\<close>, like \<open>kend\<close>.
\<close>

definition EXTMEM :: u32 where "EXTMEM = 0x100000"
definition DEVSPACE :: u32 where "DEVSPACE = 0xFE000000"
definition KERNLINK :: u32 where "KERNLINK = KERNBASE + EXTMEM"

definition PTE_P :: u32 where "PTE_P = 1"
definition PTE_W :: u32 where "PTE_W = 2"
definition PTE_U :: u32 where "PTE_U = 4"

definition PDX :: "u32 \<Rightarrow> u32" where "PDX va = drop_bit 22 va AND 0x3FF"
definition PTX :: "u32 \<Rightarrow> u32" where "PTX va = drop_bit 12 va AND 0x3FF"
definition PGADDR :: "u32 \<Rightarrow> u32 \<Rightarrow> u32 \<Rightarrow> u32" where
  "PGADDR d t o' = push_bit 22 d OR push_bit 12 t OR o'"
definition PTE_ADDR :: "u32 \<Rightarrow> u32" where "PTE_ADDR pte = pte AND NOT 0xFFF"
definition PTE_FLAGS :: "u32 \<Rightarrow> u32" where "PTE_FLAGS pte = pte AND 0xFFF"

definition NPDENTRIES :: nat where "NPDENTRIES = 1024"

definition kload :: "u32 \<Rightarrow> kmem \<Rightarrow> u32" where
  "kload p k = load32 (kmem_mem k) p"

definition kstore :: "u32 \<Rightarrow> u32 \<Rightarrow> kmem \<Rightarrow> kmem" where
  "kstore p w k = k\<lparr>kmem_mem := store32 p w (kmem_mem k)\<rparr>"

definition kzero :: "u32 \<Rightarrow> kmem \<Rightarrow> kmem" where
  \<comment> \<open>\<open>memset(p, 0, PGSIZE)\<close>\<close>
  "kzero p k = k\<lparr>kmem_mem := memset p 0 PGSIZE (kmem_mem k)\<rparr>"

lemma PGROUNDDOWN_offset: "va - PGROUNDDOWN va = va AND 0xFFF"
proof -
  have "va = (va AND 0xFFF) + (va AND NOT 0xFFF)"
    by (subst disjunctive_add; simp add: bit_simps; rule bit_word_eqI; auto simp: bit_simps)
  then have "va - (va AND NOT 0xFFF) = va AND 0xFFF"
    by (metis add_diff_cancel_right')
  then show ?thesis by (simp add: PGROUNDDOWN_def PGSIZE_def)
qed

lemma PGROUNDDOWN_page:
  assumes "va mod PGSIZE = 0"
  shows "PGROUNDDOWN va = va" "PGROUNDDOWN (va + PGSIZE - 1) = va"
proof -
  have m: "(0xFFF :: u32) = mask 12" by (simp add: mask_eq_exp_minus_1)
  have "take_bit 12 va = 0"
    using assms by (simp add: take_bit_eq_mod PGSIZE_def)
  then have lo: "\<not> bit va n" if "n < 12" for n
    using that by (metis bit_take_bit_iff bit_0_eq bot_apply bot_bool_def)
  then show "PGROUNDDOWN va = va"
    unfolding PGROUNDDOWN_def PGSIZE_def
    by (simp add: m) (rule bit_word_eqI; auto simp: bit_simps)
  have "va + mask 12 = va OR mask 12"
    by (rule disjunctive_add) (use lo in \<open>auto simp: bit_simps\<close>)
  then have "PGROUNDDOWN (va + PGSIZE - 1) = (va OR mask 12) AND NOT (mask 12)"
    by (simp add: PGROUNDDOWN_def PGSIZE_def m add_diff_eq [symmetric])
  also have "\<dots> = va"
    by (rule bit_word_eqI) (use lo in \<open>auto simp: bit_simps\<close>)
  finally show "PGROUNDDOWN (va + PGSIZE - 1) = va" .
qed

lemma PGROUNDDOWN_offset_lt: "unat (va - PGROUNDDOWN va) < 4096"
proof -
  have "va AND 0xFFF \<le> 0xFFF" by (rule word_and_le1)
  then show ?thesis by (simp add: PGROUNDDOWN_offset word_le_nat_alt)
qed

section \<open>Mapping\<close>

definition walkpgdir :: "u32 \<Rightarrow> u32 \<Rightarrow> bool \<Rightarrow> kmem \<Rightarrow> u32 \<times> kmem" where
  "walkpgdir pgdir va alloc k =
     (let pde = pgdir + 4 * PDX va
      in if kload pde k AND PTE_P \<noteq> 0
         then (P2V (PTE_ADDR (kload pde k)) + 4 * PTX va, k)
         else if \<not> alloc then (0, k)
         else let (pgtab, k) = kalloc k
              in if pgtab = 0 then (0, k)
                 else let k = kzero pgtab k;
                          k = kstore pde (V2P pgtab OR PTE_P OR PTE_W OR PTE_U) k
                      in (pgtab + 4 * PTX va, k))"

text \<open>
  The loop of \<open>mappages\<close>; \<open>n\<close> is the number of pages from \<open>a\<close> to \<open>last\<close>, so that \<open>a == last\<close>
  exactly when it is 0.
\<close>

primrec mappages_loop :: "nat \<Rightarrow> u32 \<Rightarrow> u32 \<Rightarrow> u32 \<Rightarrow> u32 \<Rightarrow> kmem \<Rightarrow> (bool \<times> kmem) res" where
  "mappages_loop 0 pgdir a pa perm k =
     (let (pte, k) = walkpgdir pgdir a True k
      in if pte = 0 then Ok (False, k)
         else if kload pte k AND PTE_P \<noteq> 0 then Fail (Panic ''remap'')
         else Ok (True, kstore pte (pa OR perm OR PTE_P) k))"
| "mappages_loop (Suc n) pgdir a pa perm k =
     (let (pte, k) = walkpgdir pgdir a True k
      in if pte = 0 then Ok (False, k)
         else if kload pte k AND PTE_P \<noteq> 0 then Fail (Panic ''remap'')
         else mappages_loop n pgdir (a + PGSIZE) (pa + PGSIZE) perm (kstore pte (pa OR perm OR PTE_P) k))"

text \<open>The result is \<open>True\<close> for 0 and \<open>False\<close> for -1.\<close>

definition mappages :: "u32 \<Rightarrow> u32 \<Rightarrow> u32 \<Rightarrow> u32 \<Rightarrow> u32 \<Rightarrow> kmem \<Rightarrow> (bool \<times> kmem) res" where
  "mappages pgdir va sz pa perm k =
     (let a = PGROUNDDOWN va; last = PGROUNDDOWN (va + sz - 1)
      in mappages_loop (unat ((last - a) div PGSIZE)) pgdir a pa perm k)"

definition kmap :: "u32 \<Rightarrow> (u32 \<times> u32 \<times> u32 \<times> u32) list" where
  "kmap kdata =
     [(KERNBASE, 0, EXTMEM, PTE_W),
      (KERNLINK, V2P KERNLINK, V2P kdata, 0),
      (kdata, V2P kdata, PHYSTOP, PTE_W),
      (DEVSPACE, DEVSPACE, 0, PTE_W)]"

fun setupkvm_loop :: "(u32 \<times> u32 \<times> u32 \<times> u32) list \<Rightarrow> u32 \<Rightarrow> kmem \<Rightarrow> (u32 \<times> kmem) res" where
  "setupkvm_loop [] pgdir k = Ok (pgdir, k)"
| "setupkvm_loop ((virt, ps, pe, perm) # ks) pgdir k =
     bindr (mappages pgdir virt (pe - ps) ps perm k) (\<lambda>(ok, k).
       if \<not> ok then Ok (0, k) else setupkvm_loop ks pgdir k)"

definition setupkvm :: "u32 \<Rightarrow> kmem \<Rightarrow> (u32 \<times> kmem) res" where
  "setupkvm kdata k =
     (let (pgdir, k) = kalloc k
      in if pgdir = 0 then Ok (0, k)
         else let k = kzero pgdir k
              in if P2V PHYSTOP > DEVSPACE then Fail (Panic ''PHYSTOP too high'')
                 else setupkvm_loop (kmap kdata) pgdir k)"

definition kcopy_in :: "u32 \<Rightarrow> u8 list \<Rightarrow> kmem \<Rightarrow> kmem" where
  \<comment> \<open>\<open>memmove\<close> of a kernel object's bytes to the address \<open>p\<close>\<close>
  "kcopy_in p bs k =
     k\<lparr>kmem_mem := (\<lambda>x. if unat (x - p) < length bs then bs ! unat (x - p) else kmem_mem k x)\<rparr>"

definition inituvm :: "u32 \<Rightarrow> u8 list \<Rightarrow> kmem \<Rightarrow> kmem res" where
  "inituvm pgdir init k =
     (if unat PGSIZE \<le> length init then Fail (Panic ''inituvm: more than a page'')
      else let (mem, k) = kalloc k
           in if mem = 0 then Fail (Fault ''inituvm'')
              else let k = kzero mem k
                   in bindr (mappages pgdir 0 PGSIZE (V2P mem) (PTE_W OR PTE_U) k) (\<lambda>(ok, k).
                        Ok (kcopy_in mem init k)))"

section \<open>Growing and shrinking\<close>

function deallocuvm_loop :: "u32 \<Rightarrow> u32 \<Rightarrow> nat \<Rightarrow> u32 \<Rightarrow> kmem \<Rightarrow> kmem res" where
  \<comment> \<open>\<open>a\<close> is a number: the loop ends when it reaches \<open>oldsz\<close>, which is at most \<open>KERNBASE\<close>\<close>
  "deallocuvm_loop kend pgdir a oldsz k =
     (if unat oldsz \<le> a then Ok k
      else
        (let pte = fst (walkpgdir pgdir (of_nat a) False k)
         in if pte = 0
            then deallocuvm_loop kend pgdir ((a div 2 ^ 22 + 1) * 2 ^ 22) oldsz k
            else if kload pte k AND PTE_P \<noteq> 0
            then let pa = PTE_ADDR (kload pte k)
                 in if pa = 0 then Fail (Panic ''kfree'')
                    else bindr (kfree kend (P2V pa) k) (\<lambda>k.
                           deallocuvm_loop kend pgdir (a + 4096) oldsz (kstore pte 0 k))
            else deallocuvm_loop kend pgdir (a + 4096) oldsz k))"
  by pat_completeness auto
termination
proof (relation "measure (\<lambda>(kend, pgdir, a, oldsz, k). unat oldsz - a)", goal_cases)
  case (2 kend pgdir a oldsz k)
  have "a < (a div 2 ^ 22 + 1) * 2 ^ 22"
    by (metis add.commute div_mult_mod_eq mod_less_divisor nat_add_left_cancel_less
        add_mult_distrib mult_1 zero_less_numeral zero_less_power)
  with 2 show ?case by auto
qed auto

declare deallocuvm_loop.simps [simp del]

definition deallocuvm :: "u32 \<Rightarrow> u32 \<Rightarrow> u32 \<Rightarrow> u32 \<Rightarrow> kmem \<Rightarrow> (u32 \<times> kmem) res" where
  "deallocuvm kend pgdir oldsz newsz k =
     (if newsz \<ge> oldsz then Ok (oldsz, k)
      else bindr (deallocuvm_loop kend pgdir (unat (PGROUNDUP newsz)) oldsz k) (\<lambda>k. Ok (newsz, k)))"

text \<open>
  \<open>allocuvm\<close> ends with a call of \<open>updatem\<close>, which stores the new size in a global variable;
  the second component of the result is the argument of that call, if it is reached.
\<close>

function allocuvm_loop :: "u32 \<Rightarrow> u32 \<Rightarrow> nat \<Rightarrow> u32 \<Rightarrow> u32 \<Rightarrow> kmem \<Rightarrow> (u32 \<times> u32 option \<times> kmem) res" where
  "allocuvm_loop kend pgdir a oldsz newsz k =
     (if unat newsz \<le> a then Ok (newsz, Some newsz, k)
      else
        (let (mem, k) = kalloc k
         in if mem = 0
            then bindr (deallocuvm kend pgdir newsz oldsz k) (\<lambda>(r, k). Ok (0, None, k))
            else bindr (mappages pgdir (of_nat a) PGSIZE (V2P mem) (PTE_W OR PTE_U) (kzero mem k)) (\<lambda>(ok, k).
                   if \<not> ok
                   then bindr (deallocuvm kend pgdir newsz oldsz k) (\<lambda>(r, k).
                        bindr (kfree kend mem k) (\<lambda>k. Ok (0, None, k)))
                   else allocuvm_loop kend pgdir (a + 4096) oldsz newsz k)))"
  by pat_completeness auto
termination
  by (relation "measure (\<lambda>(kend, pgdir, a, oldsz, newsz, k). unat newsz - a)") auto

declare allocuvm_loop.simps [simp del]

definition allocuvm :: "u32 \<Rightarrow> u32 \<Rightarrow> u32 \<Rightarrow> u32 \<Rightarrow> kmem \<Rightarrow> (u32 \<times> u32 option \<times> kmem) res" where
  "allocuvm kend pgdir oldsz newsz k =
     (if newsz \<ge> KERNBASE then Ok (0, None, k)
      else if newsz < oldsz then Ok (oldsz, None, k)
      else allocuvm_loop kend pgdir (unat (PGROUNDUP oldsz)) oldsz newsz k)"

primrec freevm_loop :: "u32 \<Rightarrow> u32 \<Rightarrow> nat \<Rightarrow> kmem \<Rightarrow> kmem res" where
  \<comment> \<open>the last \<open>n\<close> of the 1024 entries\<close>
  "freevm_loop kend pgdir 0 k = Ok k"
| "freevm_loop kend pgdir (Suc n) k =
     (let pde = kload (pgdir + 4 * of_nat (NPDENTRIES - Suc n)) k
      in if pde AND PTE_P \<noteq> 0
         then bindr (kfree kend (P2V (PTE_ADDR pde)) k) (\<lambda>k. freevm_loop kend pgdir n k)
         else freevm_loop kend pgdir n k)"

definition freevm :: "u32 \<Rightarrow> u32 \<Rightarrow> kmem \<Rightarrow> kmem res" where
  "freevm kend pgdir k =
     (if pgdir = 0 then Fail (Panic ''freevm: no pgdir'')
      else
        bindr (deallocuvm kend pgdir KERNBASE 0 k) (\<lambda>(r, k).
        bindr (freevm_loop kend pgdir NPDENTRIES k) (\<lambda>k.
        kfree kend pgdir k)))"

definition clearpteu :: "u32 \<Rightarrow> u32 \<Rightarrow> kmem \<Rightarrow> kmem res" where
  "clearpteu pgdir uva k =
     (let pte = fst (walkpgdir pgdir uva False k)
      in if pte = 0 then Fail (Panic ''clearpteu'')
         else Ok (kstore pte (kload pte k AND NOT PTE_U) k))"

section \<open>Copying\<close>

function copyuvm_loop :: "u32 \<Rightarrow> u32 \<Rightarrow> u32 \<Rightarrow> nat \<Rightarrow> u32 \<Rightarrow> kmem \<Rightarrow> (u32 \<times> kmem) res" where
  "copyuvm_loop kend pgdir d i sz k =
     (if unat sz \<le> i then Ok (d, k)
      else
        (let pte = fst (walkpgdir pgdir (of_nat i) False k)
         in if pte = 0 then Fail (Panic ''copyuvm: pte should exist'')
            else if kload pte k AND PTE_P = 0 then Fail (Panic ''copyuvm: page not present'')
            else let pa = PTE_ADDR (kload pte k); flags = PTE_FLAGS (kload pte k); (mem, k) = kalloc k
                 in if mem = 0 then bindr (freevm kend d k) (\<lambda>k. Ok (0, k))
                    else let k = k\<lparr>kmem_mem := memmove mem (P2V pa) PGSIZE (kmem_mem k)\<rparr>
                         in bindr (mappages d (of_nat i) PGSIZE (V2P mem) flags k) (\<lambda>(ok, k).
                              if \<not> ok then bindr (freevm kend d k) (\<lambda>k. Ok (0, k))
                              else copyuvm_loop kend pgdir d (i + 4096) sz k)))"
  by pat_completeness auto
termination
  by (relation "measure (\<lambda>(kend, pgdir, d, i, sz, k). unat sz - i)") auto

declare copyuvm_loop.simps [simp del]

definition copyuvm :: "u32 \<Rightarrow> u32 \<Rightarrow> u32 \<Rightarrow> u32 \<Rightarrow> kmem \<Rightarrow> (u32 \<times> kmem) res" where
  "copyuvm kdata kend pgdir sz k =
     bindr (setupkvm kdata k) (\<lambda>(d, k).
       if d = 0 then Ok (0, k) else copyuvm_loop kend pgdir d 0 sz k)"

text \<open>\<open>uva2ka\<close> does not check that the page table exists.\<close>

definition uva2ka :: "u32 \<Rightarrow> u32 \<Rightarrow> kmem \<Rightarrow> u32 res" where
  "uva2ka pgdir uva k =
     (let pte = fst (walkpgdir pgdir uva False k)
      in if pte = 0 then Fail (Fault ''uva2ka: null pointer'')
         else if kload pte k AND PTE_P = 0 then Ok 0
         else if kload pte k AND PTE_U = 0 then Ok 0
         else Ok (P2V (PTE_ADDR (kload pte k))))"

function copyout :: "u32 \<Rightarrow> u32 \<Rightarrow> u8 list \<Rightarrow> kmem \<Rightarrow> (bool \<times> kmem) res" where
  "copyout pgdir va buf k =
     (if buf = [] then Ok (True, k)
      else
        (let va0 = PGROUNDDOWN va
         in bindr (uva2ka pgdir va0 k) (\<lambda>pa0.
              if pa0 = 0 then Ok (False, k)
              else let n = min (4096 - unat (va - va0)) (length buf)
                   in copyout pgdir (va0 + PGSIZE) (drop n buf)
                        (kcopy_in (pa0 + (va - va0)) (take n buf) k))))"
  by pat_completeness auto
termination
proof (relation "measure (\<lambda>(pgdir, va, buf, k). length buf)", goal_cases)
  case (2 pgdir va buf k va0 pa0 n)
  have "0 < n" using 2 PGROUNDDOWN_offset_lt [of va] by simp
  with 2 show ?case by simp
qed simp

declare copyout.simps [simp del]


section \<open>Cells of pages\<close>

text \<open>Entry \<open>i\<close> of the table in page \<open>p\<close> is the word at \<open>p + 4 * i\<close>.\<close>

lemma cell_offset:
  assumes "unat (i :: u32) < 1024" "unat (c :: u32) < 4"
  shows "unat (4 * i + c) = 4 * unat i + unat c"
  using assms by (simp add: unat_word_ariths)

lemma store_cell_other:
  assumes p: "p mod PGSIZE = 0" "q mod PGSIZE = 0" and i: "unat i < 1024" "unat j < 1024" and ne: "(p, i) \<noteq> (q, j)"
  shows "load32 (store32 (p + 4 * i) w m) (q + 4 * j) = load32 m (q + 4 * j)"
proof -
  have "store32 (p + 4 * i) w m (q + 4 * j + c) = m (q + 4 * j + c)" if c: "unat c < 4" for c
  proof (rule store32_other, rule ccontr)
    define d where "d = q + 4 * j + c - (p + 4 * i)"
    assume "\<not> 4 \<le> unat (q + 4 * j + c - (p + 4 * i))"
    then have d: "unat d < 4" by (simp add: d_def)
    have x: "q + (4 * j + c) = p + (4 * i + d)" by (simp add: d_def)
    have "q + (4 * j + c) - p = 4 * i + d" unfolding x by simp
    then have "in_page p (q + (4 * j + c))"
      using cell_offset [OF i(1) d] i(1) d by (simp add: in_page_def word_less_nat_alt PGSIZE_def)
    then have pq: "p = q"
      using page_offset [OF p, of "4 * j + c"] cell_offset [OF i(2) c] i(2) c by simp
    then have "unat (4 * j + c) = unat (4 * i + d)" using x by simp
    then have "4 * unat j + unat c = 4 * unat i + unat d"
      using cell_offset [OF i(2) c] cell_offset [OF i(1) d] by simp
    then have "unat j = unat i" using c d by linarith
    then show False using ne pq by (simp add: word_unat_eq_iff)
  qed
  from this [of 0] this [of 1] this [of 2] this [of 3] show ?thesis by (simp add: load32_def)
qed

lemma zero_cell:
  assumes "p mod PGSIZE = 0" "q mod PGSIZE = 0" "unat j < 1024"
  shows "load32 (memset p 0 PGSIZE m) (q + 4 * j) = (if p = q then 0 else load32 m (q + 4 * j))"
proof -
  have "memset p 0 PGSIZE m (q + (4 * j + c)) = (if p = q then 0 else m (q + (4 * j + c)))" if c: "unat c < 4" for c
  proof (cases "p = q")
    case True
    then show ?thesis
      using cell_offset [OF assms(3) c] assms(3) c by (simp add: memset_apply PGSIZE_def)
  next
    case False
    then have "\<not> in_page p (q + (4 * j + c))"
      using page_offset [OF assms(1,2), of "4 * j + c"] cell_offset [OF assms(3) c] assms(3) c by auto
    then show ?thesis
      using False by (simp add: memset_apply in_page_def word_less_nat_alt)
  qed
  from this [of 0] this [of 1] this [of 2] this [of 3] show ?thesis
    by (simp add: load32_def of_le32_def add.assoc)
qed

lemma aligned_and:
  assumes "(t :: u32) mod PGSIZE = 0"
  shows "(t OR PTE_P OR PTE_W OR PTE_U) AND NOT 0xFFF = t"
proof -
  have t: "take_bit 12 t = 0"
    using assms by (simp add: take_bit_eq_mod PGSIZE_def)
  have lo: "\<not> bit t n" if "n < 12" for n
    using arg_cong [OF t, of "\<lambda>x. bit x n"] that by (simp add: bit_simps)
  have m: "(0xFFF :: u32) = mask 12" by (simp add: mask_eq_exp_minus_1)
  have f: "PTE_P OR PTE_W OR PTE_U = (mask 3 :: u32)"
    by (simp add: PTE_P_def PTE_W_def PTE_U_def mask_eq_exp_minus_1)
  have "(t OR mask 3) AND NOT (mask 12) = t"
    by (rule bit_word_eqI) (use lo in \<open>auto simp: bit_simps\<close>)
  then show ?thesis by (simp only: m f or.assoc)
qed


section \<open>Well-formed page tables\<close>

definition present :: "u32 \<Rightarrow> bool" where
  "present e \<longleftrightarrow> e AND PTE_P \<noteq> 0"

definition table_of :: "u32 \<Rightarrow> u32 \<Rightarrow> kmem \<Rightarrow> u32" where
  "table_of pgdir i k = P2V (PTE_ADDR (kload (pgdir + 4 * i) k))"

definition has_table :: "u32 \<Rightarrow> u32 \<Rightarrow> kmem \<Rightarrow> bool" where
  "has_table pgdir i k \<longleftrightarrow> unat i < 1024 \<and> present (kload (pgdir + 4 * i) k)"

text \<open>The page table entry that the hardware finds for an address, 0 if there is none.\<close>

definition translate :: "u32 \<Rightarrow> u32 \<Rightarrow> kmem \<Rightarrow> u32" where
  "translate pgdir va k =
     (if has_table pgdir (PDX va) k then kload (table_of pgdir (PDX va) k + 4 * PTX va) k else 0)"

text \<open>
  The directory and its tables are different pages, none of them free.
\<close>

definition pt_ok :: "u32 \<Rightarrow> u32 \<Rightarrow> kmem \<Rightarrow> u32 list \<Rightarrow> bool" where
  "pt_ok kend pgdir k ps \<longleftrightarrow>
     kmem_rep kend k ps \<and> page_ok kend pgdir \<and> pgdir \<notin> set ps \<and>
     (\<forall>i. has_table pgdir i k \<longrightarrow>
        page_ok kend (table_of pgdir i k) \<and> table_of pgdir i k \<notin> set ps \<and> table_of pgdir i k \<noteq> pgdir) \<and>
     (\<forall>i j. has_table pgdir i k \<longrightarrow> has_table pgdir j k \<longrightarrow> i \<noteq> j \<longrightarrow> table_of pgdir i k \<noteq> table_of pgdir j k)"

lemma PDX_less: "unat (PDX va) < 1024" and PTX_less: "unat (PTX va) < 1024"
  using word_and_le1 [of "drop_bit 22 va" "0x3FF"] word_and_le1 [of "drop_bit 12 va" "0x3FF"]
  by (simp_all add: PDX_def PTX_def word_le_nat_alt)

lemma page_ok_aligned: "page_ok kend p \<Longrightarrow> p mod PGSIZE = 0"
  by (simp add: page_ok_def)

lemma page_ok_bounds:
  assumes "page_ok kend t"
  shows "2 ^ 31 \<le> unat t" "unat t < 2 ^ 31 + 2 ^ 28"
proof -
  have lt: "unat (t - 0x80000000) < 0xE000000"
    using assms by (simp add: page_ok_def V2P_def KERNBASE_def PHYSTOP_def word_less_nat_alt)
  have "unat ((t - 0x80000000) + 0x80000000) = unat (t - 0x80000000) + unat (0x80000000 :: u32)"
    by (rule unat_add_no_wrap) (use lt in simp)
  then have "unat t = unat (t - 0x80000000) + 2 ^ 31" by simp
  with lt show "2 ^ 31 \<le> unat t" "unat t < 2 ^ 31 + 2 ^ 28" by simp_all
qed

lemma cell_nonzero:
  assumes "page_ok kend t" "unat j < 1024"
  shows "t + 4 * j \<noteq> 0"
proof -
  have "unat (4 * j) = 4 * unat j" using cell_offset [OF assms(2), of 0] by simp
  then have "unat (t + 4 * j) = unat t + 4 * unat j"
    using page_ok_bounds [OF assms(1)] assms(2) by (simp add: unat_add_no_wrap)
  then have "0 < unat (t + 4 * j)" using page_ok_bounds [OF assms(1)] by simp
  then show ?thesis by (metis less_irrefl unat_0)
qed

lemma kload_kstore:
  assumes "p mod PGSIZE = 0" "q mod PGSIZE = 0" "unat i < 1024" "unat j < 1024"
  shows "kload (q + 4 * j) (kstore (p + 4 * i) w k) = (if (p, i) = (q, j) then w else kload (q + 4 * j) k)"
  using store_cell_other [OF assms] by (auto simp: kload_def kstore_def)

lemma kload_kzero:
  assumes "p mod PGSIZE = 0" "q mod PGSIZE = 0" "unat j < 1024"
  shows "kload (q + 4 * j) (kzero p k) = (if p = q then 0 else kload (q + 4 * j) k)"
  using zero_cell [OF assms] by (simp add: kload_def kzero_def)

lemma kmem_rep_other_page:
  assumes "kmem_rep kend k ps" "v mod PGSIZE = 0" "v \<notin> set ps" "freelist k' = freelist k"
    "\<And>x. \<not> in_page v x \<Longrightarrow> kmem_mem k' x = kmem_mem k x"
  shows "kmem_rep kend k' ps"
proof -
  have "load32 (kmem_mem k') q = load32 (kmem_mem k) q" if "q \<in> set ps" for q
    using assms that by (intro load32_other_page [of v]) (auto simp: kmem_rep_def page_ok_def)
  then show ?thesis
    using assms(1,4) flist_cong [of ps "kmem_mem k'" "kmem_mem k"] by (simp add: kmem_rep_def)
qed

lemma kmem_rep_kstore:
  assumes "kmem_rep kend k ps" "v mod PGSIZE = 0" "v \<notin> set ps" "unat i < 1024"
  shows "kmem_rep kend (kstore (v + 4 * i) w k) ps"
proof (rule kmem_rep_other_page [OF assms(1-3)])
  fix x assume x: "\<not> in_page v x"
  have "4 \<le> unat (x - (v + 4 * i))"
  proof (rule ccontr)
    define d where "d = x - (v + 4 * i)"
    assume "\<not> 4 \<le> unat (x - (v + 4 * i))"
    then have d: "unat d < 4" by (simp add: d_def)
    have "x - v = 4 * i + d" by (simp add: d_def)
    then have "in_page v x"
      using cell_offset [OF assms(4) d] assms(4) d by (simp add: in_page_def word_less_nat_alt PGSIZE_def)
    with x show False ..
  qed
  then show "kmem_mem (kstore (v + 4 * i) w k) x = kmem_mem k x"
    by (simp add: kstore_def store32_other)
qed (simp add: kstore_def)

lemma kmem_rep_kzero:
  assumes "kmem_rep kend k ps" "v mod PGSIZE = 0" "v \<notin> set ps"
  shows "kmem_rep kend (kzero v k) ps"
  by (rule kmem_rep_other_page [OF assms])
    (simp_all add: kzero_def memset_apply in_page_def word_less_nat_alt)

lemma present_flags: "present (x OR PTE_P OR y)" "present (x OR y OR PTE_P)"
proof -
  have "bit ((x OR PTE_P OR y) AND PTE_P) 0" "bit ((x OR y OR PTE_P) AND PTE_P) 0"
    by (simp_all add: PTE_P_def bit_simps)
  then show "present (x OR PTE_P OR y)" "present (x OR y OR PTE_P)"
    by (metis bit_0_eq bot_apply bot_bool_def present_def)+
qed

lemma table_of_new:
  assumes "page_ok kend t"
  shows "P2V (PTE_ADDR (V2P t OR PTE_P OR PTE_W OR PTE_U)) = t"
proof -
  have "unat (t mod PGSIZE) = 0" using page_ok_aligned [OF assms] by simp
  then obtain q where q: "unat t = 4096 * q" by (auto simp: unat_mod PGSIZE_def)
  have "unat (t - KERNBASE) = unat t - 2 ^ 31"
    using page_ok_bounds(1) [OF assms] by (simp add: unat_sub KERNBASE_def word_le_nat_alt)
  also have "\<dots> = 4096 * (q - 524288)" using q by (simp add: diff_mult_distrib2)
  finally have "unat ((t - KERNBASE) mod PGSIZE) = 0" by (simp add: unat_mod PGSIZE_def)
  then have "V2P t mod PGSIZE = 0" by (simp add: V2P_def unat_eq_zero)
  from aligned_and [OF this] show ?thesis by (simp add: PTE_ADDR_def P2V_def V2P_def)
qed


lemma pt_okD:
  assumes "pt_ok kend pgdir k ps"
  shows "kmem_rep kend k ps" "page_ok kend pgdir" "pgdir \<notin> set ps"
    and "has_table pgdir i k \<Longrightarrow> page_ok kend (table_of pgdir i k)"
    and "has_table pgdir i k \<Longrightarrow> table_of pgdir i k \<notin> set ps"
    and "has_table pgdir i k \<Longrightarrow> table_of pgdir i k \<noteq> pgdir"
    and "has_table pgdir i k \<Longrightarrow> has_table pgdir j k \<Longrightarrow> i \<noteq> j \<Longrightarrow> table_of pgdir i k \<noteq> table_of pgdir j k"
  using assms by (auto simp: pt_ok_def)

text \<open>Adding an empty table for a directory entry that has none.\<close>

lemma new_table:
  assumes ok: "pt_ok kend pgdir k (t # ps)" and no: "\<not> has_table pgdir i k" and i: "unat i < 1024"
    and k': "k' = kstore (pgdir + 4 * i) (V2P t OR PTE_P OR PTE_W OR PTE_U) (kzero t (k\<lparr>freelist := load32 (kmem_mem k) t\<rparr>))"
  shows "pt_ok kend pgdir k' ps" "has_table pgdir i k'" "table_of pgdir i k' = t"
    "translate pgdir va k' = translate pgdir va k"
proof -
  let ?e = "V2P t OR PTE_P OR PTE_W OR PTE_U"
  note d = pt_okD [OF ok]
  have t: "page_ok kend t" "t \<notin> set ps" "t \<noteq> pgdir"
    using d(1,3) by (auto simp: kmem_rep_def)
  note al = page_ok_aligned [OF t(1)] page_ok_aligned [OF d(2)]
  have ld: "kload (q + 4 * j) k' = (if (pgdir, i) = (q, j) then ?e else if t = q then 0 else kload (q + 4 * j) k)"
    if "q mod PGSIZE = 0" "unat j < 1024" for q j
    unfolding k' kload_kstore [OF al(2) that(1) i that(2)] kload_kzero [OF al(1) that]
    by (simp add: kload_def)
  have ht: "has_table pgdir j k' \<longleftrightarrow> j = i \<or> has_table pgdir j k" for j
    using ld [OF al(2), of j] t(3) i present_flags(1) by (auto simp: has_table_def)
  have tab: "table_of pgdir j k' = (if j = i then t else table_of pgdir j k)" if "unat j < 1024" for j
    using ld [OF al(2) that] t(3) table_of_new [OF t(1)] by (simp add: table_of_def)
  have tab': "has_table pgdir j k \<Longrightarrow> table_of pgdir j k' = table_of pgdir j k" for j
    using tab [of j] no by (auto simp: has_table_def)
  have "kmem_rep kend (k\<lparr>freelist := load32 (kmem_mem k) t\<rparr>) ps"
    using kalloc_rep [OF d(1)] by simp
  then have rep: "kmem_rep kend k' ps"
    using d(3) t al i unfolding k' by (intro kmem_rep_kstore kmem_rep_kzero) auto
  show h: "has_table pgdir i k'" and ti: "table_of pgdir i k' = t"
    using ht tab [OF i] by auto
  have other: "page_ok kend (table_of pgdir j k') \<and> table_of pgdir j k' \<notin> set ps \<and> table_of pgdir j k' \<noteq> pgdir"
    if "has_table pgdir j k'" for j
    using that d(4-6) [of j] t ti tab' ht by (cases "j = i") auto
  have diff: "table_of pgdir j k' \<noteq> table_of pgdir l k'"
    if "has_table pgdir j k'" "has_table pgdir l k'" "j \<noteq> l" for j l
    using that d(5,7) [of j] d(5) [of l] ti tab' ht by (cases "j = i"; cases "l = i") auto
  show "pt_ok kend pgdir k' ps"
    using rep d(2,3) other diff by (auto simp: pt_ok_def)
  show "translate pgdir va k' = translate pgdir va k"
  proof (cases "PDX va = i")
    case True
    then show ?thesis
      using no h ti ld [OF al(1) PTX_less] t(3) by (simp add: translate_def)
  next
    case False
    have "kload (table_of pgdir (PDX va) k + 4 * PTX va) k' = kload (table_of pgdir (PDX va) k + 4 * PTX va) k"
      if h: "has_table pgdir (PDX va) k"
      using ld [OF page_ok_aligned [OF d(4) [OF h]] PTX_less] d(5,6) [OF h] by auto
    with False show ?thesis using ht tab' by (simp add: translate_def)
  qed
qed

lemma walkpgdir_alloc:
  assumes ok: "pt_ok kend pgdir k ps" and w: "walkpgdir pgdir va True k = (pte, k')"
  shows "if has_table pgdir (PDX va) k \<or> ps \<noteq> []
    then pte \<noteq> 0 \<and> pt_ok kend pgdir k' (if has_table pgdir (PDX va) k then ps else tl ps) \<and> has_table pgdir (PDX va) k' \<and>
      pte = table_of pgdir (PDX va) k' + 4 * PTX va \<and> (\<forall>va'. translate pgdir va' k' = translate pgdir va' k)
    else pte = 0 \<and> k' = k"
proof (cases "has_table pgdir (PDX va) k")
  case True
  then have "pte = table_of pgdir (PDX va) k + 4 * PTX va" "k' = k"
    using w by (auto simp: walkpgdir_def has_table_def table_of_def present_def)
  then show ?thesis
    using ok True cell_nonzero [OF pt_okD(4) [OF ok True] PTX_less] by auto
next
  case False
  then have np: "kload (pgdir + 4 * PDX va) k AND PTE_P = 0"
    using PDX_less by (simp add: has_table_def present_def)
  show ?thesis
  proof (cases ps)
    case Nil
    then show ?thesis
      using w np False kpages.alloc_empty [OF pt_okD(1) [OF ok [unfolded Nil]]] by (simp add: walkpgdir_def)
  next
    case (Cons t qs)
    note ok' = ok [unfolded Cons]
    have "kalloc k = (t, k\<lparr>freelist := load32 (kmem_mem k) t\<rparr>)" "t \<noteq> 0" "page_ok kend t"
      using kalloc_rep(1) [OF pt_okD(1) [OF ok']] kpages.rep_pages [OF pt_okD(1) [OF ok']] by auto
    then have "pte = t + 4 * PTX va"
      "k' = kstore (pgdir + 4 * PDX va) (V2P t OR PTE_P OR PTE_W OR PTE_U) (kzero t (k\<lparr>freelist := load32 (kmem_mem k) t\<rparr>))"
      using w np by (simp_all add: walkpgdir_def Let_def)
    then show ?thesis
      using new_table [OF ok' False PDX_less] cell_nonzero [OF \<open>page_ok kend t\<close> PTX_less] False Cons by auto
  qed
qed

text \<open>Storing an entry in a table of the directory changes the translation of its addresses.\<close>

lemma store_entry:
  assumes ok: "pt_ok kend pgdir k ps" and h: "has_table pgdir i k" and j: "unat j < 1024"
    and k': "k' = kstore (table_of pgdir i k + 4 * j) w k"
  shows "pt_ok kend pgdir k' ps"
    "translate pgdir va k' = (if PDX va = i \<and> PTX va = j then w else translate pgdir va k)"
proof -
  note d = pt_okD [OF ok]
  note al = page_ok_aligned [OF d(2)] page_ok_aligned [OF d(4) [OF h]]
  have ld: "kload (q + 4 * l) k' = (if (table_of pgdir i k, j) = (q, l) then w else kload (q + 4 * l) k)"
    if "q mod PGSIZE = 0" "unat l < 1024" for q l
    unfolding k' using kload_kstore [OF al(2) that(1) j that(2)] .
  have dir: "kload (pgdir + 4 * l) k' = kload (pgdir + 4 * l) k" if "unat l < 1024" for l
    using ld [OF al(1) that] d(6) [OF h] by auto
  have ht: "has_table pgdir l k' = has_table pgdir l k" for l
    using dir [of l] by (auto simp: has_table_def)
  have tab: "has_table pgdir l k \<Longrightarrow> table_of pgdir l k' = table_of pgdir l k" for l
    using dir [of l] by (simp add: has_table_def table_of_def)
  have "kmem_rep kend k' ps"
    unfolding k' by (rule kmem_rep_kstore [OF d(1) al(2) d(5) [OF h] j])
  then show "pt_ok kend pgdir k' ps"
    using ok ht tab unfolding pt_ok_def by simp
  show "translate pgdir va k' = (if PDX va = i \<and> PTX va = j then w else translate pgdir va k)"
  proof (cases "has_table pgdir (PDX va) k")
    case True
    then have "translate pgdir va k' = kload (table_of pgdir (PDX va) k + 4 * PTX va) k'"
      using ht tab by (simp add: translate_def)
    moreover have "table_of pgdir i k = table_of pgdir (PDX va) k \<longleftrightarrow> i = PDX va"
      using d(7) [OF h True] by auto
    ultimately show ?thesis
      using True ld [OF page_ok_aligned [OF d(4) [OF True]] PTX_less] by (auto simp: translate_def)
  next
    case False
    with h have "PDX va \<noteq> i" by auto
    with False show ?thesis using ht by (simp add: translate_def)
  qed
qed

section \<open>Properties\<close>

text \<open>
  C18. Mapping one page on well-formed page tables, with the free pages \<open>ps\<close>.  \<open>mappages\<close> panics
  exactly when the page is mapped already.  Otherwise it succeeds exactly when there is a table for the
  address or a free page to make one: then the entry of the page's address refers to the physical
  page with the given permissions.  The entry of every other page is kept, and all of them are when it
  fails.  The tables stay well-formed and disjoint from the free pages, of which one is taken only for a
  new table.
\<close>

theorem mappages_maps:
  assumes "pt_ok kend pgdir k ps" "va mod PGSIZE = 0"
  shows "if translate pgdir va k AND PTE_P \<noteq> 0 then mappages pgdir va PGSIZE pa perm k = Fail (Panic ''remap'')
    else \<exists>k'. mappages pgdir va PGSIZE pa perm k = Ok (has_table pgdir (PDX va) k \<or> ps \<noteq> [], k') \<and>
      pt_ok kend pgdir k' (if has_table pgdir (PDX va) k then ps else tl ps) \<and>
      (\<forall>va'. translate pgdir va' k' =
         (if (has_table pgdir (PDX va) k \<or> ps \<noteq> []) \<and> PDX va' = PDX va \<and> PTX va' = PTX va
          then pa OR perm OR PTE_P else translate pgdir va' k))"
proof -
  have one: "mappages pgdir va PGSIZE pa perm k = mappages_loop 0 pgdir va pa perm k"
    using assms(2) by (simp add: mappages_def Let_def PGROUNDDOWN_page)
  obtain pte k1 where w: "walkpgdir pgdir va True k = (pte, k1)" by fastforce
  note a = walkpgdir_alloc [OF assms(1) w]
  show ?thesis
  proof (cases "has_table pgdir (PDX va) k \<or> ps \<noteq> []")
    case True
    with a have b: "pte \<noteq> 0" "pt_ok kend pgdir k1 (if has_table pgdir (PDX va) k then ps else tl ps)"
      "has_table pgdir (PDX va) k1" "pte = table_of pgdir (PDX va) k1 + 4 * PTX va"
      "\<forall>va'. translate pgdir va' k1 = translate pgdir va' k"
      by auto
    then have "kload pte k1 = translate pgdir va k" by (metis translate_def)
    then have m: "mappages pgdir va PGSIZE pa perm k = (if translate pgdir va k AND PTE_P \<noteq> 0 then Fail (Panic ''remap'')
        else Ok (True, kstore pte (pa OR perm OR PTE_P) k1))"
      using w b(1) one by simp
    note st = store_entry [OF b(2,3) PTX_less, of _ va "pa OR perm OR PTE_P"]
    show ?thesis unfolding m using True b(4,5) st by simp
  next
    case False
    with a have "pte = 0" "k1 = k" by simp_all
    moreover have "translate pgdir va k = 0" using False by (simp add: translate_def)
    ultimately show ?thesis using w assms(1) one False by simp
  qed
qed

text \<open>An empty page directory and one free page; or none.\<close>

definition sample_kmem :: kmem where
  "sample_kmem = \<lparr>use_lock = False, freelist = 0x80201000, kmem_mem = (\<lambda>_. 0)\<rparr>"

definition sample_full :: kmem where
  "sample_full = sample_kmem\<lparr>freelist := 0\<rparr>"

lemma sample_kload [simp]: "kload p sample_kmem = 0" "kload p sample_full = 0"
  by (simp_all add: kload_def load32_def of_le32_def sample_kmem_def sample_full_def)

lemma sample_pt_ok: "pt_ok 0x80100000 0x80200000 sample_kmem [0x80201000]" "pt_ok 0x80100000 0x80200000 sample_full []"
proof -
  have "load32 (\<lambda>_. 0) p = 0" for p by (simp add: load32_def of_le32_def)
  then have "kmem_rep 0x80100000 sample_kmem [0x80201000]" "kmem_rep 0x80100000 sample_full []"
    by (simp_all add: kmem_rep_def sample_kmem_def sample_full_def page_ok_def PGSIZE_def V2P_def KERNBASE_def PHYSTOP_def)
  then show "pt_ok 0x80100000 0x80200000 sample_kmem [0x80201000]" "pt_ok 0x80100000 0x80200000 sample_full []"
    by (simp_all add: pt_ok_def has_table_def present_def page_ok_def PGSIZE_def V2P_def KERNBASE_def PHYSTOP_def)
qed

theorem mappages_maps_witness:
  "(\<exists>k'. mappages 0x80200000 0x1000 PGSIZE 0x300000 PTE_U sample_kmem = Ok (True, k') \<and>
      pt_ok 0x80100000 0x80200000 k' [] \<and>
      translate 0x80200000 0x1000 k' = 0x300000 OR PTE_U OR PTE_P \<and> translate 0x80200000 0x2000 k' = 0 \<and>
      mappages 0x80200000 0x1000 PGSIZE 0x300000 PTE_U k' = Fail (Panic ''remap'')) \<and>
   (\<exists>k'. mappages 0x80200000 0x1000 PGSIZE 0x300000 PTE_U sample_full = Ok (False, k'))"
proof -
  have no: "\<not> has_table 0x80200000 i k" "translate 0x80200000 va k = 0" if "k \<in> {sample_kmem, sample_full}" for i va k
    using that by (auto simp: has_table_def present_def translate_def)
  have al: "(0x1000 :: u32) mod PGSIZE = 0" by (simp add: PGSIZE_def)
  have ix: "PDX 0x1000 = 0" "PDX 0x2000 = 0" "PTX 0x1000 = 1" "PTX 0x2000 = 2"
    by (simp_all add: PDX_def PTX_def)
  obtain k' where k': "mappages 0x80200000 0x1000 PGSIZE 0x300000 PTE_U sample_kmem = Ok (True, k')"
    "pt_ok 0x80100000 0x80200000 k' []"
    "\<forall>va'. translate 0x80200000 va' k' = (if PDX va' = 0 \<and> PTX va' = 1 then 0x300000 OR PTE_U OR PTE_P else 0)"
    using mappages_maps [OF sample_pt_ok(1) al, of "0x300000" PTE_U] by (auto simp: no ix)
  then have t: "translate 0x80200000 0x1000 k' = 0x300000 OR PTE_U OR PTE_P" "translate 0x80200000 0x2000 k' = 0"
    by (simp_all add: ix)
  moreover have "mappages 0x80200000 0x1000 PGSIZE 0x300000 PTE_U k' = Fail (Panic ''remap'')"
    using mappages_maps [OF k'(2) al, of "0x300000" PTE_U] t(1) by (simp add: PTE_U_def PTE_P_def)
  moreover have "\<exists>k'. mappages 0x80200000 0x1000 PGSIZE 0x300000 PTE_U sample_full = Ok (False, k')"
    using mappages_maps [OF sample_pt_ok(2) al, of "0x300000" PTE_U] by (auto simp: no)
  ultimately show ?thesis using k' by blast
qed

end
