(* ===== verification/Xv6_Spinlock.thy ===== *)
theory Xv6_Spinlock
  imports Xv6_Kalloc
begin

text \<open>
  Spin locks, \<^verbatim>\<open>spinlock.c\<close>.

  The operations are functions of a lock and of the state of the processor that executes
  them: the nesting depth of \<open>pushcli\<close>, the saved interrupt flag and the interrupt flag of
  \<open>eflags\<close>.  \<open>acquire\<close> and \<open>release\<close> are compositions of the atomic steps between which
  other processors can run; a processor that would spin has the result \<open>Blocked\<close>.  The
  interleavings of these steps on any number of processors are an inductive relation, and
  mutual exclusion is an invariant of its reachable states.
\<close>

section \<open>Locks and processors\<close>

record spinlock =
  lk_name :: string
  lk_locked :: bool
  lk_cpu :: "nat option"
  lk_pcs :: "u32 list"

record cpu =
  ncli :: int
  intena :: bool
  eflags_if :: bool

definition initlock :: "string \<Rightarrow> spinlock \<Rightarrow> spinlock" where
  "initlock name lk = lk\<lparr>lk_name := name, lk_locked := False, lk_cpu := None\<rparr>"

definition holding :: "nat \<Rightarrow> spinlock \<Rightarrow> bool" where
  "holding me lk \<longleftrightarrow> lk_locked lk \<and> lk_cpu lk = Some me"

definition pushcli :: "cpu \<Rightarrow> cpu" where
  "pushcli c =
     (let eflags = eflags_if c;
          c = c\<lparr>eflags_if := False\<rparr>;
          c = (if ncli c = 0 then c\<lparr>intena := eflags\<rparr> else c)
      in c\<lparr>ncli := ncli c + 1\<rparr>)"

definition popcli :: "cpu \<Rightarrow> cpu res" where
  "popcli c =
     (if eflags_if c then Fail (Panic ''popcli - interruptible'')
      else
        (let c = c\<lparr>ncli := ncli c - 1\<rparr>
         in if ncli c < 0 then Fail (Panic ''popcli'')
            else if ncli c = 0 \<and> intena c then Ok (c\<lparr>eflags_if := True\<rparr>)
            else Ok c))"

text \<open>The saved program counters along the chain of frame pointers from \<open>ebp\<close>.\<close>

primrec pcs_loop :: "nat \<Rightarrow> mem \<Rightarrow> u32 \<Rightarrow> u32 list" where
  "pcs_loop 0 m ebp = []"
| "pcs_loop (Suc n) m ebp =
     (if ebp = 0 \<or> ebp < KERNBASE \<or> ebp = 0xFFFFFFFF then replicate (Suc n) 0
      else load32 m (ebp + 4) # pcs_loop n m (load32 m ebp))"

definition getcallerpcs :: "mem \<Rightarrow> u32 \<Rightarrow> u32 list" where
  "getcallerpcs m v = pcs_loop 10 m (v - 8)"

section \<open>Acquire and release\<close>

definition acquire_enter :: "nat \<Rightarrow> spinlock \<Rightarrow> cpu \<Rightarrow> cpu res" where
  "acquire_enter me lk c =
     (let c = pushcli c in if holding me lk then Fail (Panic ''acquire'') else Ok c)"

text \<open>The atomic exchange stores 1 and returns the old value.\<close>

definition xchg :: "spinlock \<Rightarrow> bool \<times> spinlock" where
  "xchg lk = (lk_locked lk, lk\<lparr>lk_locked := True\<rparr>)"

definition acquire_record :: "nat \<Rightarrow> u32 list \<Rightarrow> spinlock \<Rightarrow> spinlock" where
  "acquire_record me pcs lk = lk\<lparr>lk_cpu := Some me, lk_pcs := pcs\<rparr>"

definition acquire :: "nat \<Rightarrow> u32 list \<Rightarrow> spinlock \<Rightarrow> cpu \<Rightarrow> (spinlock \<times> cpu) res" where
  "acquire me pcs lk c =
     bindr (acquire_enter me lk c) (\<lambda>c.
       let (old, lk) = xchg lk
       in if old then Fail (Blocked ''acquire'') else Ok (acquire_record me pcs lk, c))"

definition release_clear :: "nat \<Rightarrow> spinlock \<Rightarrow> spinlock res" where
  "release_clear me lk =
     (if \<not> holding me lk then Fail (Panic ''release'')
      else Ok (lk\<lparr>lk_pcs := (lk_pcs lk)[0 := 0], lk_cpu := None\<rparr>))"

definition release_unlock :: "spinlock \<Rightarrow> spinlock" where
  "release_unlock lk = lk\<lparr>lk_locked := False\<rparr>"

definition release :: "nat \<Rightarrow> spinlock \<Rightarrow> cpu \<Rightarrow> (spinlock \<times> cpu) res" where
  "release me lk c =
     bindr (release_clear me lk) (\<lambda>lk.
       let lk = release_unlock lk
       in bindr (popcli c) (\<lambda>c. Ok (lk, c)))"

section \<open>Interleavings\<close>

text \<open>
  Where a processor is: outside, spinning, behind the successful exchange, in the critical
  section, behind the clearing of the owner, behind the store of 0.
\<close>

datatype lock_pc = Outside | Spinning | Got | Inside | Cleared | Unlocked

record lock_sys =
  ls_lock :: spinlock
  ls_cpu :: "nat \<Rightarrow> cpu"
  ls_pc :: "nat \<Rightarrow> lock_pc"

inductive lock_step :: "lock_sys \<Rightarrow> lock_sys \<Rightarrow> bool" where
  enter: "ls_pc s me = Outside \<Longrightarrow> acquire_enter me (ls_lock s) (ls_cpu s me) = Ok c \<Longrightarrow>
    lock_step s (s\<lparr>ls_cpu := (ls_cpu s)(me := c), ls_pc := (ls_pc s)(me := Spinning)\<rparr>)"
| spin: "ls_pc s me = Spinning \<Longrightarrow> xchg (ls_lock s) = (True, lk) \<Longrightarrow> lock_step s (s\<lparr>ls_lock := lk\<rparr>)"
| got: "ls_pc s me = Spinning \<Longrightarrow> xchg (ls_lock s) = (False, lk) \<Longrightarrow>
    lock_step s (s\<lparr>ls_lock := lk, ls_pc := (ls_pc s)(me := Got)\<rparr>)"
| own: "ls_pc s me = Got \<Longrightarrow>
    lock_step s (s\<lparr>ls_lock := acquire_record me pcs (ls_lock s), ls_pc := (ls_pc s)(me := Inside)\<rparr>)"
| clear: "ls_pc s me = Inside \<Longrightarrow> release_clear me (ls_lock s) = Ok lk \<Longrightarrow>
    lock_step s (s\<lparr>ls_lock := lk, ls_pc := (ls_pc s)(me := Cleared)\<rparr>)"
| unlock: "ls_pc s me = Cleared \<Longrightarrow>
    lock_step s (s\<lparr>ls_lock := release_unlock (ls_lock s), ls_pc := (ls_pc s)(me := Unlocked)\<rparr>)"
| pop: "ls_pc s me = Unlocked \<Longrightarrow> popcli (ls_cpu s me) = Ok c \<Longrightarrow>
    lock_step s (s\<lparr>ls_cpu := (ls_cpu s)(me := c), ls_pc := (ls_pc s)(me := Outside)\<rparr>)"

text \<open>A fresh lock, with processors at any nesting depth that interrupts respect.\<close>

definition lock_init :: "lock_sys \<Rightarrow> bool" where
  "lock_init s \<longleftrightarrow> \<not> lk_locked (ls_lock s) \<and> lk_cpu (ls_lock s) = None \<and>
     (\<forall>me. ls_pc s me = Outside \<and> 0 \<le> ncli (ls_cpu s me) \<and> (0 < ncli (ls_cpu s me) \<longrightarrow> \<not> eflags_if (ls_cpu s me)))"

definition owns :: "lock_pc \<Rightarrow> bool" where
  "owns pc \<longleftrightarrow> pc \<in> {Got, Inside, Cleared}"

text \<open>
  The invariant: at most one processor owns the lock, exactly when it is locked; the owner
  field names the processor inside; and a processor that is not outside runs with
  interrupts disabled.
\<close>

definition owner_ok :: "nat option \<Rightarrow> lock_sys \<Rightarrow> bool" where
  "owner_ok ow s \<longleftrightarrow> (lk_locked (ls_lock s) \<longleftrightarrow> ow \<noteq> None) \<and>
     (\<forall>me. owns (ls_pc s me) \<longleftrightarrow> ow = Some me) \<and>
     (\<forall>me. lk_cpu (ls_lock s) = Some me \<longleftrightarrow> ls_pc s me = Inside)"

definition cli_ok :: "lock_pc \<Rightarrow> cpu \<Rightarrow> bool" where
  "cli_ok pc c \<longleftrightarrow> 0 \<le> ncli c \<and> (0 < ncli c \<longrightarrow> \<not> eflags_if c) \<and> (pc \<noteq> Outside \<longrightarrow> 0 < ncli c)"

definition lock_inv :: "lock_sys \<Rightarrow> bool" where
  "lock_inv s \<longleftrightarrow> (\<exists>ow. owner_ok ow s) \<and> (\<forall>me. cli_ok (ls_pc s me) (ls_cpu s me))"

lemmas lock_defs = holding_def acquire_enter_def xchg_def acquire_record_def release_clear_def
  release_unlock_def owner_ok_def owns_def

lemma lock_init_inv: "lock_init s \<Longrightarrow> lock_inv s"
  by (auto simp: lock_init_def lock_inv_def owner_ok_def owns_def cli_ok_def)

lemma cli_ok_enter: "cli_ok pc c \<Longrightarrow> acquire_enter me lk c = Ok c' \<Longrightarrow> cli_ok pc' c'"
  by (auto simp: cli_ok_def acquire_enter_def pushcli_def Let_def split: if_splits)

lemma cli_ok_pop: "cli_ok pc c \<Longrightarrow> pc \<noteq> Outside \<Longrightarrow> popcli c = Ok c' \<Longrightarrow> cli_ok Outside c'"
  by (auto simp: cli_ok_def popcli_def Let_def split: if_splits)

lemma owner_unique:
  "owner_ok ow s \<Longrightarrow> owns (ls_pc s me) \<Longrightarrow> ow = Some me \<and> (\<forall>other. other \<noteq> me \<longrightarrow> \<not> owns (ls_pc s other))"
  by (auto simp: owner_ok_def)

lemma lock_step_owner:
  assumes "lock_step s s'" "owner_ok ow s"
  shows "\<exists>ow'. owner_ok ow' s'"
  using assms
proof (induction rule: lock_step.induct)
  case (enter s me c)
  then have "ow \<noteq> Some me" by (force simp: owner_ok_def owns_def)
  with enter show ?case by (intro exI [of _ ow]) (auto simp: lock_defs)
next
  case (spin s me lk)
  then show ?case by (intro exI [of _ ow]) (auto simp: lock_defs)
next
  case (got s me lk)
  then show ?case by (intro exI [of _ "Some me"]) (auto simp: lock_defs)
next
  case (own s me pcs)
  then have "ow = Some me" "\<forall>other. other \<noteq> me \<longrightarrow> \<not> owns (ls_pc s other)"
    using owner_unique [of ow s me] by (auto simp: owns_def)
  with own show ?case by (intro exI [of _ ow]) (auto simp: lock_defs)
next
  case (clear s me lk)
  then have "ow = Some me" "\<forall>other. other \<noteq> me \<longrightarrow> \<not> owns (ls_pc s other)"
    using owner_unique [of ow s me] by (auto simp: owns_def)
  with clear show ?case by (intro exI [of _ ow]) (auto simp: lock_defs split: if_splits)
next
  case (unlock s me)
  then have "ow = Some me" "\<forall>other. other \<noteq> me \<longrightarrow> \<not> owns (ls_pc s other)"
    using owner_unique [of ow s me] by (auto simp: owns_def)
  with unlock show ?case by (intro exI [of _ None]) (auto simp: lock_defs)
next
  case (pop s me c)
  then have "ow \<noteq> Some me" by (force simp: owner_ok_def owns_def)
  with pop show ?case by (intro exI [of _ ow]) (auto simp: lock_defs)
qed

lemma lock_step_cli:
  assumes "lock_step s s'" "\<forall>me. cli_ok (ls_pc s me) (ls_cpu s me)"
  shows "\<forall>me. cli_ok (ls_pc s' me) (ls_cpu s' me)"
  using assms
proof (induction rule: lock_step.induct)
  case (enter s me c)
  then have "cli_ok Spinning c" using cli_ok_enter by blast
  with enter show ?case by simp
next
  case (pop s me c)
  then show ?case using cli_ok_pop by fastforce
qed (auto simp: cli_ok_def)

lemma lock_step_inv: "lock_step s s' \<Longrightarrow> lock_inv s \<Longrightarrow> lock_inv s'"
  unfolding lock_inv_def using lock_step_owner lock_step_cli by blast

lemma lock_reachable_inv: "lock_step\<^sup>*\<^sup>* s s' \<Longrightarrow> lock_inv s \<Longrightarrow> lock_inv s'"
  by (induction rule: rtranclp_induct) (auto intro: lock_step_inv)

section \<open>Properties\<close>

text \<open>
  C6. Mutual exclusion: in every interleaving of \<open>acquire\<close> and \<open>release\<close> on any number of
  processors that starts with a free lock, two processors are never between a successful
  exchange and the store that frees the lock; the processor inside is the one that
  \<open>holding\<close> recognises, and it runs with interrupts disabled.
\<close>

theorem spinlock_mutual_exclusion:
  assumes "lock_init s" "lock_step\<^sup>*\<^sup>* s s'" "ls_pc s' a = Inside"
  shows "(\<forall>b. owns (ls_pc s' b) = (b = a)) \<and> holding a (ls_lock s') \<and> \<not> eflags_if (ls_cpu s' a)"
proof -
  have inv: "lock_inv s'" using lock_reachable_inv assms(1,2) lock_init_inv by blast
  then obtain ow where ow: "owner_ok ow s'" by (auto simp: lock_inv_def)
  then have "ow = Some a" using assms(3) by (auto simp: owner_ok_def owns_def)
  moreover have "cli_ok (ls_pc s' a) (ls_cpu s' a)" using inv by (simp add: lock_inv_def)
  ultimately show ?thesis
    using ow assms(3) by (auto simp: owner_ok_def holding_def cli_ok_def)
qed

text \<open>Two processors and a free lock; processor 1 acquires it.\<close>

definition sample_locks :: lock_sys where
  "sample_locks = \<lparr>ls_lock = \<lparr>lk_name = [], lk_locked = False, lk_cpu = None, lk_pcs = replicate 10 0\<rparr>,
     ls_cpu = (\<lambda>_. \<lparr>ncli = 0, intena = False, eflags_if = True\<rparr>), ls_pc = (\<lambda>_. Outside)\<rparr>"

definition sample_locked :: lock_sys where
  "sample_locked = \<lparr>ls_lock = \<lparr>lk_name = [], lk_locked = True, lk_cpu = Some 1, lk_pcs = replicate 10 0\<rparr>,
     ls_cpu = (\<lambda>_. \<lparr>ncli = 0, intena = False, eflags_if = True\<rparr>)(1 := \<lparr>ncli = 1, intena = True, eflags_if = False\<rparr>),
     ls_pc = (\<lambda>_. Outside)(1 := Inside)\<rparr>"

lemma sample_locks_step: "lock_step\<^sup>*\<^sup>* sample_locks sample_locked"
proof -
  let ?c = "\<lparr>ncli = 1, intena = True, eflags_if = False\<rparr> :: cpu"
  let ?s1 = "sample_locks\<lparr>ls_cpu := (ls_cpu sample_locks)(1 := ?c), ls_pc := (ls_pc sample_locks)(1 := Spinning)\<rparr>"
  let ?s2 = "?s1\<lparr>ls_lock := (ls_lock ?s1)\<lparr>lk_locked := True\<rparr>, ls_pc := (ls_pc ?s1)(1 := Got)\<rparr>"
  have "lock_step sample_locks ?s1"
    by (rule enter) (simp_all add: sample_locks_def acquire_enter_def pushcli_def holding_def)
  moreover have "lock_step ?s1 ?s2"
    by (rule got) (simp_all add: sample_locks_def xchg_def)
  moreover have "lock_step ?s2 (?s2\<lparr>ls_lock := acquire_record 1 (replicate 10 0) (ls_lock ?s2), ls_pc := (ls_pc ?s2)(1 := Inside)\<rparr>)"
    by (rule own) simp
  moreover have "?s2\<lparr>ls_lock := acquire_record 1 (replicate 10 0) (ls_lock ?s2), ls_pc := (ls_pc ?s2)(1 := Inside)\<rparr> = sample_locked"
    by (simp add: sample_locks_def sample_locked_def acquire_record_def)
  ultimately show ?thesis
    by (metis (no_types, lifting) converse_rtranclp_into_rtranclp rtranclp.rtrancl_refl)
qed

theorem spinlock_mutual_exclusion_witness:
  "(\<forall>b. owns (ls_pc sample_locked b) = (b = 1)) \<and> holding 1 (ls_lock sample_locked) \<and>
   \<not> eflags_if (ls_cpu sample_locked 1)"
  by (rule spinlock_mutual_exclusion [OF _ sample_locks_step])
    (simp_all add: lock_init_def sample_locks_def sample_locked_def)

primrec popn :: "nat \<Rightarrow> cpu \<Rightarrow> cpu res" where
  "popn 0 c = Ok c"
| "popn (Suc n) c = bindr (popcli c) (popn n)"

lemma pushn:
  "0 \<le> ncli c \<Longrightarrow> (pushcli ^^ Suc n) c =
   c\<lparr>eflags_if := False, intena := (if ncli c = 0 then eflags_if c else intena c), ncli := ncli c + int (Suc n)\<rparr>"
  by (induction n) (auto simp: pushcli_def Let_def)

lemma popn_nested:
  "\<not> eflags_if c \<Longrightarrow> int (Suc n) \<le> ncli c \<Longrightarrow>
   popn (Suc n) c = Ok (c\<lparr>ncli := ncli c - int (Suc n), eflags_if := (ncli c = int (Suc n) \<and> intena c)\<rparr>)"
proof (induction n arbitrary: c)
  case 0
  then show ?case by (auto simp: popcli_def Let_def)
next
  case (Suc n)
  let ?c = "c\<lparr>ncli := ncli c - 1\<rparr>"
  have "popcli c = Ok ?c" using Suc.prems by (simp add: popcli_def Let_def)
  moreover have "popn (Suc n) ?c = Ok (?c\<lparr>ncli := ncli ?c - int (Suc n), eflags_if := (ncli ?c = int (Suc n) \<and> intena ?c)\<rparr>)"
    by (rule Suc.IH) (use Suc.prems in auto)
  ultimately show ?case by (simp add: algebra_simps)
qed

text \<open>
  \<open>pushcli\<close> and \<open>popcli\<close> nest: \<open>n\<close> calls of \<open>pushcli\<close> followed by \<open>n\<close> calls of \<open>popcli\<close> never
  panic and restore the nesting depth and the interrupt flag of a processor, whether its
  interrupts were enabled or not.
\<close>

theorem pushcli_popcli_nest:
  assumes "0 \<le> ncli c" "ncli c = 0 \<or> \<not> eflags_if c"
  shows "\<exists>c'. popn n ((pushcli ^^ n) c) = Ok c' \<and> ncli c' = ncli c \<and> eflags_if c' = eflags_if c"
proof (cases n)
  case 0
  then show ?thesis by simp
next
  case (Suc m)
  let ?d = "(pushcli ^^ Suc m) c"
  have "popn (Suc m) ?d = Ok (?d\<lparr>ncli := ncli ?d - int (Suc m), eflags_if := (ncli ?d = int (Suc m) \<and> intena ?d)\<rparr>)"
    by (rule popn_nested) (use assms in \<open>simp_all only: pushn\<close>, simp_all)
  then show ?thesis
    using assms unfolding Suc by (simp only: pushn) auto
qed

theorem pushcli_popcli_nest_witness:
  "\<exists>c'. popn 3 ((pushcli ^^ 3) \<lparr>ncli = 0, intena = False, eflags_if = True\<rparr>) = Ok c' \<and> ncli c' = 0 \<and> eflags_if c' = True"
  using pushcli_popcli_nest [of "\<lparr>ncli = 0, intena = False, eflags_if = True\<rparr>" 3] by simp

end
