(* ===== verification/Xv6_Ptable.thy ===== *)
theory Xv6_Ptable
  imports Xv6_Spinlock
begin

text \<open>
  The process table of \<^verbatim>\<open>proc.c\<close>: what each operation does to the table while it holds
  \<open>ptable.lock\<close>.  A process is the index of its entry, and a sleep channel is the address
  of a process structure or of another kernel object.  The theory of the process operations
  composes these functions with the lock, the memory and the files; here the invariant of
  the table is proved for every interleaving of them.
\<close>

section \<open>Processes\<close>

definition NPROC :: nat where "NPROC = 64"
definition KSTACKSIZE :: u32 where "KSTACKSIZE = 4096"

datatype procstate = UNUSED | EMBRYO | SLEEPING | RUNNABLE | RUNNING | ZOMBIE

datatype chan = ChNull | ChProc nat | ChAddr u32

text \<open>The registers of a trap frame that the kernel's C code reads or writes.\<close>

record tframe =
  tf_eax :: u32
  tf_eip :: u32
  tf_esp' :: u32
  tf_cs :: u32
  tf_ds :: u32
  tf_es :: u32
  tf_ss :: u32
  tf_eflags :: u32

record proc =
  p_sz :: u32
  p_pgdir :: u32
  p_kstack :: u32
  p_state :: procstate
  p_pid :: int
  p_parent :: "nat option"
  p_tf :: tframe
  p_chan :: chan
  p_killed :: bool
  p_ofile :: "nat option list"
  p_cwd :: "nat option"
  p_name :: "u8 list"

record ptab =
  procs :: "proc list"
  nextpid :: int
  initproc :: nat

definition prc :: "nat \<Rightarrow> ptab \<Rightarrow> proc" where
  "prc i t = procs t ! i"

definition upd_prc :: "nat \<Rightarrow> (proc \<Rightarrow> proc) \<Rightarrow> ptab \<Rightarrow> ptab" where
  "upd_prc i f t = t\<lparr>procs := (procs t)[i := f (procs t ! i)]\<rparr>"

section \<open>Operations\<close>

text \<open>
  \<open>allocproc\<close>: the first unused entry becomes an embryo with a new pid.  \<open>nextpid++\<close> is the addition of
  a C \<open>int\<close>, which wraps around to the negative numbers.
\<close>

fun unused_scan :: "proc list \<Rightarrow> nat \<Rightarrow> nat option" where
  "unused_scan [] i = None"
| "unused_scan (p # ps) i = (if p_state p = UNUSED then Some i else unused_scan ps (Suc i))"

definition alloc_slot :: "ptab \<Rightarrow> (nat \<times> ptab) option" where
  "alloc_slot t =
     (case unused_scan (procs t) 0 of
        None \<Rightarrow> None
      | Some i \<Rightarrow>
          Some (i, (upd_prc i (\<lambda>p. p\<lparr>p_state := EMBRYO, p_pid := nextpid t\<rparr>) t)\<lparr>nextpid := signed_take_bit 31 (nextpid t + 1)\<rparr>))"

definition abort_slot :: "nat \<Rightarrow> ptab \<Rightarrow> ptab" where
  "abort_slot i t = upd_prc i (\<lambda>p. p\<lparr>p_kstack := 0, p_state := UNUSED\<rparr>) t"

definition wakeup1 :: "chan \<Rightarrow> ptab \<Rightarrow> ptab" where
  "wakeup1 ch t =
     t\<lparr>procs := map (\<lambda>p. if p_state p = SLEEPING \<and> p_chan p = ch then p\<lparr>p_state := RUNNABLE\<rparr> else p) (procs t)\<rparr>"

definition proc_chan :: "nat option \<Rightarrow> chan" where
  "proc_chan q = (case q of None \<Rightarrow> ChNull | Some i \<Rightarrow> ChProc i)"

text \<open>\<open>exit\<close>: wake the parent, give the children to init, become a zombie.\<close>

primrec reparent :: "nat list \<Rightarrow> nat \<Rightarrow> ptab \<Rightarrow> ptab" where
  "reparent [] cur t = t"
| "reparent (i # is) cur t =
     (if p_parent (prc i t) = Some cur
      then let t = upd_prc i (\<lambda>p. p\<lparr>p_parent := Some (initproc t)\<rparr>) t;
               t = (if p_state (prc i t) = ZOMBIE then wakeup1 (ChProc (initproc t)) t else t)
           in reparent is cur t
      else reparent is cur t)"

definition exit_table :: "nat \<Rightarrow> ptab \<Rightarrow> ptab" where
  "exit_table cur t =
     (let t = wakeup1 (proc_chan (p_parent (prc cur t))) t;
          t = reparent [0..<length (procs t)] cur t
      in upd_prc cur (\<lambda>p. p\<lparr>p_state := ZOMBIE\<rparr>) t)"

text \<open>\<open>wait\<close>: the first zombie child, or whether there is any child at all.\<close>

fun wait_scan :: "proc list \<Rightarrow> nat \<Rightarrow> nat \<Rightarrow> bool \<Rightarrow> nat option \<times> bool" where
  "wait_scan [] i cur havekids = (None, havekids)"
| "wait_scan (p # ps) i cur havekids =
     (if p_parent p \<noteq> Some cur then wait_scan ps (Suc i) cur havekids
      else if p_state p = ZOMBIE then (Some i, True)
      else wait_scan ps (Suc i) cur True)"

definition reap :: "nat \<Rightarrow> ptab \<Rightarrow> ptab" where
  "reap i t =
     upd_prc i (\<lambda>p. p\<lparr>p_kstack := 0, p_pid := 0, p_parent := None, p_name := (p_name p)[0 := 0],
       p_killed := False, p_state := UNUSED\<rparr>) t"

fun pid_scan :: "proc list \<Rightarrow> nat \<Rightarrow> int \<Rightarrow> nat option" where
  "pid_scan [] i pid = None"
| "pid_scan (p # ps) i pid = (if p_pid p = pid then Some i else pid_scan ps (Suc i) pid)"

definition kill_table :: "int \<Rightarrow> ptab \<Rightarrow> ptab option" where
  "kill_table pid t =
     (case pid_scan (procs t) 0 pid of
        None \<Rightarrow> None
      | Some i \<Rightarrow>
          Some (upd_prc i (\<lambda>p. let p = p\<lparr>p_killed := True\<rparr>
                                in if p_state p = SLEEPING then p\<lparr>p_state := RUNNABLE\<rparr> else p) t))"

definition sleep_table :: "nat \<Rightarrow> chan \<Rightarrow> ptab \<Rightarrow> ptab" where
  "sleep_table cur ch t = upd_prc cur (\<lambda>p. p\<lparr>p_chan := ch, p_state := SLEEPING\<rparr>) t"

definition yield_table :: "nat \<Rightarrow> ptab \<Rightarrow> ptab" where
  "yield_table cur t = upd_prc cur (\<lambda>p. p\<lparr>p_state := RUNNABLE\<rparr>) t"

text \<open>The scheduler's loop from entry \<open>i\<close>: the next entry that can run.\<close>

fun runnable_scan :: "proc list \<Rightarrow> nat \<Rightarrow> nat option" where
  "runnable_scan [] i = None"
| "runnable_scan (p # ps) i = (if p_state p = RUNNABLE then Some i else runnable_scan ps (Suc i))"

definition dispatch :: "nat \<Rightarrow> ptab \<Rightarrow> ptab" where
  "dispatch i t = upd_prc i (\<lambda>p. p\<lparr>p_state := RUNNING\<rparr>) t"

text \<open>\<open>fork\<close> with everything copied: the child gets its parent and can run.\<close>

definition fork_table :: "nat \<Rightarrow> nat \<Rightarrow> (proc \<Rightarrow> proc) \<Rightarrow> ptab \<Rightarrow> ptab" where
  "fork_table cur i copy t = upd_prc i (\<lambda>p. (copy p)\<lparr>p_parent := Some cur, p_state := RUNNABLE\<rparr>) t"

section \<open>Interleavings\<close>

text \<open>
  The steps that the processes take on the table.  The process that acts is running.
  Copying in \<open>fork\<close> leaves the pid, the killed flag and the identity of the entry alone.
  \<open>fork\<close> stores the parent of the new entry before the lock that guards its state; only the
  parent looks for children by that field, and it is in \<open>fork\<close>, so the two stores are one step.
\<close>

definition runs :: "nat \<Rightarrow> ptab \<Rightarrow> bool" where
  "runs i t \<longleftrightarrow> i < length (procs t) \<and> p_state (prc i t) = RUNNING"

inductive ptab_step :: "ptab \<Rightarrow> ptab \<Rightarrow> bool" where
  st_alloc: "alloc_slot t = Some (i, t') \<Longrightarrow> ptab_step t t'"
| st_abort: "i < length (procs t) \<Longrightarrow> p_state (prc i t) = EMBRYO \<Longrightarrow> ptab_step t (abort_slot i t)"
| st_fork: "runs cur t \<Longrightarrow> i < length (procs t) \<Longrightarrow> p_state (prc i t) = EMBRYO \<Longrightarrow>
    (\<And>p. p_pid (copy p) = p_pid p) \<Longrightarrow> ptab_step t (fork_table cur i copy t)"
| st_exit: "runs cur t \<Longrightarrow> cur \<noteq> initproc t \<Longrightarrow> ptab_step t (exit_table cur t)"
| st_wait: "runs cur t \<Longrightarrow> wait_scan (procs t) 0 cur False = (Some i, b) \<Longrightarrow> ptab_step t (reap i t)"
| st_kill: "kill_table pid t = Some t' \<Longrightarrow> ptab_step t t'"
| st_sleep: "runs cur t \<Longrightarrow> ptab_step t (sleep_table cur ch t)"
| st_wakeup: "ptab_step t (wakeup1 ch t)"
| st_yield: "runs cur t \<Longrightarrow> ptab_step t (yield_table cur t)"
| st_dispatch: "runnable_scan (drop k (procs t)) k = Some i \<Longrightarrow> ptab_step t (dispatch i t)"

section \<open>The invariant\<close>

definition live :: "procstate \<Rightarrow> bool" where
  "live st \<longleftrightarrow> st \<in> {SLEEPING, RUNNABLE, RUNNING}"

text \<open>
  The pids of the entries in use are positive, different and smaller than the next one, until
  \<open>nextpid\<close> wraps around.  Always, init is alive; unused entries and embryos have no parent; and the
  parent of any other process except init is alive, so that it can wait for it.
\<close>

definition pids_ok :: "ptab \<Rightarrow> bool" where
  "pids_ok t \<longleftrightarrow> 0 < nextpid t \<and>
     (\<forall>i < length (procs t). p_state (prc i t) \<noteq> UNUSED \<longrightarrow> 0 < p_pid (prc i t) \<and> p_pid (prc i t) < nextpid t) \<and>
     (\<forall>i < length (procs t). \<forall>j < length (procs t). p_state (prc i t) \<noteq> UNUSED \<longrightarrow> p_state (prc j t) \<noteq> UNUSED \<longrightarrow>
        p_pid (prc i t) = p_pid (prc j t) \<longrightarrow> i = j)"

definition parents_ok :: "ptab \<Rightarrow> bool" where
  "parents_ok t \<longleftrightarrow> initproc t < length (procs t) \<and> live (p_state (prc (initproc t) t)) \<and>
     (\<forall>i < length (procs t). \<forall>q. p_parent (prc i t) = Some q \<longrightarrow> q < length (procs t) \<and> live (p_state (prc q t))) \<and>
     (\<forall>i < length (procs t). p_state (prc i t) \<in> {UNUSED, EMBRYO} \<longrightarrow> p_parent (prc i t) = None) \<and>
     (\<forall>i < length (procs t). p_state (prc i t) \<notin> {UNUSED, EMBRYO} \<longrightarrow> i \<noteq> initproc t \<longrightarrow> p_parent (prc i t) \<noteq> None)"

definition tab_inv :: "ptab \<Rightarrow> bool" where
  "tab_inv t \<longleftrightarrow> length (procs t) = NPROC \<and> parents_ok t"

definition ptab_inv :: "ptab \<Rightarrow> bool" where
  "ptab_inv t \<longleftrightarrow> length (procs t) = NPROC \<and> pids_ok t \<and> parents_ok t"

lemma prc_upd [simp]:
  "i < length (procs t) \<Longrightarrow> prc j (upd_prc i f t) = (if j = i then f (prc j t) else prc j t)"
  by (simp add: prc_def upd_prc_def nth_list_update)

lemma upd_prc_fields [simp]:
  "length (procs (upd_prc i f t)) = length (procs t)" "nextpid (upd_prc i f t) = nextpid t"
  "initproc (upd_prc i f t) = initproc t"
  by (simp_all add: upd_prc_def)

lemma wakeup1_fields [simp]:
  "length (procs (wakeup1 ch t)) = length (procs t)" "nextpid (wakeup1 ch t) = nextpid t"
  "initproc (wakeup1 ch t) = initproc t"
  by (simp_all add: wakeup1_def)

lemma prc_wakeup1:
  "i < length (procs t) \<Longrightarrow> prc i (wakeup1 ch t) =
   (if p_state (prc i t) = SLEEPING \<and> p_chan (prc i t) = ch then (prc i t)\<lparr>p_state := RUNNABLE\<rparr> else prc i t)"
  by (simp add: wakeup1_def prc_def)

text \<open>
  An update that changes states only among the live ones, or not at all, and keeps pids and
  parents, preserves the invariant.
\<close>

definition same_shape :: "ptab \<Rightarrow> ptab \<Rightarrow> bool" where
  "same_shape t t' \<longleftrightarrow> length (procs t') = length (procs t) \<and> nextpid t' = nextpid t \<and> initproc t' = initproc t \<and>
     (\<forall>i < length (procs t). p_pid (prc i t') = p_pid (prc i t) \<and> p_parent (prc i t') = p_parent (prc i t) \<and>
        (p_state (prc i t') = p_state (prc i t) \<or> live (p_state (prc i t)) \<and> live (p_state (prc i t'))))"

lemma same_shape_states:
  assumes "same_shape t t'" "i < length (procs t)"
  shows "p_state (prc i t') = UNUSED \<longleftrightarrow> p_state (prc i t) = UNUSED"
    "p_state (prc i t') = EMBRYO \<longleftrightarrow> p_state (prc i t) = EMBRYO"
    "live (p_state (prc i t')) \<longleftrightarrow> live (p_state (prc i t))"
  using assms unfolding same_shape_def live_def by auto

lemma parents_okD:
  assumes "parents_ok t"
  shows "initproc t < length (procs t)" "live (p_state (prc (initproc t) t))"
    "\<And>i q. i < length (procs t) \<Longrightarrow> p_parent (prc i t) = Some q \<Longrightarrow> q < length (procs t) \<and> live (p_state (prc q t))"
    "\<And>i. i < length (procs t) \<Longrightarrow> p_state (prc i t) \<in> {UNUSED, EMBRYO} \<Longrightarrow> p_parent (prc i t) = None"
    "\<And>i. i < length (procs t) \<Longrightarrow> p_state (prc i t) \<notin> {UNUSED, EMBRYO} \<Longrightarrow> i \<noteq> initproc t \<Longrightarrow> p_parent (prc i t) \<noteq> None"
  using assms unfolding parents_ok_def by blast+

lemma pids_okD:
  assumes "pids_ok t"
  shows "0 < nextpid t"
    "\<And>i. i < length (procs t) \<Longrightarrow> p_state (prc i t) \<noteq> UNUSED \<Longrightarrow> 0 < p_pid (prc i t) \<and> p_pid (prc i t) < nextpid t"
    "\<And>i j. i < length (procs t) \<Longrightarrow> j < length (procs t) \<Longrightarrow> p_state (prc i t) \<noteq> UNUSED \<Longrightarrow> p_state (prc j t) \<noteq> UNUSED \<Longrightarrow>
        p_pid (prc i t) = p_pid (prc j t) \<Longrightarrow> i = j"
  using assms unfolding pids_ok_def by blast+

lemma unused_scan_some: "unused_scan ps k = Some i \<Longrightarrow> k \<le> i \<and> i < k + length ps \<and> p_state (ps ! (i - k)) = UNUSED"
  by (induction ps arbitrary: k) (fastforce simp: nth_Cons' split: if_splits)+

lemma pid_scan_some: "pid_scan ps k pid = Some i \<Longrightarrow> k \<le> i \<and> i < k + length ps \<and> p_pid (ps ! (i - k)) = pid"
  by (induction ps arbitrary: k) (fastforce simp: nth_Cons' split: if_splits)+

lemma pid_scan_bound: "pid_scan ps 0 pid = Some i \<Longrightarrow> i < length ps"
  using pid_scan_some by fastforce

lemma wait_scan_some:
  "wait_scan ps k cur b = (Some i, b') \<Longrightarrow>
   k \<le> i \<and> i < k + length ps \<and> p_state (ps ! (i - k)) = ZOMBIE \<and> p_parent (ps ! (i - k)) = Some cur"
  by (induction ps arbitrary: k b) (fastforce simp: nth_Cons' split: if_splits)+

lemma runnable_scan_some_from: "runnable_scan ps k = Some i \<Longrightarrow> k \<le> i \<and> i < k + length ps \<and> p_state (ps ! (i - k)) = RUNNABLE"
  by (induction ps arbitrary: k) (fastforce simp: nth_Cons' split: if_splits)+

lemma runnable_scan_some:
  assumes "runnable_scan (drop k ps) k = Some i"
  shows "i < length ps \<and> p_state (ps ! i) = RUNNABLE"
proof -
  have "k \<le> i" "i < k + length (drop k ps)" "p_state (drop k ps ! (i - k)) = RUNNABLE"
    using runnable_scan_some_from [OF assms] by auto
  then show ?thesis by (cases "k \<le> length ps") auto
qed

lemma same_shape_inv:
  assumes "same_shape t t'"
  shows "tab_inv t \<Longrightarrow> tab_inv t'" "pids_ok t \<Longrightarrow> pids_ok t'" "nextpid t' = nextpid t"
proof -
  note eq = same_shape_states [OF assms]
  have sh: "length (procs t') = length (procs t)" "nextpid t' = nextpid t" "initproc t' = initproc t"
    "\<And>i. i < length (procs t) \<Longrightarrow> p_pid (prc i t') = p_pid (prc i t) \<and> p_parent (prc i t') = p_parent (prc i t)"
    using assms by (auto simp: same_shape_def)
  show "pids_ok t'" if "pids_ok t" using that sh eq(1) unfolding pids_ok_def by simp
  have "parents_ok t'" if "parents_ok t"
    unfolding parents_ok_def sh(1,3) using parents_okD [OF that] sh(4) eq by auto
  then show "tab_inv t'" if "tab_inv t" using that sh(1) by (simp add: tab_inv_def)
  show "nextpid t' = nextpid t" by (rule sh(2))
qed

lemma kill_shape: "kill_table pid t = Some t' \<Longrightarrow> same_shape t t'"
  by (auto simp: kill_table_def same_shape_def live_def Let_def pid_scan_bound split: option.splits if_splits)

lemma sleep_shape: "runs cur t \<Longrightarrow> same_shape t (sleep_table cur ch t)"
  by (auto simp: runs_def sleep_table_def same_shape_def live_def)

lemma yield_shape: "runs cur t \<Longrightarrow> same_shape t (yield_table cur t)"
  by (auto simp: runs_def yield_table_def same_shape_def live_def)

lemma wakeup1_shape: "same_shape t (wakeup1 ch t)"
  by (auto simp: same_shape_def live_def prc_wakeup1)

lemma dispatch_shape:
  assumes "runnable_scan (drop k (procs t)) k = Some i"
  shows "same_shape t (dispatch i t)"
  using runnable_scan_some [OF assms] by (auto simp: dispatch_def same_shape_def live_def simp flip: prc_def)


text \<open>Changing an entry that is not alive, and therefore nobody's parent.\<close>

lemma parents_ok_update:
  assumes ok: "parents_ok t" and i: "i < length (procs t)" "\<not> live (p_state (prc i t))"
    and sh: "length (procs t') = length (procs t)" "initproc t' = initproc t"
    and upd: "\<And>j. j < length (procs t) \<Longrightarrow> prc j t' = (if j = i then P else prc j t)"
    and par: "\<And>q. p_parent P = Some q \<Longrightarrow> q < length (procs t) \<and> live (p_state (prc q t))"
    and emb: "p_state P \<in> {UNUSED, EMBRYO} \<longleftrightarrow> p_parent P = None"
  shows "parents_ok t'"
proof -
  note d = parents_okD [OF ok]
  have ne: "i \<noteq> initproc t" using i(2) d(2) by auto
  have lv: "live (p_state (prc q t'))" if "q < length (procs t)" "live (p_state (prc q t))" for q
    using that i(2) upd [of q] by auto
  show ?thesis
    unfolding parents_ok_def sh
  proof (intro conjI allI impI)
    show "initproc t < length (procs t)" by (rule d(1))
    show "live (p_state (prc (initproc t) t'))" using lv d(1,2) by blast
  next
    fix j q assume "j < length (procs t)" "p_parent (prc j t') = Some q"
    then have "q < length (procs t) \<and> live (p_state (prc q t))"
      using par [of q] d(3) [of j q] upd [of j] by (cases "j = i") auto
    then show "q < length (procs t)" "live (p_state (prc q t'))" using lv by auto
  next
    fix j assume "j < length (procs t)" "p_state (prc j t') \<in> {UNUSED, EMBRYO}"
    then show "p_parent (prc j t') = None" using emb d(4) [of j] upd [of j] by (cases "j = i") auto
  next
    fix j assume "j < length (procs t)" "p_state (prc j t') \<notin> {UNUSED, EMBRYO}" "j \<noteq> initproc t"
    then show "p_parent (prc j t') \<noteq> None" using emb d(5) [of j] upd [of j] by (cases "j = i") auto
  qed
qed

text \<open>Below the largest \<open>int\<close> the next pid is one more.\<close>

lemma next_pid: "0 \<le> n \<Longrightarrow> n < 2 ^ 31 - 1 \<Longrightarrow> signed_take_bit 31 (n + 1) = (n + 1 :: int)"
  by (simp add: signed_take_bit_int_eq_self)

lemma alloc_slot_some:
  assumes "alloc_slot t = Some (i, t')"
  shows "i < length (procs t)" "p_state (prc i t) = UNUSED" "length (procs t') = length (procs t)"
    "initproc t' = initproc t" "nextpid t' = signed_take_bit 31 (nextpid t + 1)"
    "prc j t' = (if j = i then (prc j t)\<lparr>p_state := EMBRYO, p_pid := nextpid t\<rparr> else prc j t)"
proof -
  show i: "i < length (procs t)" "p_state (prc i t) = UNUSED"
    using assms unused_scan_some [of "procs t" 0 i] by (auto simp: alloc_slot_def prc_def split: option.splits)
  have t': "t' = (upd_prc i (\<lambda>p. p\<lparr>p_state := EMBRYO, p_pid := nextpid t\<rparr>) t)\<lparr>nextpid := signed_take_bit 31 (nextpid t + 1)\<rparr>"
    using assms by (auto simp: alloc_slot_def split: option.splits)
  show "length (procs t') = length (procs t)" "initproc t' = initproc t" "nextpid t' = signed_take_bit 31 (nextpid t + 1)"
    by (simp_all add: t')
  show "prc j t' = (if j = i then (prc j t)\<lparr>p_state := EMBRYO, p_pid := nextpid t\<rparr> else prc j t)"
    using prc_upd [OF i(1), of j] by (simp add: t' prc_def)
qed

lemma alloc_inv:
  assumes "alloc_slot t = Some (i, t')" "tab_inv t"
  shows "tab_inv t'"
proof -
  note a = alloc_slot_some [OF assms(1)]
  have inv: "parents_ok t" using assms(2) by (simp add: tab_inv_def)
  have "parents_ok t'"
    by (rule parents_ok_update [OF inv a(1), where P = "(prc i t)\<lparr>p_state := EMBRYO, p_pid := nextpid t\<rparr>"])
      (use a parents_okD(4) [OF inv a(1)] in \<open>auto simp: live_def\<close>)
  then show ?thesis using assms(2) a(3) by (simp add: tab_inv_def)
qed

lemma alloc_pids:
  assumes "alloc_slot t = Some (i, t')" "pids_ok t" "nextpid t < 2 ^ 31 - 1"
  shows "pids_ok t'" "nextpid t' = nextpid t + 1"
proof -
  note a = alloc_slot_some [OF assms(1)]
  show n: "nextpid t' = nextpid t + 1"
    using a(5) next_pid [OF less_imp_le [OF pids_okD(1) [OF assms(2)]] assms(3)] by simp
  have new: "p_pid (prc j t') = (if j = i then nextpid t else p_pid (prc j t))"
    "p_state (prc j t') = UNUSED \<longleftrightarrow> j \<noteq> i \<and> p_state (prc j t) = UNUSED" for j
    by (simp_all add: a(6))
  have lt: "p_pid (prc j t) \<noteq> nextpid t" if "j < length (procs t)" "p_state (prc j t) \<noteq> UNUSED" for j
    using pids_okD(2) [OF assms(2) that] by simp
  show "pids_ok t'"
    unfolding pids_ok_def a(3) n
  proof (intro conjI allI impI)
    show "0 < nextpid t + 1" using pids_okD(1) [OF assms(2)] by simp
  next
    fix j assume "j < length (procs t)" "p_state (prc j t') \<noteq> UNUSED"
    then show "0 < p_pid (prc j t')" "p_pid (prc j t') < nextpid t + 1"
      using pids_okD(1) [OF assms(2)] pids_okD(2) [OF assms(2), of j] by (auto simp: new)
  next
    fix j l
    assume "j < length (procs t)" "l < length (procs t)" "p_state (prc j t') \<noteq> UNUSED"
      "p_state (prc l t') \<noteq> UNUSED" "p_pid (prc j t') = p_pid (prc l t')"
    then show "j = l"
      using lt [of j] lt [of l] pids_okD(3) [OF assms(2), of j l] by (auto simp: new split: if_splits)
  qed
qed

lemma abort_inv:
  assumes "tab_inv t" "i < length (procs t)" "p_state (prc i t) = EMBRYO"
  shows "tab_inv (abort_slot i t)" "pids_ok t \<Longrightarrow> pids_ok (abort_slot i t)" "nextpid (abort_slot i t) = nextpid t"
proof -
  have inv: "parents_ok t" "length (procs t) = NPROC" using assms(1) by (simp_all add: tab_inv_def)
  have ne: "i \<noteq> initproc t" using assms(3) parents_okD(2) [OF inv(1)] by (auto simp: live_def)
  show "pids_ok (abort_slot i t)" if "pids_ok t"
    unfolding pids_ok_def abort_slot_def using pids_okD [OF that] assms(2) by simp
  have "parents_ok (abort_slot i t)"
    by (rule parents_ok_update [OF inv(1) assms(2), where P = "(prc i t)\<lparr>p_kstack := 0, p_state := UNUSED\<rparr>"])
      (use assms(2,3) parents_okD(4) [OF inv(1) assms(2)] in \<open>auto simp: live_def abort_slot_def\<close>)
  then show "tab_inv (abort_slot i t)" using inv(2) by (simp add: tab_inv_def abort_slot_def)
  show "nextpid (abort_slot i t) = nextpid t" by (simp add: abort_slot_def)
qed

lemma fork_inv:
  assumes "tab_inv t" "runs cur t" "i < length (procs t)" "p_state (prc i t) = EMBRYO" "\<And>p. p_pid (copy p) = p_pid p"
  shows "tab_inv (fork_table cur i copy t)" "pids_ok t \<Longrightarrow> pids_ok (fork_table cur i copy t)" "nextpid (fork_table cur i copy t) = nextpid t"
proof -
  have inv: "parents_ok t" "length (procs t) = NPROC" using assms(1) by (simp_all add: tab_inv_def)
  have ne: "i \<noteq> initproc t" "i \<noteq> cur" using assms(2,4) parents_okD(2) [OF inv(1)] by (auto simp: live_def runs_def)
  show "pids_ok (fork_table cur i copy t)" if "pids_ok t"
    unfolding pids_ok_def fork_table_def using pids_okD [OF that] assms(3,4,5) by auto
  have "parents_ok (fork_table cur i copy t)"
    by (rule parents_ok_update [OF inv(1) assms(3), where P = "(copy (prc i t))\<lparr>p_parent := Some cur, p_state := RUNNABLE\<rparr>"])
      (use assms(2-4) in \<open>auto simp: live_def runs_def fork_table_def\<close>)
  then show "tab_inv (fork_table cur i copy t)" using inv(2) by (simp add: tab_inv_def fork_table_def)
  show "nextpid (fork_table cur i copy t) = nextpid t" by (simp add: fork_table_def)
qed

lemma reap_inv:
  assumes "tab_inv t" "i < length (procs t)" "p_state (prc i t) = ZOMBIE"
  shows "tab_inv (reap i t)" "pids_ok t \<Longrightarrow> pids_ok (reap i t)" "nextpid (reap i t) = nextpid t"
proof -
  have inv: "parents_ok t" "length (procs t) = NPROC" using assms(1) by (simp_all add: tab_inv_def)
  have ne: "i \<noteq> initproc t" using assms(3) parents_okD(2) [OF inv(1)] by (auto simp: live_def)
  show "pids_ok (reap i t)" if "pids_ok t"
    unfolding pids_ok_def reap_def using pids_okD [OF that] assms(2) by auto
  have "parents_ok (reap i t)"
    by (rule parents_ok_update [OF inv(1) assms(2), where P = "(prc i t)\<lparr>p_kstack := 0, p_pid := 0, p_parent := None,
        p_name := (p_name (prc i t))[0 := 0], p_killed := False, p_state := UNUSED\<rparr>"])
      (use assms(2,3) in \<open>auto simp: live_def reap_def\<close>)
  then show "tab_inv (reap i t)" using inv(2) by (simp add: tab_inv_def reap_def)
  show "nextpid (reap i t) = nextpid t" by (simp add: reap_def)
qed

text \<open>
  What the loop of \<open>exit\<close> does to the entries in \<open>S\<close>: children of \<open>cur\<close> get init as their
  parent, and sleeping processes may be woken.
\<close>

definition reparented :: "nat set \<Rightarrow> nat \<Rightarrow> ptab \<Rightarrow> ptab \<Rightarrow> bool" where
  "reparented S cur t t' \<longleftrightarrow>
     length (procs t') = length (procs t) \<and> nextpid t' = nextpid t \<and> initproc t' = initproc t \<and>
     (\<forall>i < length (procs t). p_pid (prc i t') = p_pid (prc i t) \<and>
        p_parent (prc i t') = (if i \<in> S \<and> p_parent (prc i t) = Some cur then Some (initproc t) else p_parent (prc i t)) \<and>
        (p_state (prc i t') = p_state (prc i t) \<or> p_state (prc i t) = SLEEPING \<and> p_state (prc i t') = RUNNABLE))"

lemma reparented_trans:
  assumes "reparented S cur t u" "reparented S' cur u v" "cur \<noteq> initproc t"
  shows "reparented (S \<union> S') cur t v"
proof -
  have "p_pid (prc i v) = p_pid (prc i t) \<and>
      p_parent (prc i v) = (if i \<in> S \<union> S' \<and> p_parent (prc i t) = Some cur then Some (initproc t) else p_parent (prc i t)) \<and>
      (p_state (prc i v) = p_state (prc i t) \<or> p_state (prc i t) = SLEEPING \<and> p_state (prc i v) = RUNNABLE)"
    if "i < length (procs t)" for i
  proof -
    have "p_pid (prc i u) = p_pid (prc i t)"
      "p_parent (prc i u) = (if i \<in> S \<and> p_parent (prc i t) = Some cur then Some (initproc t) else p_parent (prc i t))"
      "p_state (prc i u) = p_state (prc i t) \<or> p_state (prc i t) = SLEEPING \<and> p_state (prc i u) = RUNNABLE"
      "initproc u = initproc t" "length (procs u) = length (procs t)"
      using assms(1) that by (auto simp: reparented_def)
    moreover have "p_pid (prc i v) = p_pid (prc i u)"
      "p_parent (prc i v) = (if i \<in> S' \<and> p_parent (prc i u) = Some cur then Some (initproc u) else p_parent (prc i u))"
      "p_state (prc i v) = p_state (prc i u) \<or> p_state (prc i u) = SLEEPING \<and> p_state (prc i v) = RUNNABLE"
      using assms(2) that calculation(5) by (auto simp: reparented_def)
    ultimately show ?thesis using assms(3) by auto
  qed
  then show ?thesis using assms(1,2) unfolding reparented_def by simp
qed

lemma reparented_wakeup1: "reparented {} cur t (wakeup1 ch t)"
  by (auto simp: reparented_def prc_wakeup1)

lemma reparented_child:
  "k < length (procs t) \<Longrightarrow> p_parent (prc k t) = Some cur \<Longrightarrow>
   reparented {k} cur t (upd_prc k (\<lambda>p. p\<lparr>p_parent := Some (initproc t)\<rparr>) t)"
  by (auto simp: reparented_def)

lemma reparented_reparent:
  "set is \<subseteq> {..<length (procs t)} \<Longrightarrow> cur \<noteq> initproc t \<Longrightarrow> reparented (set is) cur t (reparent is cur t)"
proof (induction "is" arbitrary: t)
  case Nil
  then show ?case by (simp add: reparented_def)
next
  case (Cons k "is")
  let ?u = "upd_prc k (\<lambda>p. p\<lparr>p_parent := Some (initproc t)\<rparr>) t"
  let ?w = "if p_state (prc k ?u) = ZOMBIE then wakeup1 (ChProc (initproc ?u)) ?u else ?u"
  have k: "k < length (procs t)" using Cons.prems(1) by simp
  show ?case
  proof (cases "p_parent (prc k t) = Some cur")
    case True
    have "reparented {k} cur t ?w"
      using reparented_trans [OF reparented_child [OF k True] reparented_wakeup1] Cons.prems(2)
        reparented_child [OF k True] by simp
    moreover have "reparented (set is) cur ?w (reparent is cur ?w)"
      by (rule Cons.IH) (use Cons.prems in auto)
    ultimately have "reparented ({k} \<union> set is) cur t (reparent is cur ?w)"
      using Cons.prems(2) by (rule reparented_trans)
    with True show ?thesis by (simp add: Let_def)
  next
    case False
    have "reparented {k} cur t t" using False by (auto simp: reparented_def)
    from reparented_trans [OF this Cons.IH [of t]] Cons.prems False show ?thesis by simp
  qed
qed

lemma zombie_inv:
  assumes "tab_inv t" "runs cur t" "cur \<noteq> initproc t" and r: "reparented {..<length (procs t)} cur t u"
  defines "z \<equiv> upd_prc cur (\<lambda>p. p\<lparr>p_state := ZOMBIE\<rparr>) u"
  shows "tab_inv z" "pids_ok t \<Longrightarrow> pids_ok z" "nextpid z = nextpid t"
proof -
  have n: "length (procs t) = NPROC" and inv: "parents_ok t" using assms(1) by (simp_all add: tab_inv_def)
  have cur: "cur < length (procs t)" "p_state (prc cur t) = RUNNING" using assms(2) by (auto simp: runs_def)
  have u: "length (procs u) = length (procs t)" using r by (simp add: reparented_def)
  have z: "length (procs z) = length (procs t)" "nextpid z = nextpid t" "initproc z = initproc t"
    using r by (simp_all add: z_def reparented_def)
  have e: "p_pid (prc i z) = p_pid (prc i t)"
    "p_parent (prc i z) = (if p_parent (prc i t) = Some cur then Some (initproc t) else p_parent (prc i t))"
    "p_state (prc i z) = UNUSED \<longleftrightarrow> p_state (prc i t) = UNUSED"
    "p_state (prc i z) = EMBRYO \<longleftrightarrow> p_state (prc i t) = EMBRYO"
    "live (p_state (prc i z)) \<longleftrightarrow> i \<noteq> cur \<and> live (p_state (prc i t))" if "i < length (procs t)" for i
    using r that cur u by (auto simp: z_def reparented_def live_def)
  show "pids_ok z" if "pids_ok t"
    unfolding pids_ok_def z using pids_okD [OF that] e(1,3) by metis
  have "parents_ok z"
    unfolding parents_ok_def z using parents_okD [OF inv] e assms(3) by auto
  then show "tab_inv z" using n z(1) by (simp add: tab_inv_def)
  show "nextpid z = nextpid t" by (rule z(2))
qed

lemma exit_inv:
  assumes "tab_inv t" "runs cur t" "cur \<noteq> initproc t"
  shows "tab_inv (exit_table cur t)" "pids_ok t \<Longrightarrow> pids_ok (exit_table cur t)" "nextpid (exit_table cur t) = nextpid t"
proof -
  let ?w = "wakeup1 (proc_chan (p_parent (prc cur t))) t"
  have "reparented ({} \<union> set [0..<length (procs ?w)]) cur t (reparent [0..<length (procs ?w)] cur ?w)"
    by (rule reparented_trans [OF reparented_wakeup1 reparented_reparent]) (use assms(3) in auto)
  then have "reparented {..<length (procs t)} cur t (reparent [0..<length (procs ?w)] cur ?w)"
    by (simp add: atLeast0LessThan)
  from zombie_inv [OF assms this] show "tab_inv (exit_table cur t)"
    "pids_ok t \<Longrightarrow> pids_ok (exit_table cur t)" "nextpid (exit_table cur t) = nextpid t"
    by (simp_all add: exit_table_def Let_def)
qed

text \<open>A step that is not the allocation of an entry leaves \<open>nextpid\<close> alone.\<close>

lemma ptab_step_inv:
  "ptab_step t t' \<Longrightarrow> tab_inv t \<Longrightarrow> tab_inv t' \<and>
   ((\<exists>i. alloc_slot t = Some (i, t')) \<or> nextpid t' = nextpid t \<and> (pids_ok t \<longrightarrow> pids_ok t'))"
proof (induction rule: ptab_step.induct)
  case (st_alloc t i t')
  then show ?case using alloc_inv by blast
next
  case (st_abort i t)
  then show ?case using abort_inv [of t i] by simp
next
  case (st_fork cur t i copy)
  then show ?case using fork_inv [of t cur i copy] by simp
next
  case (st_exit cur t)
  then show ?case using exit_inv [of t cur] by simp
next
  case (st_wait cur t i b)
  then show ?case using wait_scan_some [of "procs t" 0 cur False i b] reap_inv [of t i] by (simp add: prc_def)
next
  case (st_kill pid t t')
  then show ?case using same_shape_inv [OF kill_shape] by blast
next
  case (st_sleep cur t ch)
  then show ?case using same_shape_inv [OF sleep_shape] by blast
next
  case (st_wakeup t ch)
  then show ?case using same_shape_inv [OF wakeup1_shape] by blast
next
  case (st_yield cur t)
  then show ?case using same_shape_inv [OF yield_shape] by blast
next
  case (st_dispatch k t i)
  then show ?case using same_shape_inv [OF dispatch_shape] by blast
qed

lemma ptab_run_inv: "(ptab_step ^^ n) t t' \<Longrightarrow> tab_inv t \<Longrightarrow> tab_inv t'"
  by (induction n arbitrary: t') (auto dest: ptab_step_inv)

text \<open>In \<open>n\<close> steps \<open>nextpid\<close> grows by at most \<open>n\<close>.\<close>

lemma ptab_run_pids:
  "(ptab_step ^^ n) t t' \<Longrightarrow> tab_inv t \<Longrightarrow> pids_ok t \<Longrightarrow> nextpid t + int n < 2 ^ 31 \<Longrightarrow>
   pids_ok t' \<and> nextpid t' \<le> nextpid t + int n"
proof (induction n arbitrary: t')
  case (Suc n)
  then obtain u where u: "(ptab_step ^^ n) t u" "ptab_step u t'" by auto
  then have ih: "pids_ok u" "nextpid u \<le> nextpid t + int n" "tab_inv u"
    using Suc ptab_run_inv [OF u(1)] by auto
  from ptab_step_inv [OF u(2) ih(3)] show ?case
  proof (elim conjE disjE exE)
    fix i assume a: "alloc_slot u = Some (i, t')"
    have "nextpid u < 2 ^ 31 - 1" using ih(2) Suc.prems(4) by simp
    then show ?thesis using alloc_pids [OF a ih(1)] ih(2) by simp
  qed (use ih in simp)
qed simp

section \<open>Properties\<close>

text \<open>The table after \<open>userinit\<close>: init can run, every other entry is zero.\<close>

definition zero_tf :: tframe where
  "zero_tf = \<lparr>tf_eax = 0, tf_eip = 0, tf_esp' = 0, tf_cs = 0, tf_ds = 0, tf_es = 0, tf_ss = 0, tf_eflags = 0\<rparr>"

definition zero_proc :: proc where
  "zero_proc = \<lparr>p_sz = 0, p_pgdir = 0, p_kstack = 0, p_state = UNUSED, p_pid = 0, p_parent = None, p_tf = zero_tf,
     p_chan = ChNull, p_killed = False, p_ofile = replicate 16 None, p_cwd = None, p_name = replicate 16 0\<rparr>"

definition boot_ptab :: ptab where
  "boot_ptab = \<lparr>procs = zero_proc\<lparr>p_state := RUNNABLE, p_pid := 1\<rparr> # replicate (NPROC - 1) zero_proc,
     nextpid = 2, initproc = 0\<rparr>"

lemma boot_prc: "i < NPROC \<Longrightarrow> prc i boot_ptab = (if i = 0 then zero_proc\<lparr>p_state := RUNNABLE, p_pid := 1\<rparr> else zero_proc)"
  by (simp add: prc_def boot_ptab_def nth_Cons')

lemma boot_ptab_inv: "ptab_inv boot_ptab"
proof -
  have n: "length (procs boot_ptab) = NPROC" by (simp add: boot_ptab_def NPROC_def)
  have f: "nextpid boot_ptab = 2" "initproc boot_ptab = 0" by (simp_all add: boot_ptab_def)
  have "0 < NPROC" by (simp add: NPROC_def)
  then show ?thesis
    by (auto simp: ptab_inv_def pids_ok_def parents_ok_def n f boot_prc live_def zero_proc_def split: if_splits)
qed

text \<open>
  C7. Whatever the processes do after boot, in any order and for any number \<open>n\<close> of steps, every zombie
  has a parent that is alive and can wait for it (an abandoned child belongs to init, which never
  exits).  During the first 2147483645 steps, before \<open>nextpid\<close> can overflow, no other entry in use
  has its pid either, so that the parent is told of the right child.
\<close>

theorem zombie_has_live_parent:
  assumes "(ptab_step ^^ n) boot_ptab t" "i < NPROC" "p_state (prc i t) = ZOMBIE"
  shows "(\<exists>q. p_parent (prc i t) = Some q \<and> q < NPROC \<and> live (p_state (prc q t))) \<and>
    (n < 2147483646 \<longrightarrow>
      {j. j < NPROC \<and> p_state (prc j t) \<noteq> UNUSED \<and> p_pid (prc j t) = p_pid (prc i t)} = {i})"
proof -
  have b: "tab_inv boot_ptab" "pids_ok boot_ptab" "nextpid boot_ptab = 2"
    using boot_ptab_inv by (simp_all add: ptab_inv_def tab_inv_def boot_ptab_def)
  have inv: "length (procs t) = NPROC" "parents_ok t"
    using ptab_run_inv [OF assms(1) b(1)] by (simp_all add: tab_inv_def)
  have "i \<noteq> initproc t" using parents_okD(2) [OF inv(2)] assms(3) by (auto simp: live_def)
  then obtain q where "p_parent (prc i t) = Some q"
    using parents_okD(5) [OF inv(2), of i] assms(2,3) inv(1) by auto
  then have "\<exists>q. p_parent (prc i t) = Some q \<and> q < NPROC \<and> live (p_state (prc q t))"
    using parents_okD(3) [OF inv(2), of i q] assms(2) inv(1) by auto
  moreover have "j = i" if "n < 2147483646" "j < NPROC" "p_state (prc j t) \<noteq> UNUSED" "p_pid (prc j t) = p_pid (prc i t)" for j
    using ptab_run_pids [OF assms(1) b(1,2)] b(3) pids_okD(3) [of t j i] that assms(2,3) inv(1) by simp
  ultimately show ?thesis using assms(2,3) by auto
qed

text \<open>Init forks a child, which exits.\<close>

definition sample_t1 :: ptab where "sample_t1 = dispatch 0 boot_ptab"
definition sample_t2 :: ptab where "sample_t2 = snd (the (alloc_slot sample_t1))"
definition sample_t3 :: ptab where "sample_t3 = fork_table 0 1 id sample_t2"
definition sample_t4 :: ptab where "sample_t4 = dispatch 1 (yield_table 0 sample_t3)"
definition sample_zombie :: ptab where "sample_zombie = exit_table 1 sample_t4"

lemma sample_zombie_reachable: "(ptab_step ^^ 6) boot_ptab sample_zombie"
proof -
  have s1: "ptab_step boot_ptab sample_t1"
    unfolding sample_t1_def by (rule st_dispatch [of 0]) code_simp
  have s2: "ptab_step sample_t1 sample_t2"
    by (rule st_alloc [of _ 1]) code_simp
  have s3: "ptab_step sample_t2 sample_t3"
    unfolding sample_t3_def by (rule st_fork) (code_simp | simp)+
  have s4: "ptab_step sample_t3 (yield_table 0 sample_t3)"
    by (rule st_yield) code_simp
  have s5: "ptab_step (yield_table 0 sample_t3) sample_t4"
    unfolding sample_t4_def by (rule st_dispatch [of 1]) code_simp
  have s6: "ptab_step sample_t4 sample_zombie"
    unfolding sample_zombie_def by (rule st_exit) code_simp+
  note c = relpowp_Suc_I2 [where P = ptab_step]
  have "(ptab_step ^^ Suc (Suc (Suc (Suc (Suc (Suc 0)))))) boot_ptab sample_zombie"
    by (rule c [OF s1 c [OF s2 c [OF s3 c [OF s4 c [OF s5 c [OF s6 relpowp_0_I]]]]]])
  then show ?thesis by (simp add: numeral_eq_Suc)
qed

theorem zombie_has_live_parent_witness:
  "(\<exists>q. p_parent (prc 1 sample_zombie) = Some q \<and> q < NPROC \<and> live (p_state (prc q sample_zombie))) \<and>
    {j. j < NPROC \<and> p_state (prc j sample_zombie) \<noteq> UNUSED \<and> p_pid (prc j sample_zombie) = p_pid (prc 1 sample_zombie)} = {1}"
proof -
  have "1 < NPROC" "p_state (prc 1 sample_zombie) = ZOMBIE" by code_simp+
  from zombie_has_live_parent [OF sample_zombie_reachable this] show ?thesis by simp
qed

text \<open>
  C40. \<open>kill\<close> does not look at the state of the entry whose pid it matches: \<open>kill(0)\<close> succeeds
  on a free entry, and the next process that gets the entry is killed before it has run.
\<close>

theorem kill_marks_free_entry:
  assumes "ptab_inv t" "unused_scan (procs t) 0 = Some i" "p_pid (prc i t) = 0"
  shows "\<exists>t' t''. kill_table 0 t = Some t' \<and> alloc_slot t' = Some (i, t'') \<and> p_killed (prc i t'')"
proof -
  have i: "i < length (procs t)" "p_state (prc i t) = UNUSED"
    using unused_scan_some [OF assms(2)] by (auto simp: prc_def)
  have first: "pid_scan ps k 0 = Some i" if "unused_scan ps k = Some i" "p_pid (ps ! (i - k)) = 0"
    "\<And>p. p \<in> set ps \<Longrightarrow> p_state p \<noteq> UNUSED \<Longrightarrow> p_pid p \<noteq> 0" for ps k
    using that
  proof (induction ps arbitrary: k)
    case (Cons p ps)
    show ?case
    proof (cases "p_state p = UNUSED")
      case True
      with Cons.prems show ?thesis by auto
    next
      case False
      then have "unused_scan ps (Suc k) = Some i" using Cons.prems(1) by simp
      moreover have "Suc k \<le> i" using unused_scan_some [OF calculation] by simp
      ultimately have "pid_scan ps (Suc k) 0 = Some i"
        using Cons.IH [of "Suc k"] Cons.prems by (simp add: Suc_diff_le [symmetric] nth_Cons' split: if_splits)
      with Cons.prems(3) [of p] False show ?thesis by simp
    qed
  qed simp
  have pos: "p_pid p \<noteq> 0" if "p \<in> set (procs t)" "p_state p \<noteq> UNUSED" for p
    using that assms(1) by (auto simp: ptab_inv_def pids_ok_def prc_def in_set_conv_nth)
  have "pid_scan (procs t) 0 0 = Some i"
    using first [OF assms(2)] pos assms(3) by (simp add: prc_def)
  then have k: "kill_table 0 t = Some (upd_prc i (\<lambda>p. p\<lparr>p_killed := True\<rparr>) t)"
    using i by (simp add: kill_table_def upd_prc_def prc_def Let_def)
  have same: "unused_scan (ps[j := f (ps ! j)]) k = unused_scan ps k" if "\<And>p. p_state (f p) = p_state p" for f ps j k
    using that by (induction ps arbitrary: j k) (auto split: nat.splits)
  have "unused_scan (procs (upd_prc i (\<lambda>p. p\<lparr>p_killed := True\<rparr>) t)) 0 = Some i"
    using same [of "\<lambda>p. p\<lparr>p_killed := True\<rparr>"] assms(2) by (simp add: upd_prc_def)
  then have "\<exists>t''. alloc_slot (upd_prc i (\<lambda>p. p\<lparr>p_killed := True\<rparr>) t) = Some (i, t'') \<and> p_killed (prc i t'')"
    using i by (simp add: alloc_slot_def upd_prc_def prc_def)
  with k show ?thesis by blast
qed

theorem kill_marks_free_entry_witness:
  "\<exists>t' t''. kill_table 0 boot_ptab = Some t' \<and> alloc_slot t' = Some (1, t'') \<and> p_killed (prc 1 t'')"
  by (rule kill_marks_free_entry [OF boot_ptab_inv]) code_simp+

end
