(* ===== verification/Xv6_Proc.thy ===== *)
theory Xv6_Proc
  imports Xv6_Sysfile Xv6_Vm Xv6_Ptable
begin

text \<open>
  The process operations of \<^verbatim>\<open>proc.c\<close>: the functions of the process table composed with
  its lock, the page allocator, page tables, files and the log.

  The state extends the one of the system calls on files, whose fields for the open files,
  the current directory, the memory size and the killed flag are those of the current
  process.  \<open>curproc\<close> is the variable \<open>proc\<close> (\<open>None\<close> is the null pointer), and \<open>callpcs\<close> the return
  addresses that \<open>getcallerpcs\<close> finds on the kernel stack.  A call of \<open>sched\<close> is where control leaves the process: the operations that
  sleep or yield are split there, and the state in front of \<open>swtch\<close> is the result of the
  first half.  There is one processor.
\<close>

record proc_state = sys_state +
  pt :: ptab
  pt_lock :: spinlock
  mycpu :: cpu
  curproc :: "nat option"
  callpcs :: "u32 list"
  kdata :: u32
  trapret_addr :: u32
  forkret_addr :: u32
  cr3 :: u32
  ts_esp0 :: u32
  ticks :: u32
  first_run :: bool

definition me :: "'a proc_state_scheme \<Rightarrow> nat" where
  "me s = the (curproc s)"

definition cur :: "'a proc_state_scheme \<Rightarrow> proc" where
  "cur s = prc (me s) (pt s)"

definition upd_pt :: "(ptab \<Rightarrow> ptab) \<Rightarrow> 'a proc_state_scheme \<Rightarrow> 'a proc_state_scheme" where
  "upd_pt f s = s\<lparr>pt := f (pt s)\<rparr>"

definition ptable_acquire :: "'a proc_state_scheme \<Rightarrow> 'a proc_state_scheme res" where
  "ptable_acquire s =
     bindr (acquire 0 (callpcs s) (pt_lock s) (mycpu s)) (\<lambda>(lk, c). Ok (s\<lparr>pt_lock := lk, mycpu := c\<rparr>))"

definition ptable_release :: "'a proc_state_scheme \<Rightarrow> 'a proc_state_scheme res" where
  "ptable_release s =
     bindr (release 0 (pt_lock s) (mycpu s)) (\<lambda>(lk, c). Ok (s\<lparr>pt_lock := lk, mycpu := c\<rparr>))"

definition pinit :: "'a proc_state_scheme \<Rightarrow> 'a proc_state_scheme" where
  "pinit s = s\<lparr>pt_lock := initlock ''ptable'' (pt_lock s)\<rparr>"

section \<open>Switching\<close>

definition switchkvm :: "u32 \<Rightarrow> 'a proc_state_scheme \<Rightarrow> 'a proc_state_scheme" where
  "switchkvm kpgdir s = s\<lparr>cr3 := V2P kpgdir\<rparr>"

definition kvmalloc :: "'a proc_state_scheme \<Rightarrow> (u32 \<times> 'a proc_state_scheme) res" where
  "kvmalloc s =
     bindr (setupkvm (kdata s) (kpool s)) (\<lambda>(kpgdir, k). Ok (kpgdir, switchkvm kpgdir (s\<lparr>kpool := k\<rparr>)))"

text \<open>The stack for the next trap and the page table of process \<open>p\<close> (\<open>None\<close> is the null pointer).\<close>

definition switchuvm :: "nat option \<Rightarrow> 'a proc_state_scheme \<Rightarrow> 'a proc_state_scheme res" where
  "switchuvm p s =
     (case p of
        None \<Rightarrow> Fail (Panic ''switchuvm: no process'')
      | Some i \<Rightarrow>
          (let p = prc i (pt s)
           in if p_kstack p = 0 then Fail (Panic ''switchuvm: no kstack'')
              else if p_pgdir p = 0 then Fail (Panic ''switchuvm: no pgdir'')
              else
                (let s = s\<lparr>mycpu := pushcli (mycpu s)\<rparr>;
                     s = s\<lparr>ts_esp0 := p_kstack p + KSTACKSIZE\<rparr>;
                     s = s\<lparr>cr3 := V2P (p_pgdir p)\<rparr>
                 in bindr (popcli (mycpu s)) (\<lambda>c. Ok (s\<lparr>mycpu := c\<rparr>)))))"

definition sched :: "'a proc_state_scheme \<Rightarrow> (bool \<times> 'a proc_state_scheme) res" where
  \<comment> \<open>up to \<open>swtch\<close>; the first component is the saved \<open>intena\<close>\<close>
  "sched s =
     (if \<not> holding 0 (pt_lock s) then Fail (Panic ''sched ptable.lock'')
      else if ncli (mycpu s) \<noteq> 1 then Fail (Panic ''sched locks'')
      else if p_state (cur s) = RUNNING then Fail (Panic ''sched running'')
      else if eflags_if (mycpu s) then Fail (Panic ''sched interruptible'')
      else Ok (intena (mycpu s), s))"

definition sched_return :: "bool \<Rightarrow> 'a proc_state_scheme \<Rightarrow> 'a proc_state_scheme" where
  "sched_return saved s = s\<lparr>mycpu := (mycpu s)\<lparr>intena := saved\<rparr>\<rparr>"

section \<open>Creating processes\<close>

definition TF_SIZE :: u32 where "TF_SIZE = 76"
definition CONTEXT_SIZE :: u32 where "CONTEXT_SIZE = 20"

text \<open>The frame at the top of a new kernel stack: the context starts at \<open>forkret\<close>.\<close>

definition setup_kstack :: "u32 \<Rightarrow> u32 \<Rightarrow> u32 \<Rightarrow> kmem \<Rightarrow> kmem" where
  "setup_kstack kstack trapret forkret k =
     (let sp = kstack + KSTACKSIZE - TF_SIZE;
          sp = sp - 4;
          k = kstore sp trapret k;
          sp = sp - CONTEXT_SIZE;
          k = k\<lparr>kmem_mem := memset sp 0 CONTEXT_SIZE (kmem_mem k)\<rparr>
      in kstore (sp + 16) forkret k)"

definition allocproc :: "'a proc_state_scheme \<Rightarrow> (nat option \<times> 'a proc_state_scheme) res" where
  "allocproc s =
     bindr (ptable_acquire s) (\<lambda>s.
       case alloc_slot (pt s) of
         None \<Rightarrow> bindr (ptable_release s) (\<lambda>s. Ok (None, s))
       | Some (i, t) \<Rightarrow>
           bindr (ptable_release (s\<lparr>pt := t\<rparr>)) (\<lambda>s.
             let (kstack, k) = kalloc (kpool s);
                 s = s\<lparr>kpool := k\<rparr>
             in if kstack = 0 then Ok (None, upd_pt (abort_slot i) s)
                else let s = upd_pt (upd_prc i (\<lambda>p. p\<lparr>p_kstack := kstack\<rparr>)) s
                     in Ok (Some i, s\<lparr>kpool := setup_kstack kstack (trapret_addr s) (forkret_addr s) (kpool s)\<rparr>)))"

definition SEG_UCODE_sel :: u32 where "SEG_UCODE_sel = 0x23"
definition SEG_UDATA_sel :: u32 where "SEG_UDATA_sel = 0x2B"
definition FL_IF :: u32 where "FL_IF = 0x200"

definition init_tf :: tframe where
  "init_tf = \<lparr>tf_eax = 0, tf_eip = 0, tf_esp' = PGSIZE, tf_cs = SEG_UCODE_sel, tf_ds = SEG_UDATA_sel,
     tf_es = SEG_UDATA_sel, tf_ss = SEG_UDATA_sel, tf_eflags = FL_IF\<rparr>"

definition set_name :: "u8 list \<Rightarrow> u8 list \<Rightarrow> u8 list" where
  \<comment> \<open>\<open>safestrcpy(p->name, src, 16)\<close> of a string given as its bytes without the NUL\<close>
  "set_name src old = splice 0 (take 15 src @ [0]) old"

definition userinit :: "'a proc_state_scheme devsw \<Rightarrow> u8 list \<Rightarrow> 'a proc_state_scheme \<Rightarrow> 'a proc_state_scheme res" where
  "userinit dv initcode s =
     bindr (allocproc s) (\<lambda>(p, s).
       case p of
         None \<Rightarrow> Fail (Fault ''userinit: null pointer'')
       | Some i \<Rightarrow>
           (let s = upd_pt (\<lambda>t. t\<lparr>initproc := i\<rparr>) s
            in bindr (setupkvm (kdata s) (kpool s)) (\<lambda>(pgdir, k).
                 if pgdir = 0 then Fail (Panic ''userinit: out of memory?'')
                 else
                   bindr (inituvm pgdir initcode k) (\<lambda>k.
                   bindr (namei dv [slash] (s\<lparr>kpool := k\<rparr>)) (\<lambda>(root, s).
                     let s = upd_pt (upd_prc i (\<lambda>p. p\<lparr>p_pgdir := pgdir, p_sz := PGSIZE, p_tf := init_tf,
                                p_name := set_name (cbytes ''initcode'') (p_name p), p_cwd := root\<rparr>)) s
                     in bindr (ptable_acquire s) (\<lambda>s.
                          ptable_release (upd_pt (upd_prc i (\<lambda>p. p\<lparr>p_state := RUNNABLE\<rparr>)) s)))))))"

text \<open>The call of \<open>updatem\<close> in \<open>allocuvm\<close>, if it is reached.\<close>

definition updated :: "u32 option \<Rightarrow> 'a sys_state_scheme \<Rightarrow> 'a sys_state_scheme" where
  "updated z s = (case z of None \<Rightarrow> s | Some z \<Rightarrow> updatem z s)"

text \<open>The result is 0 or -1; \<open>n\<close> is the signed argument.\<close>

definition growproc :: "int \<Rightarrow> 'a proc_state_scheme \<Rightarrow> (int \<times> 'a proc_state_scheme) res" where
  "growproc n s =
     (let sz = psz s; newsz = sz + of_int n; pgdir = p_pgdir (cur s);
          finish = (\<lambda>sz s. bindr (switchuvm (curproc s) (s\<lparr>psz := sz\<rparr>)) (\<lambda>s. Ok (0, s)))
      in if 0 < n then
           bindr (allocuvm (kend s) pgdir sz newsz (kpool s)) (\<lambda>(r, z, k).
             let s = updated z (s\<lparr>kpool := k\<rparr>)
             in if r = 0 then Ok (- 1, s) else finish r s)
         else if n < 0 then
           bindr (deallocuvm (kend s) pgdir sz newsz (kpool s)) (\<lambda>(r, k).
             let s = s\<lparr>kpool := k\<rparr>
             in if r = 0 then Ok (- 1, s) else finish r s)
         else finish sz s)"

text \<open>\<open>fork\<close> takes a reference for every open file.\<close>

primrec dup_files :: "nat option list \<Rightarrow> 'a proc_state_scheme \<Rightarrow> 'a proc_state_scheme res" where
  "dup_files [] s = Ok s"
| "dup_files (f # fs) s =
     (case f of None \<Rightarrow> dup_files fs s | Some f \<Rightarrow> bindr (filedup f s) (\<lambda>s. dup_files fs s))"

definition copy_proc :: "u32 \<Rightarrow> nat \<Rightarrow> 'a proc_state_scheme \<Rightarrow> proc \<Rightarrow> proc" where
  "copy_proc pgdir cwd' s p =
     p\<lparr>p_pgdir := pgdir, p_sz := psz s, p_tf := (p_tf (cur s))\<lparr>tf_eax := 0\<rparr>,
       p_ofile := map2 (\<lambda>new old. if new = None then old else new) (ofile s) (p_ofile p),
       p_cwd := Some cwd', p_name := set_name (takeWhile (\<lambda>c. c \<noteq> 0) (p_name (cur s))) (p_name p)\<rparr>"

definition fork :: "'a proc_state_scheme \<Rightarrow> (int \<times> 'a proc_state_scheme) res" where
  "fork s =
     bindr (allocproc s) (\<lambda>(np, s).
       case np of
         None \<Rightarrow> Ok (- 1, s)
       | Some i \<Rightarrow>
           bindr (copyuvm (kdata s) (kend s) (p_pgdir (cur s)) (psz s) (kpool s)) (\<lambda>(pgdir, k).
             let s = s\<lparr>kpool := k\<rparr>
             in if pgdir = 0 then
                  bindr (kfree (kend s) (p_kstack (prc i (pt s))) (kpool s)) (\<lambda>k.
                    Ok (- 1, upd_pt (\<lambda>t. abort_slot i (upd_prc i (\<lambda>p. p\<lparr>p_pgdir := 0\<rparr>) t)) (s\<lparr>kpool := k\<rparr>)))
                else
                  bindr (dup_files (ofile s) s) (\<lambda>s.
                    let (cwd', s) = idup (cwd s) s
                    in bindr (ptable_acquire s) (\<lambda>s.
                         let s = upd_pt (fork_table (me s) i (copy_proc pgdir cwd' s)) s
                         in bindr (ptable_release s) (\<lambda>s. Ok (p_pid (prc i (pt s)), s))))))"

section \<open>Exit\<close>

primrec close_files :: "nat \<Rightarrow> 'a proc_state_scheme \<Rightarrow> 'a proc_state_scheme res" where
  \<comment> \<open>the last \<open>n\<close> of the \<open>NOFILE\<close> descriptors\<close>
  "close_files 0 s = Ok s"
| "close_files (Suc n) s =
     (let fd = NOFILE - Suc n
      in case ofile s ! fd of
           None \<Rightarrow> close_files n s
         | Some f \<Rightarrow> bindr (fileclose f s) (\<lambda>s. close_files n (s\<lparr>ofile := (ofile s)[fd := None]\<rparr>)))"

text \<open>\<open>exit\<close> up to the switch to the scheduler.\<close>

definition exit :: "'a proc_state_scheme \<Rightarrow> (bool \<times> 'a proc_state_scheme) res" where
  "exit s =
     (if curproc s = Some (initproc (pt s)) then Fail (Panic ''init exiting'')
      else
        bindr (close_files NOFILE s) (\<lambda>s.
        bindr (begin_op s) (\<lambda>s.
        bindr (iput (cwd s) s) (\<lambda>s.
        bindr (end_op s) (\<lambda>s.
        let s = upd_pt (upd_prc (me s) (\<lambda>p. p\<lparr>p_cwd := None\<rparr>)) s
        in bindr (ptable_acquire s) (\<lambda>s.
             sched (upd_pt (exit_table (me s)) s)))))))"

section \<open>Sleeping, waking and waiting\<close>

datatype sleep_lock = LkNull | LkPtable | LkOther spinlock

text \<open>\<open>sleep\<close>: the part in front of \<open>swtch\<close>, and the part behind it.\<close>

definition sleep_enter :: "chan \<Rightarrow> sleep_lock \<Rightarrow> 'a proc_state_scheme \<Rightarrow> (bool \<times> sleep_lock \<times> 'a proc_state_scheme) res" where
  "sleep_enter ch lk s =
     (if curproc s = None then Fail (Panic ''sleep'')
      else if lk = LkNull then Fail (Panic ''sleep without lk'')
      else
        bindr (case lk of
                 LkOther l \<Rightarrow>
                   bindr (ptable_acquire s) (\<lambda>s.
                   bindr (release 0 l (mycpu s)) (\<lambda>(l, c). Ok (LkOther l, s\<lparr>mycpu := c\<rparr>)))
               | _ \<Rightarrow> Ok (lk, s)) (\<lambda>(lk, s).
          bindr (sched (upd_pt (sleep_table (me s) ch) s)) (\<lambda>(saved, s). Ok (saved, lk, s))))"

definition sleep_return :: "bool \<Rightarrow> sleep_lock \<Rightarrow> 'a proc_state_scheme \<Rightarrow> (sleep_lock \<times> 'a proc_state_scheme) res" where
  "sleep_return saved lk s =
     (let s = sched_return saved s;
          s = upd_pt (upd_prc (me s) (\<lambda>p. p\<lparr>p_chan := ChNull\<rparr>)) s
      in case lk of
           LkOther l \<Rightarrow>
             bindr (ptable_release s) (\<lambda>s.
             bindr (acquire 0 (callpcs s) l (mycpu s)) (\<lambda>(l, c). Ok (LkOther l, s\<lparr>mycpu := c\<rparr>)))
         | _ \<Rightarrow> Ok (lk, s))"

text \<open>
  One turn of the loop of \<open>wait\<close>, with \<open>ptable.lock\<close> held: it returns a value, or goes to sleep
  (\<open>WSleep\<close>, with the saved \<open>intena\<close>); after \<open>sleep_return\<close> the next turn begins.
\<close>

datatype wait_turn = WRet int | WSleep bool

definition wait_body :: "'a proc_state_scheme \<Rightarrow> (wait_turn \<times> 'a proc_state_scheme) res" where
  "wait_body s =
     (case wait_scan (procs (pt s)) 0 (me s) False of
        (Some i, havekids) \<Rightarrow>
          (let p = prc i (pt s)
           in bindr (kfree (kend s) (p_kstack p) (kpool s)) (\<lambda>k.
              bindr (freevm (kend s) (p_pgdir p) k) (\<lambda>k.
              bindr (ptable_release (upd_pt (reap i) (s\<lparr>kpool := k\<rparr>))) (\<lambda>s.
              Ok (WRet (p_pid p), s)))))
      | (None, havekids) \<Rightarrow>
          if \<not> havekids \<or> pkilled s then bindr (ptable_release s) (\<lambda>s. Ok (WRet (- 1), s))
          else bindr (sleep_enter (ChProc (me s)) LkPtable s) (\<lambda>(saved, lk, s). Ok (WSleep saved, s)))"

definition wait :: "'a proc_state_scheme \<Rightarrow> (wait_turn \<times> 'a proc_state_scheme) res" where
  "wait s = bindr (ptable_acquire s) wait_body"

definition wait_resume :: "bool \<Rightarrow> 'a proc_state_scheme \<Rightarrow> (wait_turn \<times> 'a proc_state_scheme) res" where
  "wait_resume saved s = bindr (sleep_return saved LkPtable s) (\<lambda>(lk, s). wait_body s)"

definition wakeup :: "chan \<Rightarrow> 'a proc_state_scheme \<Rightarrow> 'a proc_state_scheme res" where
  "wakeup ch s = bindr (ptable_acquire s) (\<lambda>s. ptable_release (upd_pt (wakeup1 ch) s))"

definition kill :: "int \<Rightarrow> 'a proc_state_scheme \<Rightarrow> (int \<times> 'a proc_state_scheme) res" where
  "kill pid s =
     bindr (ptable_acquire s) (\<lambda>s.
       case kill_table pid (pt s) of
         None \<Rightarrow> bindr (ptable_release s) (\<lambda>s. Ok (- 1, s))
       | Some t \<Rightarrow>
           bindr (ptable_release (s\<lparr>pt := t, pkilled := pkilled s \<or> (case curproc s of None \<Rightarrow> False | Some i \<Rightarrow> p_killed (prc i t))\<rparr>)) (\<lambda>s. Ok (0, s)))"

section \<open>The scheduler\<close>

definition yield_enter :: "'a proc_state_scheme \<Rightarrow> (bool \<times> 'a proc_state_scheme) res" where
  "yield_enter s = bindr (ptable_acquire s) (\<lambda>s. sched (upd_pt (yield_table (me s)) s))"

definition yield_return :: "bool \<Rightarrow> 'a proc_state_scheme \<Rightarrow> 'a proc_state_scheme res" where
  "yield_return saved s = ptable_release (sched_return saved s)"

text \<open>
  Storing the fields of the process that leaves the processor in its entry, and loading
  those of the one that enters it.
\<close>

definition save_proc :: "'a proc_state_scheme \<Rightarrow> 'a proc_state_scheme" where
  "save_proc s =
     upd_pt (upd_prc (me s) (\<lambda>p. p\<lparr>p_sz := psz s, p_ofile := ofile s, p_killed := pkilled s,
       p_cwd := (if p_state p = ZOMBIE then None else Some (cwd s))\<rparr>)) s"

definition load_proc :: "nat \<Rightarrow> 'a proc_state_scheme \<Rightarrow> 'a proc_state_scheme" where
  "load_proc i s =
     (let p = prc i (pt s)
      in s\<lparr>curproc := Some i, psz := p_sz p, ofile := p_ofile p, pkilled := p_killed p, tf_esp := tf_esp' (p_tf p),
           cwd := (case p_cwd p of None \<Rightarrow> cwd s | Some c \<Rightarrow> c)\<rparr>)"

text \<open>
  One turn of the scheduler's inner loop from entry \<open>i\<close>: run the next process that can run,
  or finish the pass and release the lock.
\<close>

definition scheduler_turn :: "nat \<Rightarrow> 'a proc_state_scheme \<Rightarrow> (nat option \<times> 'a proc_state_scheme) res" where
  "scheduler_turn i s =
     (case runnable_scan (drop i (procs (pt s))) i of
        None \<Rightarrow> bindr (ptable_release s) (\<lambda>s. Ok (None, s))
      | Some j \<Rightarrow>
          bindr (switchuvm (Some j) (load_proc j s)) (\<lambda>s. Ok (Some j, upd_pt (dispatch j) s)))"

text \<open>Back from \<open>swtch\<close>: the kernel's page table, and no current process.\<close>

definition scheduler_back :: "u32 \<Rightarrow> 'a proc_state_scheme \<Rightarrow> 'a proc_state_scheme" where
  "scheduler_back kpgdir s = (switchkvm kpgdir (save_proc s))\<lparr>curproc := None\<rparr>"

definition scheduler_enter :: "'a proc_state_scheme \<Rightarrow> 'a proc_state_scheme res" where
  "scheduler_enter s = ptable_acquire (s\<lparr>mycpu := (mycpu s)\<lparr>eflags_if := True\<rparr>\<rparr>)"

definition forkret :: "'a proc_state_scheme \<Rightarrow> 'a proc_state_scheme res" where
  "forkret s =
     bindr (ptable_release s) (\<lambda>s.
       if first_run s then
         bindr (iinit ROOTDEV (s\<lparr>first_run := False\<rparr>)) (\<lambda>s. initlog ROOTDEV s)
       else Ok s)"

end
