(* ===== verification/Xv6_Exec.thy ===== *)
theory Xv6_Exec
  imports Xv6_Proc
begin

text \<open>
  \<^verbatim>\<open>exec.c\<close>: loading a program, with \<open>loaduvm\<close> of \<^verbatim>\<open>vm.c\<close>, the ELF headers of \<^verbatim>\<open>elf.h\<close> and the
  system call \<open>sys_exec\<close>.  The path and the arguments are the bytes of the strings, without
  the NUL.
\<close>

definition ELF_MAGIC :: u32 where "ELF_MAGIC = 0x464C457F"
definition ELF_PROG_LOAD :: u32 where "ELF_PROG_LOAD = 1"
definition MAXARG :: nat where "MAXARG = 32"

record elfhdr =
  e_magic :: u32
  e_entry :: u32
  e_phoff :: u32
  e_phnum :: u16

definition elfhdr_get :: "u8 list \<Rightarrow> elfhdr" where
  "elfhdr_get bs = \<lparr>e_magic = get32 0 bs, e_entry = get32 24 bs, e_phoff = get32 28 bs, e_phnum = get16 44 bs\<rparr>"

record proghdr =
  ph_type :: u32
  ph_off :: u32
  ph_vaddr :: u32
  ph_filesz :: u32
  ph_memsz :: u32

definition proghdr_get :: "u8 list \<Rightarrow> proghdr" where
  "proghdr_get bs = \<lparr>ph_type = get32 0 bs, ph_off = get32 4 bs, ph_vaddr = get32 8 bs, ph_filesz = get32 16 bs,
     ph_memsz = get32 20 bs\<rparr>"

text \<open>The loop of \<open>loaduvm\<close> from byte \<open>i\<close>; \<open>exec\<close> calls it with sizes below \<open>KERNBASE\<close>, so \<open>i\<close> does not wrap.\<close>

function loaduvm_loop :: "'a proc_state_scheme devsw \<Rightarrow> u32 \<Rightarrow> u32 \<Rightarrow> nat \<Rightarrow> u32 \<Rightarrow> u32 \<Rightarrow> nat \<Rightarrow> 'a proc_state_scheme \<Rightarrow>
    (bool \<times> 'a proc_state_scheme) res" where
  "loaduvm_loop dv pgdir addr ip offset sz i s =
     (if unat sz \<le> i then Ok (True, s)
      else
        (let pte = fst (walkpgdir pgdir (addr + of_nat i) False (kpool s))
         in if pte = 0 then Fail (Panic ''loaduvm: address should exist'')
            else
              (let pa = PTE_ADDR (kload pte (kpool s));
                   n = (if sz - of_nat i < PGSIZE then sz - of_nat i else PGSIZE)
               in bindr (readi dv ip (offset + of_nat i) n s) (\<lambda>(r, bytes, s).
                    let s = s\<lparr>kpool := kcopy_in (P2V pa) bytes (kpool s)\<rparr>
                    in if (of_int r :: u32) \<noteq> n then Ok (False, s)
                       else loaduvm_loop dv pgdir addr ip offset sz (i + 4096) s))))"
  by pat_completeness auto
termination
  by (relation "measure (\<lambda>(dv, pgdir, addr, ip, offset, sz, i, s). unat sz - i)") auto

declare loaduvm_loop.simps [simp del]

definition loaduvm :: "'a proc_state_scheme devsw \<Rightarrow> u32 \<Rightarrow> u32 \<Rightarrow> nat \<Rightarrow> u32 \<Rightarrow> u32 \<Rightarrow> 'a proc_state_scheme \<Rightarrow>
    (bool \<times> 'a proc_state_scheme) res" where
  "loaduvm dv pgdir addr ip offset sz s =
     (if addr mod PGSIZE \<noteq> 0 then Fail (Panic ''loaduvm: addr must be page aligned'')
      else loaduvm_loop dv pgdir addr ip offset sz 0 s)"

text \<open>The loop over the program headers; \<open>None\<close> is the jump to \<open>bad\<close>.\<close>

primrec exec_load :: "nat \<Rightarrow> 'a proc_state_scheme devsw \<Rightarrow> u32 \<Rightarrow> nat \<Rightarrow> u32 \<Rightarrow> u32 \<Rightarrow> 'a proc_state_scheme \<Rightarrow>
    (u32 option \<times> 'a proc_state_scheme) res" where
  "exec_load 0 dv pgdir ip off sz s = Ok (Some sz, s)"
| "exec_load (Suc k) dv pgdir ip off sz s =
     bindr (readi dv ip off 32 s) (\<lambda>(r, bytes, s).
       if r \<noteq> 32 then Ok (None, s)
       else
         (let ph = proghdr_get bytes
          in if ph_type ph \<noteq> ELF_PROG_LOAD then exec_load k dv pgdir ip (off + 32) sz s
             else if ph_memsz ph < ph_filesz ph then Ok (None, s)
             else if ph_vaddr ph + ph_memsz ph < ph_vaddr ph then Ok (None, s)
             else
               bindr (allocuvm (kend s) pgdir sz (ph_vaddr ph + ph_memsz ph) (kpool s)) (\<lambda>(sz, z, k').
               let s = updated z (s\<lparr>kpool := k'\<rparr>)
               in if sz = 0 then Ok (None, s)
                  else if ph_vaddr ph mod PGSIZE \<noteq> 0 then Ok (None, s)
                  else
                    bindr (loaduvm dv pgdir (ph_vaddr ph) ip (ph_off ph) (ph_filesz ph) s) (\<lambda>(ok, s).
                    if \<not> ok then Ok (None, s)
                    else exec_load k dv pgdir ip (off + 32) sz s))))"

text \<open>Pushing the argument strings: the stack pointer and the addresses, or the jump to \<open>bad\<close>.\<close>

primrec push_args :: "u8 list list \<Rightarrow> nat \<Rightarrow> u32 \<Rightarrow> u32 \<Rightarrow> kmem \<Rightarrow> ((u32 \<times> u32 list) option \<times> kmem) res" where
  "push_args [] argc pgdir sp k = Ok (Some (sp, []), k)"
| "push_args (a # as) argc pgdir sp k =
     (if MAXARG \<le> argc then Ok (None, k)
      else
        (let sp = (sp - (of_nat (length a) + 1)) AND NOT 3
         in bindr (copyout pgdir sp (a @ [0]) k) (\<lambda>(ok, k).
              if \<not> ok then Ok (None, k)
              else bindr (push_args as (Suc argc) pgdir sp k) (\<lambda>(r, k).
                     Ok (map_option (\<lambda>(sp', ps). (sp', sp # ps)) r, k)))))"

text \<open>The stack frame of \<open>main\<close>: the return address, \<open>argc\<close>, \<open>argv\<close>, and the array it points to.\<close>

definition ustack :: "u32 list \<Rightarrow> u32 \<Rightarrow> u32 list" where
  "ustack ps sp =
     (let argc = of_nat (length ps) in [0xFFFFFFFF, argc, sp - (argc + 1) * 4] @ ps @ [0])"

definition last_elem :: "u8 list \<Rightarrow> u8 list" where
  "last_elem path = rev (takeWhile (\<lambda>c. c \<noteq> slash) (rev path))"

text \<open>The jump to \<open>bad\<close> while the inode is locked, and after it has been released.\<close>

definition exec_bad :: "u32 \<Rightarrow> nat option \<Rightarrow> 'a proc_state_scheme \<Rightarrow> (int \<times> 'a proc_state_scheme) res" where
  "exec_bad pgdir ip s =
     bindr (if pgdir = 0 then Ok s
            else bindr (freevm (kend s) pgdir (kpool s)) (\<lambda>k. Ok (s\<lparr>kpool := k\<rparr>))) (\<lambda>s.
     case ip of
       None \<Rightarrow> Ok (- 1, s)
     | Some ip \<Rightarrow> bindr (iunlockput ip s) (\<lambda>s. bindr (end_op s) (\<lambda>s. Ok (- 1, s))))"

definition exec_commit :: "u8 list \<Rightarrow> u32 \<Rightarrow> u32 \<Rightarrow> u32 \<Rightarrow> u32 \<Rightarrow> 'a proc_state_scheme \<Rightarrow> (int \<times> 'a proc_state_scheme) res" where
  "exec_commit path pgdir sz entry sp s =
     (let oldpgdir = p_pgdir (cur s);
          s = upd_pt (upd_prc (me s) (\<lambda>p. p\<lparr>p_name := set_name (last_elem path) (p_name p), p_pgdir := pgdir,
                p_sz := sz, p_tf := (p_tf p)\<lparr>tf_eip := entry, tf_esp' := sp\<rparr>\<rparr>)) (s\<lparr>psz := sz, tf_esp := sp\<rparr>)
      in bindr (switchuvm (curproc s) s) (\<lambda>s.
         bindr (freevm (kend s) oldpgdir (kpool s)) (\<lambda>k.
         Ok (0, s\<lparr>kpool := k\<rparr>))))"

definition exec_stack :: "u8 list \<Rightarrow> u8 list list \<Rightarrow> u32 \<Rightarrow> u32 \<Rightarrow> u32 \<Rightarrow> 'a proc_state_scheme \<Rightarrow> (int \<times> 'a proc_state_scheme) res" where
  "exec_stack path argv pgdir sz entry s =
     (let sz = PGROUNDUP sz
      in bindr (allocuvm (kend s) pgdir sz (sz + 2 * PGSIZE) (kpool s)) (\<lambda>(sz, z, k).
         let s = updated z (s\<lparr>kpool := k\<rparr>)
         in if sz = 0 then exec_bad pgdir None s
            else
              bindr (clearpteu pgdir (sz - 2 * PGSIZE) (kpool s)) (\<lambda>k.
              bindr (push_args argv 0 pgdir sz k) (\<lambda>(r, k).
              case r of
                None \<Rightarrow> exec_bad pgdir None (s\<lparr>kpool := k\<rparr>)
              | Some (sp, ps) \<Rightarrow>
                  (let us = ustack ps sp; sp = sp - 4 * of_nat (length us)
                   in bindr (copyout pgdir sp (words_bytes us) k) (\<lambda>(ok, k).
                        if \<not> ok then exec_bad pgdir None (s\<lparr>kpool := k\<rparr>)
                        else exec_commit path pgdir sz entry sp (s\<lparr>kpool := k\<rparr>)))))))"

definition exec :: "'a proc_state_scheme devsw \<Rightarrow> u8 list \<Rightarrow> u8 list list \<Rightarrow> 'a proc_state_scheme \<Rightarrow>
    (int \<times> 'a proc_state_scheme) res" where
  "exec dv path argv s =
     bindr (begin_op s) (\<lambda>s.
     bindr (namei dv path s) (\<lambda>(r, s).
     case r of
       None \<Rightarrow> bindr (end_op s) (\<lambda>s. Ok (- 1, s))
     | Some ip \<Rightarrow>
         bindr (ilock ip s) (\<lambda>s.
         bindr (readi dv ip 0 52 s) (\<lambda>(r, bytes, s).
         let elf = elfhdr_get bytes
         in if r \<noteq> 52 then exec_bad 0 (Some ip) s
            else if e_magic elf \<noteq> ELF_MAGIC then exec_bad 0 (Some ip) s
            else
              bindr (setupkvm (kdata s) (kpool s)) (\<lambda>(pgdir, k).
              let s = s\<lparr>kpool := k\<rparr>
              in if pgdir = 0 then exec_bad 0 (Some ip) s
                 else
                   bindr (exec_load (unat (e_phnum elf)) dv pgdir ip (e_phoff elf) 0 s) (\<lambda>(sz, s).
                   case sz of
                     None \<Rightarrow> exec_bad pgdir (Some ip) s
                   | Some sz \<Rightarrow>
                       bindr (iunlockput ip s) (\<lambda>s.
                       bindr (end_op s) (\<lambda>s.
                       exec_stack path argv pgdir sz (e_entry elf) s))))))))"

text \<open>Fetching the argument vector of \<open>sys_exec\<close>: at most \<open>MAXARG\<close> entries with the final null.\<close>

primrec fetch_argv :: "nat \<Rightarrow> u32 \<Rightarrow> 'a sys_state_scheme \<Rightarrow> u8 list list option" where
  "fetch_argv 0 p s = None"
| "fetch_argv (Suc k) p s =
     (case fetchint p s of
        None \<Rightarrow> None
      | Some uarg \<Rightarrow>
          if uarg = 0 then Some []
          else (case fetchstr uarg s of
                  None \<Rightarrow> None
                | Some a \<Rightarrow> map_option (Cons a) (fetch_argv k (p + 4) s)))"

definition sys_exec :: "'a proc_state_scheme devsw \<Rightarrow> 'a proc_state_scheme \<Rightarrow> (int \<times> 'a proc_state_scheme) res" where
  "sys_exec dv s =
     (case (argstr 0 s, argint 1 s) of
        (Some path, Some uargv) \<Rightarrow>
          (case fetch_argv MAXARG uargv s of
             None \<Rightarrow> Ok (- 1, s)
           | Some argv \<Rightarrow> exec dv path argv s)
      | _ \<Rightarrow> Ok (- 1, s))"

end
