(* ===== verification/Xv6_Syscall.thy ===== *)
theory Xv6_Syscall
  imports Xv6_Exec
begin

text \<open>
  The system calls on processes, \<^verbatim>\<open>sysproc.c\<close>, the dispatcher of \<^verbatim>\<open>syscall.c\<close> with its counter, and
  \<open>trap\<close> of \<^verbatim>\<open>trap.c\<close>.

  A system call ends in one of three ways: it returns a value, it leaves the processor in
  \<open>sleep\<close> and goes on later, or it leaves it for ever in \<open>exit\<close>.  The handlers of the device
  interrupts are arguments of \<open>trap\<close>.
\<close>

record sc_state = proc_state +
  sc_lock :: spinlock
  sc_init :: bool
  tickslock :: spinlock
  ticks_addr :: u32

datatype sys_out = Ret int | Sleeps bool | Gone bool

definition rets :: "(int \<times> 's) res \<Rightarrow> (sys_out \<times> 's) res" where
  "rets r = bindr r (\<lambda>(v, s). Ok (Ret v, s))"

section \<open>System calls on processes\<close>

definition sys_fork :: "'a sc_state_scheme \<Rightarrow> (sys_out \<times> 'a sc_state_scheme) res" where
  "sys_fork s = rets (fork s)"

definition sys_exit :: "'a sc_state_scheme \<Rightarrow> (sys_out \<times> 'a sc_state_scheme) res" where
  "sys_exit s = bindr (exit s) (\<lambda>(saved, s). Ok (Gone saved, s))"

definition sys_wait :: "'a sc_state_scheme \<Rightarrow> (sys_out \<times> 'a sc_state_scheme) res" where
  "sys_wait s =
     bindr (wait s) (\<lambda>(w, s). Ok (case w of WRet v \<Rightarrow> Ret v | WSleep saved \<Rightarrow> Sleeps saved, s))"

definition sys_kill :: "'a sc_state_scheme \<Rightarrow> (int \<times> 'a sc_state_scheme) res" where
  "sys_kill s = (case argint 0 s of None \<Rightarrow> Ok (- 1, s) | Some pid \<Rightarrow> kill (sint pid) s)"

definition sys_getpid :: "'a sc_state_scheme \<Rightarrow> (int \<times> 'a sc_state_scheme) res" where
  "sys_getpid s = Ok (p_pid (cur s), s)"

definition sys_sbrk :: "'a sc_state_scheme \<Rightarrow> (int \<times> 'a sc_state_scheme) res" where
  "sys_sbrk s =
     (case argint 0 s of
        None \<Rightarrow> Ok (- 1, s)
      | Some n \<Rightarrow>
          (let addr = psz s
           in bindr (growproc (sint n) s) (\<lambda>(r, s). Ok (if r < 0 then - 1 else sint addr, s))))"

definition ticks_acquire :: "'a sc_state_scheme \<Rightarrow> 'a sc_state_scheme res" where
  "ticks_acquire s =
     bindr (acquire 0 (callpcs s) (tickslock s) (mycpu s)) (\<lambda>(lk, c). Ok (s\<lparr>tickslock := lk, mycpu := c\<rparr>))"

definition ticks_release :: "'a sc_state_scheme \<Rightarrow> 'a sc_state_scheme res" where
  "ticks_release s =
     bindr (release 0 (tickslock s) (mycpu s)) (\<lambda>(lk, c). Ok (s\<lparr>tickslock := lk, mycpu := c\<rparr>))"

text \<open>The channel \<open>&ticks\<close>.\<close>

definition ticks_chan :: "'a sc_state_scheme \<Rightarrow> chan" where
  "ticks_chan s = ChAddr (ticks_addr s)"

text \<open>One turn of the loop of \<open>sys_sleep\<close>; the comparison is between unsigned numbers.\<close>

definition sys_sleep_turn :: "u32 \<Rightarrow> u32 \<Rightarrow> 'a sc_state_scheme \<Rightarrow> (sys_out \<times> 'a sc_state_scheme) res" where
  "sys_sleep_turn ticks0 n s =
     (if ticks s - ticks0 < n then
        if pkilled s then rets (bindr (ticks_release s) (\<lambda>s. Ok (- 1, s)))
        else
          bindr (sleep_enter (ticks_chan s) (LkOther (tickslock s)) s) (\<lambda>(saved, lk, s).
          Ok (Sleeps saved, case lk of LkOther l \<Rightarrow> s\<lparr>tickslock := l\<rparr> | _ \<Rightarrow> s))
      else rets (bindr (ticks_release s) (\<lambda>s. Ok (0, s))))"

definition sys_sleep :: "'a sc_state_scheme \<Rightarrow> (sys_out \<times> 'a sc_state_scheme) res" where
  "sys_sleep s =
     (case argint 0 s of
        None \<Rightarrow> Ok (Ret (- 1), s)
      | Some n \<Rightarrow> bindr (ticks_acquire s) (\<lambda>s. sys_sleep_turn (ticks s) n s))"

definition sys_sleep_resume :: "bool \<Rightarrow> u32 \<Rightarrow> u32 \<Rightarrow> 'a sc_state_scheme \<Rightarrow> (sys_out \<times> 'a sc_state_scheme) res" where
  "sys_sleep_resume saved ticks0 n s =
     bindr (sleep_return saved (LkOther (tickslock s)) s) (\<lambda>(lk, s).
     sys_sleep_turn ticks0 n (case lk of LkOther l \<Rightarrow> s\<lparr>tickslock := l\<rparr> | _ \<Rightarrow> s))"

definition sys_uptime :: "'a sc_state_scheme \<Rightarrow> (int \<times> 'a sc_state_scheme) res" where
  "sys_uptime s =
     bindr (ticks_acquire s) (\<lambda>s.
     let xticks = ticks s in bindr (ticks_release s) (\<lambda>s. Ok (sint xticks, s)))"

section \<open>The dispatcher\<close>

text \<open>The table \<open>syscalls\<close>; entry 0 is null.\<close>

definition syscalls :: "'a sc_state_scheme devsw \<Rightarrow> int \<Rightarrow> ('a sc_state_scheme \<Rightarrow> (sys_out \<times> 'a sc_state_scheme) res) option" where
  "syscalls dv num =
     (if num = 1 then Some sys_fork
      else if num = 2 then Some sys_exit
      else if num = 3 then Some sys_wait
      else if num = 4 then Some (\<lambda>s. rets (sys_pipe s))
      else if num = 5 then Some (\<lambda>s. rets (sys_read dv s))
      else if num = 6 then Some (\<lambda>s. rets (sys_kill s))
      else if num = 7 then Some (\<lambda>s. rets (sys_exec dv s))
      else if num = 8 then Some (\<lambda>s. rets (sys_fstat s))
      else if num = 9 then Some (\<lambda>s. rets (sys_chdir dv s))
      else if num = 10 then Some (\<lambda>s. rets (sys_dup s))
      else if num = 11 then Some (\<lambda>s. rets (sys_getpid s))
      else if num = 12 then Some (\<lambda>s. rets (sys_sbrk s))
      else if num = 13 then Some sys_sleep
      else if num = 14 then Some (\<lambda>s. rets (sys_uptime s))
      else if num = 15 then Some (\<lambda>s. rets (sys_open dv s))
      else if num = 16 then Some (\<lambda>s. rets (sys_write dv s))
      else if num = 17 then Some (\<lambda>s. rets (sys_mknod dv s))
      else if num = 18 then Some (\<lambda>s. rets (sys_unlink dv s))
      else if num = 19 then Some (\<lambda>s. rets (sys_link dv s))
      else if num = 20 then Some (\<lambda>s. rets (sys_mkdir dv s))
      else if num = 21 then Some (\<lambda>s. rets (sys_close s))
      else if num = 22 then Some (\<lambda>s. rets (getcount s))
      else if num = 23 then Some (\<lambda>s. rets (mkSmallFilesdir dv s))
      else None)"

definition getcountinit :: "'a sc_state_scheme \<Rightarrow> 'a sc_state_scheme" where
  "getcountinit s = s\<lparr>sc_lock := initlock ''getcount lock'' (sc_lock s), sc_init := True\<rparr>"

definition set_eax :: "int \<Rightarrow> 'a proc_state_scheme \<Rightarrow> 'a proc_state_scheme" where
  "set_eax v s = upd_pt (upd_prc (me s) (\<lambda>p. p\<lparr>p_tf := (p_tf p)\<lparr>tf_eax := of_int v\<rparr>\<rparr>)) s"

text \<open>The counting of the call, under its lock.\<close>

definition count_call :: "int \<Rightarrow> 'a sc_state_scheme \<Rightarrow> 'a sc_state_scheme res" where
  "count_call num s =
     bindr (acquire 0 (callpcs s) (sc_lock s) (mycpu s)) (\<lambda>(lk, c).
     bindr (updatecount num (s\<lparr>sc_lock := lk, mycpu := c\<rparr>)) (\<lambda>s.
     bindr (release 0 (sc_lock s) (mycpu s)) (\<lambda>(lk, c).
     Ok (s\<lparr>sc_lock := lk, mycpu := c\<rparr>))))"

definition syscall :: "'a sc_state_scheme devsw \<Rightarrow> 'a sc_state_scheme \<Rightarrow> (sys_out \<times> 'a sc_state_scheme) res" where
  "syscall dv s =
     (let s = (if sc_init s then s else getcountinit s);
          num = sint (tf_eax (p_tf (cur s)))
      in bindr (count_call num s) (\<lambda>s.
         case syscalls dv num of
           Some f \<Rightarrow>
             bindr (f s) (\<lambda>(out, s). Ok (out, case out of Ret v \<Rightarrow> set_eax v s | _ \<Rightarrow> s))
         | None \<Rightarrow> Ok (Ret (- 1), set_eax (- 1) s)))"

section \<open>Traps\<close>

definition T_SYSCALL :: u32 where "T_SYSCALL = 64"
definition T_IRQ0 :: u32 where "T_IRQ0 = 32"
definition IRQ_TIMER :: u32 where "IRQ_TIMER = 0"
definition IRQ_KBD :: u32 where "IRQ_KBD = 1"
definition IRQ_COM1 :: u32 where "IRQ_COM1 = 4"
definition IRQ_IDE :: u32 where "IRQ_IDE = 14"
definition IRQ_SPURIOUS :: u32 where "IRQ_SPURIOUS = 31"

definition trap_syscall :: "'a sc_state_scheme devsw \<Rightarrow> tframe \<Rightarrow> 'a sc_state_scheme \<Rightarrow> (sys_out \<times> 'a sc_state_scheme) res" where
  "trap_syscall dv tf s =
     (if pkilled s then sys_exit s
      else
        (let s = upd_pt (upd_prc (me s) (\<lambda>p. p\<lparr>p_tf := tf\<rparr>)) (s\<lparr>tf_esp := tf_esp' tf\<rparr>)
         in bindr (syscall dv s) (\<lambda>(out, s).
              case out of
                Ret v \<Rightarrow> if pkilled s then sys_exit s else Ok (out, s)
              | _ \<Rightarrow> Ok (out, s))))"

definition timer_tick :: "'a sc_state_scheme \<Rightarrow> 'a sc_state_scheme res" where
  "timer_tick s =
     bindr (ticks_acquire s) (\<lambda>s.
     bindr (wakeup (ticks_chan s) (s\<lparr>ticks := ticks s + 1\<rparr>)) ticks_release)"

text \<open>
  The handlers of the disk, the keyboard and the serial line, and the acknowledgement to the
  interrupt controller, which has no effect on the state, belong to the device drivers.
\<close>

record 's irq_handlers =
  ideintr :: "'s \<Rightarrow> 's res"
  kbdintr :: "'s \<Rightarrow> 's res"
  uartintr :: "'s \<Rightarrow> 's res"

definition trap_dispatch :: "'a sc_state_scheme irq_handlers \<Rightarrow> u32 \<Rightarrow> u32 \<Rightarrow> 'a sc_state_scheme \<Rightarrow> 'a sc_state_scheme res" where
  "trap_dispatch h trapno cs s =
     (if trapno = T_IRQ0 + IRQ_TIMER then timer_tick s
      else if trapno = T_IRQ0 + IRQ_IDE then ideintr h s
      else if trapno = T_IRQ0 + IRQ_IDE + 1 then Ok s
      else if trapno = T_IRQ0 + IRQ_KBD then kbdintr h s
      else if trapno = T_IRQ0 + IRQ_COM1 then uartintr h s
      else if trapno = T_IRQ0 + 7 \<or> trapno = T_IRQ0 + IRQ_SPURIOUS then Ok s
      else if curproc s = None \<or> cs AND 3 = 0 then Fail (Panic ''trap'')
      else Ok (s\<lparr>pkilled := True\<rparr>))"

definition must_exit :: "u32 \<Rightarrow> 'a sc_state_scheme \<Rightarrow> bool" where
  "must_exit cs s \<longleftrightarrow> curproc s \<noteq> None \<and> pkilled s \<and> cs AND 3 = 3"

text \<open>\<open>trap\<close>; when it yields it goes on with \<open>trap_resume\<close>.  \<open>Ret 0\<close> is the return to the trapped code.\<close>

definition trap_end :: "u32 \<Rightarrow> 'a sc_state_scheme \<Rightarrow> (sys_out \<times> 'a sc_state_scheme) res" where
  "trap_end cs s = (if must_exit cs s then sys_exit s else Ok (Ret 0, s))"

definition trap :: "'a sc_state_scheme devsw \<Rightarrow> 'a sc_state_scheme irq_handlers \<Rightarrow> u32 \<Rightarrow> tframe \<Rightarrow> 'a sc_state_scheme \<Rightarrow>
    (sys_out \<times> 'a sc_state_scheme) res" where
  "trap dv h trapno tf s =
     (if trapno = T_SYSCALL then trap_syscall dv tf s
      else
        bindr (trap_dispatch h trapno (tf_cs tf) s) (\<lambda>s.
          if must_exit (tf_cs tf) s then sys_exit s
          else if curproc s \<noteq> None \<and> p_state (cur s) = RUNNING \<and> trapno = T_IRQ0 + IRQ_TIMER
          then bindr (yield_enter s) (\<lambda>(saved, s). Ok (Sleeps saved, s))
          else trap_end (tf_cs tf) s))"

definition trap_resume :: "bool \<Rightarrow> u32 \<Rightarrow> 'a sc_state_scheme \<Rightarrow> (sys_out \<times> 'a sc_state_scheme) res" where
  "trap_resume saved cs s = bindr (yield_return saved s) (trap_end cs)"

section \<open>Arguments in user memory\<close>

lemma sint_nonneg_small:
  fixes w :: u32
  assumes "0 \<le> sint w"
  shows "unat w < 2 ^ 31"
proof -
  have "\<not> bit (uint w) 31" using assms by (simp add: sint_uint signed_take_bit_nonnegative_iff)
  moreover define x where "x = uint w div 2 ^ 31"
  ultimately have "even x" by (simp add: bit_iff_odd)
  moreover have u: "0 \<le> uint w" "uint w < 2 ^ 32" using uint_lt2p [of w] by simp_all
  then have "x < 2" "0 \<le> x" by (auto simp: x_def pos_imp_zdiv_nonneg_iff)
  ultimately have "x = 0" by presburger
  then have "uint w < 2 ^ 31" using u(1) by (simp add: x_def zdiv_eq_0_iff) linarith
  then have "int (unat w) < int (2 ^ 31)" by (simp only: uint_nat of_nat_power of_nat_numeral)
  then show ?thesis by (simp only: of_nat_less_iff)
qed

lemma fetchint_in_bounds:
  assumes "fetchint a s = Some w" "psz s \<le> KERNBASE"
  shows "unat a + 4 \<le> unat (psz s)"
proof -
  have a: "a < psz s" "a + 4 \<le> psz s" using assms(1) by (auto simp: fetchint_def split: if_splits)
  have "unat a + 4 < 2 ^ 32" using a(1) assms(2) by (simp add: word_less_nat_alt word_le_nat_alt KERNBASE_def)
  then have "unat (a + 4) = unat a + 4" using unat_add_no_wrap [of a 4] by simp
  then show ?thesis using a(2) by (simp add: word_le_nat_alt)
qed

lemma fetchstr_loop_some:
  assumes "fetchstr_loop k p m = Some cs"
  shows "length cs < k \<and> 0 \<notin> set cs \<and> m (p + of_nat (length cs)) = 0 \<and> (\<forall>i < length cs. cs ! i = m (p + of_nat i))"
  using assms
proof (induction k arbitrary: p cs)
  case (Suc k)
  show ?case
  proof (cases "m p = 0")
    case False
    then obtain ds where d: "fetchstr_loop k (p + 1) m = Some ds" "cs = m p # ds" using Suc.prems by auto
    have "(m p # ds) ! i = m (p + of_nat i)" if "i < Suc (length ds)" for i
      using Suc.IH [OF d(1)] that by (cases i) (auto simp: algebra_simps)
    then show ?thesis using Suc.IH [OF d(1)] d(2) False by (auto simp: algebra_simps)
  qed (use Suc.prems in auto)
qed simp

section \<open>The size of a process\<close>

lemma allocuvm_loop_size:
  "allocuvm_loop ke pgdir a oldsz newsz k = Ok (r, z, k') \<Longrightarrow> r = 0 \<or> r = newsz"
proof (induction ke pgdir a oldsz newsz k rule: allocuvm_loop.induct)
  case (1 ke pgdir a oldsz newsz k)
  note eq = allocuvm_loop.simps [of ke pgdir a oldsz newsz k]
  obtain m k1 where ka: "kalloc k = (m, k1)" by fastforce
  show ?case
  proof (cases "unat newsz \<le> a \<or> m = 0")
    case True
    then show ?thesis using 1(2) ka by (auto simp: eq bindr_eq_Ok split: if_splits)
  next
    case False
    then obtain ok k2 where m: "mappages pgdir (of_nat a) PGSIZE (V2P m) (PTE_W OR PTE_U) (kzero m k1) = Ok (ok, k2)"
      using 1(2) ka by (auto simp: eq bindr_eq_Ok)
    show ?thesis
    proof (cases ok)
      case True
      with m have "mappages pgdir (of_nat a) PGSIZE (V2P m) (PTE_W OR PTE_U) (kzero m k1) = Ok (True, k2)" by simp
      with 1(1) [OF _ refl ka [symmetric] _ this refl] 1(2) False ka show ?thesis by (simp add: eq)
    qed (use 1(2) m False ka in \<open>auto simp: eq bindr_eq_Ok\<close>)
  qed
qed

lemma allocuvm_size:
  assumes "allocuvm ke pgdir oldsz newsz k = Ok (r, z, k')" "oldsz < KERNBASE"
  shows "r < KERNBASE"
  using assms allocuvm_loop_size
  by (fastforce simp: allocuvm_def KERNBASE_def split: if_splits)

lemma deallocuvm_size:
  "deallocuvm ke pgdir oldsz newsz k = Ok (r, k') \<Longrightarrow> r \<le> oldsz"
  by (auto simp: deallocuvm_def bindr_eq_Ok split: if_splits)

lemma switchuvm_size: "switchuvm p s = Ok s' \<Longrightarrow> psz s' = psz s"
  by (auto simp: switchuvm_def Let_def bindr_eq_Ok split: option.splits if_splits)

lemma updated_size [simp]: "psz (updated z s) = psz s" "kpool (updated z s) = kpool s"
  by (simp_all add: updated_def updatem_def split: option.split)

lemma growproc_finish:
  assumes "bindr (switchuvm c (s\<lparr>psz := z\<rparr>)) (\<lambda>s. Ok (0 :: int, s)) = Ok (r, s')"
  shows "r = 0" "psz s' = z"
proof -
  obtain t where "switchuvm c (s\<lparr>psz := z\<rparr>) = Ok t" "r = 0" "s' = t" using assms by (auto simp: bindr_eq_Ok)
  then show "r = 0" "psz s' = z" using switchuvm_size by fastforce+
qed

section \<open>Sample state\<close>

definition free_lock :: spinlock where
  "free_lock = \<lparr>lk_name = [], lk_locked = False, lk_cpu = None, lk_pcs = replicate 10 0\<rparr>"

definition sample_sc :: sc_state where
  "sample_sc = \<lparr>cur_pid = 1, memdisk = (\<lambda>_. []), disksize = 0, dhist = [], bufs = [], log_start = 0, log_size = 0,
     log_outstanding = 0, log_committing = False, log_dev = 0, lh_n = 0, lh_block = [],
     sb = \<lparr>sb_size = 0, sb_nblocks = 0, sb_ninodes = 0, sb_nlog = 0, sb_logstart = 0, sb_inodestart = 0, sb_bmapstart = 0\<rparr>,
     icache = [], cwd = 0, ftable = [], pipes = (\<lambda>_. pipe_init []), kpool = \<lparr>use_lock = False, freelist = 0, kmem_mem = (\<lambda>_. 0)\<rparr>,
     kend = 0x80100000, ofile = replicate 16 None, pkilled = False, psz = 4096,
     umem = (\<lambda>a. if a = 4 then 100 else if a = 8 then 200 else if a = 200 then 97 else 0), tf_esp = 0,
     count_array = [], inits = False, numberz = 0,
     pt = upd_prc 0 (\<lambda>p. p\<lparr>p_kstack := 0x80200000, p_pgdir := 0x80201000\<rparr>) sample_t1, pt_lock = free_lock,
     mycpu = \<lparr>ncli = 0, intena = False, eflags_if = True\<rparr>, curproc = Some 0, callpcs = replicate 10 0, kdata = 0,
     trapret_addr = 0, forkret_addr = 0, cr3 = 0, ts_esp0 = 0, ticks = 0, first_run = False, sc_lock = free_lock,
     sc_init = True, tickslock = free_lock, ticks_addr = 0x80112000\<rparr>"

definition sample_call :: "u32 \<Rightarrow> sc_state" where
  "sample_call n = upd_pt (upd_prc 0 (\<lambda>p. p\<lparr>p_tf := (p_tf p)\<lparr>tf_eax := n\<rparr>\<rparr>))
     (sample_sc\<lparr>inits := True, count_array := replicate 23 0\<rparr>)"

definition sample_dv :: "sc_state devsw" where
  "sample_dv = \<lparr>dev_read = (\<lambda>_. None), dev_write = (\<lambda>_. None)\<rparr>"

section \<open>Properties\<close>

text \<open>
  C17. What the kernel takes from a system call's arguments lies inside the process: with a
  process size of at most \<open>KERNBASE\<close> the checks cannot be passed by wrapping around, so a block
  accepted by \<open>argptr\<close>, a string accepted by \<open>argstr\<close> with its NUL, and the argument words
  themselves end below the size of the process, and the string is what the memory holds.
\<close>

theorem user_args_in_bounds:
  assumes "psz s \<le> KERNBASE" "argptr n sz s = Some p" "argstr m s = Some str" "argint m s = Some q"
  shows "unat p + unat sz \<le> unat (psz s) \<and> unat (tf_esp s + 4 + 4 * of_nat n) + 4 \<le> unat (psz s) \<and>
    unat q + length str < unat (psz s) \<and> 0 \<notin> set str \<and> umem s (q + of_nat (length str)) = 0 \<and>
    (\<forall>i < length str. str ! i = umem s (q + of_nat i))"
proof -
  obtain w where w: "argint n s = Some w" "w = p" "\<not> sint sz < 0" "p < psz s" "p + sz \<le> psz s"
    using assms(2) by (auto simp: argptr_def split: option.splits if_splits)
  have "unat sz < 2 ^ 31"
    by (rule sint_nonneg_small) (use w(3) in simp)
  then have "unat p + unat sz < 2 ^ 32"
    using w(4) assms(1) by (simp add: word_less_nat_alt word_le_nat_alt KERNBASE_def)
  then have 1: "unat p + unat sz \<le> unat (psz s)"
    using unat_add_no_wrap [of p sz] w(5) by (simp add: word_le_nat_alt)
  have 2: "unat (tf_esp s + 4 + 4 * of_nat n) + 4 \<le> unat (psz s)"
    using fetchint_in_bounds [OF _ assms(1)] w(1) by (simp add: argint_def)
  have f: "fetchstr_loop (unat (psz s) - unat q) q (umem s) = Some str" "q < psz s"
    using assms(3,4) by (auto simp: argstr_def fetchstr_def split: if_splits)
  show ?thesis using 1 2 fetchstr_loop_some [OF f(1)] f(2) by (auto simp: word_less_nat_alt)
qed

theorem user_args_in_bounds_witness:
  "argptr 0 16 sample_sc = Some 100 \<and> argstr 1 sample_sc = Some [97] \<and> unat (100 :: u32) + 16 \<le> unat (psz sample_sc)"
proof -
  have "psz sample_sc \<le> KERNBASE" "argptr 0 16 sample_sc = Some 100" "argstr 1 sample_sc = Some [97]"
    "argint 1 sample_sc = Some 200"
    by code_simp+
  then show ?thesis using user_args_in_bounds [of sample_sc 0 16 100 1 "[97]" 200] by simp
qed

text \<open>
  C24. The size of a process stays a user address: whatever \<open>growproc\<close> is asked for, growing past
  the kernel, shrinking below zero or wrapping around, the size stays below \<open>KERNBASE\<close>, and a
  call that fails leaves it as it was.
\<close>

theorem growproc_size_ok:
  assumes "psz s < KERNBASE" "growproc n s = Ok (r, s')"
  shows "psz s' < KERNBASE \<and> (r = 0 \<or> r = - 1 \<and> psz s' = psz s)"
proof -
  consider (1) "0 < n" | (2) "n < 0" | (3) "n = 0" by linarith
  then show ?thesis
  proof cases
    case 1
    obtain a z k where al: "allocuvm (kend s) (p_pgdir (cur s)) (psz s) (psz s + of_int n) (kpool s) = Ok (a, z, k)"
      using assms(2) 1 by (auto simp: growproc_def Let_def bindr_eq_Ok)
    show ?thesis
    proof (cases "a = 0")
      case True
      then show ?thesis using assms 1 al by (auto simp: growproc_def Let_def)
    next
      case False
      define u where "u = updated z (s\<lparr>kpool := k\<rparr>)"
      have "bindr (switchuvm (curproc u) (u\<lparr>psz := a\<rparr>)) (\<lambda>s. Ok (0 :: int, s)) = Ok (r, s')"
        using assms(2) 1 al False by (simp add: growproc_def Let_def u_def)
      from growproc_finish [OF this] show ?thesis using allocuvm_size [OF al assms(1)] by simp
    qed
  next
    case 2
    obtain a k where de: "deallocuvm (kend s) (p_pgdir (cur s)) (psz s) (psz s + of_int n) (kpool s) = Ok (a, k)"
      using assms(2) 2 by (auto simp: growproc_def Let_def bindr_eq_Ok)
    show ?thesis
    proof (cases "a = 0")
      case True
      then show ?thesis using assms 2 de by (auto simp: growproc_def Let_def)
    next
      case False
      define u where "u = s\<lparr>kpool := k\<rparr>"
      have "bindr (switchuvm (curproc u) (u\<lparr>psz := a\<rparr>)) (\<lambda>s. Ok (0 :: int, s)) = Ok (r, s')"
        using assms(2) 2 de False by (simp add: growproc_def Let_def u_def)
      from growproc_finish [OF this] show ?thesis using deallocuvm_size [OF de] assms(1) by simp
    qed
  next
    case 3
    then have "bindr (switchuvm (curproc s) (s\<lparr>psz := psz s\<rparr>)) (\<lambda>s. Ok (0 :: int, s)) = Ok (r, s')"
      using assms(2) by (simp add: growproc_def Let_def)
    from growproc_finish [OF this] show ?thesis using assms(1) by simp
  qed
qed

theorem growproc_size_ok_witness:
  "\<exists>s'. growproc 0 sample_sc = Ok (0, s') \<and> psz s' < KERNBASE"
proof -
  have "psz sample_sc < KERNBASE" by code_simp
  moreover have "(case growproc 0 sample_sc of Ok (r, s') \<Rightarrow> r = 0 | _ \<Rightarrow> False)" by code_simp
  then obtain s' where "growproc 0 sample_sc = Ok (0, s')" by (auto split: res.splits prod.splits)
  ultimately show ?thesis using growproc_size_ok [of sample_sc 0 0 s'] by blast
qed

text \<open>
  C26. The dispatcher counts every call before it checks the number.  For the numbers 0 to 22
  it adds one to the counter of the call and changes no other counter.  For every other
  number the increment is outside \<open>count_array\<close>, and that includes 23, \<open>mkSmallFilesdir\<close>, for
  which the table has a handler, so no call of it gets there.
\<close>

theorem syscall_count:
  assumes "sc_init s" "\<not> lk_locked (sc_lock s)" "0 \<le> ncli (mycpu s)" "inits s" "length (count_array s) = NCOUNT"
    "num = sint (tf_eax (p_tf (cur s)))"
  shows "if 0 \<le> num \<and> num < 23
    then \<exists>s'. count_call num s = Ok s' \<and> count_array s' = (count_array s)[nat num := count_array s ! nat num + 1]
    else syscall dv s = Fail (Fault ''count_array'') \<and> syscalls dv 23 \<noteq> None"
proof -
  define c where "c = pushcli (mycpu s)"
  define lk where "lk = acquire_record 0 (callpcs s) ((sc_lock s)\<lparr>lk_locked := True\<rparr>)"
  have a: "acquire 0 (callpcs s) (sc_lock s) (mycpu s) = Ok (lk, c)"
    using assms(2) by (simp add: acquire_def acquire_enter_def holding_def xchg_def c_def lk_def)
  have c: "\<not> eflags_if c" "1 \<le> ncli c" using assms(3) by (auto simp: c_def pushcli_def Let_def)
  show ?thesis
  proof (cases "0 \<le> num \<and> num < 23")
    case True
    define u where "u = s\<lparr>sc_lock := lk, mycpu := c, inits := True,
      count_array := (count_array s)[nat num := count_array s ! nat num + 1]\<rparr>"
    have u: "updatecount num (s\<lparr>sc_lock := lk, mycpu := c\<rparr>) = Ok u"
      using True assms(4,5) by (simp add: updatecount_def NCOUNT_def u_def)
    have "\<exists>lk' c'. release 0 lk c = Ok (lk', c')"
      using c by (auto simp: release_def release_clear_def holding_def lk_def acquire_record_def popcli_def Let_def)
    then obtain lk' c' where "release 0 (sc_lock u) (mycpu u) = Ok (lk', c')" by (auto simp: u_def)
    then have "count_call num s = Ok (u\<lparr>sc_lock := lk', mycpu := c'\<rparr>)"
      using a u by (simp add: count_call_def)
    then show ?thesis using True by (simp add: u_def)
  next
    case False
    then have "updatecount num (s\<lparr>sc_lock := lk, mycpu := c\<rparr>) = Fail (Fault ''count_array'')"
      using assms(4,5) by (auto simp: updatecount_def NCOUNT_def)
    then have "count_call num s = Fail (Fault ''count_array'')" using a by (simp add: count_call_def)
    then have "syscall dv s = Fail (Fault ''count_array'')" using assms(1,6) by (simp add: syscall_def)
    then show ?thesis using False by (auto simp: syscalls_def)
  qed
qed

theorem syscall_count_witness:
  "syscall sample_dv (sample_call 23) = Fail (Fault ''count_array'') \<and>
   (\<exists>s'. count_call 5 (sample_call 5) = Ok s' \<and> count_array s' ! 5 = 1)"
proof -
  have h: "sc_init (sample_call n)" "\<not> lk_locked (sc_lock (sample_call n))" "0 \<le> ncli (mycpu (sample_call n))"
    "inits (sample_call n)" "count_array (sample_call n) = replicate 23 0" for n
    by (simp_all add: sample_call_def sample_sc_def upd_pt_def free_lock_def)
  have "23 = sint (tf_eax (p_tf (cur (sample_call 23))))" "5 = sint (tf_eax (p_tf (cur (sample_call 5))))"
    by code_simp+
  then show ?thesis
    using syscall_count [of "sample_call 23" 23 sample_dv] syscall_count [of "sample_call 5" 5 sample_dv] h by (auto simp: NCOUNT_def)
qed

end
