(* ===== verification/Xv6_Console.thy ===== *)
theory Xv6_Console
  imports Xv6_Syscall
begin

text \<open>
  The console: the line discipline, the screen and the formatted output of \<^verbatim>\<open>console.c\<close>, the
  keyboard decoder of \<^verbatim>\<open>kbd.c\<close> and the serial line of \<^verbatim>\<open>uart.c\<close>.

  The screen memory is a function from cells to 16-bit values and the cursor register a
  number; the bytes sent to the serial port are recorded in order.  The bytes that the
  keyboard and the serial port deliver are arguments.
\<close>

definition INPUT_BUF :: u32 where "INPUT_BUF = 128"
definition BACKSPACE :: int where "BACKSPACE = 0x100"

record con_state = sc_state +
  cons_lock :: spinlock
  cons_locking :: bool
  panicked :: bool
  crt :: "nat \<Rightarrow> u16"
  crt_pos :: int
  uart :: bool
  uart_out :: "u8 list"
  in_buf :: "u8 list"
  in_r :: u32
  in_w :: u32
  in_e :: u32
  in_addr :: u32
  kbd_shift :: u8

section \<open>Output\<close>

definition uartputc :: "int \<Rightarrow> 'a con_state_scheme \<Rightarrow> 'a con_state_scheme" where
  "uartputc c s = (if uart s then s\<lparr>uart_out := uart_out s @ [of_int c]\<rparr> else s)"

definition scroll_up :: "(nat \<Rightarrow> u16) \<Rightarrow> nat \<Rightarrow> nat \<Rightarrow> u16" where
  \<comment> \<open>lines 1 to 23 move up by one, then the cells from \<open>pos\<close> to the end of line 23 are cleared\<close>
  "scroll_up m pos = (\<lambda>x. if pos \<le> x \<and> x < 24 * 80 then 0 else if x < 23 * 80 then m (x + 80) else m x)"

definition cga_cell :: "int \<Rightarrow> int \<Rightarrow> (nat \<Rightarrow> u16) \<Rightarrow> int \<times> (nat \<Rightarrow> u16)" where
  "cga_cell c pos m =
     (if c = 10 then (pos + (80 - pos mod 80), m)
      else if c = BACKSPACE then (if pos > 0 then pos - 1 else pos, m)
      else (pos + 1, m(nat pos := (of_int c AND 0xFF) OR 0x0700)))"

definition cga_scroll :: "int \<Rightarrow> (nat \<Rightarrow> u16) \<Rightarrow> int \<times> (nat \<Rightarrow> u16)" where
  "cga_scroll pos m = (if pos div 80 \<ge> 24 then (pos - 80, scroll_up m (nat (pos - 80))) else (pos, m))"

definition cgaputc :: "int \<Rightarrow> 'a con_state_scheme \<Rightarrow> 'a con_state_scheme res" where
  "cgaputc c s =
     (let (pos, m) = cga_cell c (crt_pos s) (crt s)
      in if pos < 0 \<or> pos > 25 * 80 then Fail (Panic ''pos under/overflow'')
         else let (pos, m) = cga_scroll pos m
              in Ok (s\<lparr>crt_pos := pos, crt := m(nat pos := 0x20 OR 0x0700)\<rparr>))"

definition consputc :: "int \<Rightarrow> 'a con_state_scheme \<Rightarrow> 'a con_state_scheme res" where
  "consputc c s =
     (if panicked s then Fail (Blocked ''panicked'')
      else
        (let s = (if c = BACKSPACE then uartputc 8 (uartputc 32 (uartputc 8 s)) else uartputc c s)
         in cgaputc c s))"

primrec consputs :: "int list \<Rightarrow> 'a con_state_scheme \<Rightarrow> 'a con_state_scheme res" where
  "consputs [] s = Ok s"
| "consputs (c # cs) s = bindr (consputc c s) (consputs cs)"

section \<open>Formatted output\<close>

definition cdigit :: "u32 \<Rightarrow> int" where
  "cdigit d = (if d < 10 then 48 + uint d else 87 + uint d)"

function cdigits :: "u32 \<Rightarrow> u32 \<Rightarrow> int list" where
  \<comment> \<open>least significant digit first, as the loop fills the buffer\<close>
  "cdigits x b = cdigit (x mod b) # (if x div b = 0 \<or> b < 2 then [] else cdigits (x div b) b)"
  by pat_completeness auto
termination
proof (relation "measure (\<lambda>(x, b). unat x)")
  fix x b :: u32 assume a: "\<not> (x div b = 0 \<or> b < 2)"
  have "1 < unat b" using a by (simp add: word_less_nat_alt)
  moreover have "0 < unat x" using a by (cases "x = 0") (auto simp: unat_gt_0)
  ultimately show "((x div b, b), x, b) \<in> measure (\<lambda>(x, b). unat x)" by (simp add: unat_div)
qed simp

declare cdigits.simps [simp del]

definition cprintint :: "u32 \<Rightarrow> u32 \<Rightarrow> bool \<Rightarrow> int list" where
  "cprintint xx base sign =
     (let neg = sign \<and> sint xx < 0; x = (if neg then - xx else xx)
      in rev (cdigits x base @ (if neg then [45] else [])))"

text \<open>
  The arguments of \<open>cprintf\<close> are the words above the format on the stack, from index \<open>i\<close> on;
  \<open>strat\<close> gives the string that a pointer points to.  The base is 10 or 16.
\<close>

fun cprintf_out :: "(u32 \<Rightarrow> u8 list) \<Rightarrow> u8 list \<Rightarrow> (nat \<Rightarrow> u32) \<Rightarrow> nat \<Rightarrow> int list" where
  "cprintf_out strat [] argp i = []"
| "cprintf_out strat [c] argp i = (if c = 37 then [] else [uint c])"
| "cprintf_out strat (c # d # fmt) argp i =
     (if c \<noteq> 37 then uint c # cprintf_out strat (d # fmt) argp i
      else if d = 100 then cprintint (argp i) 10 True @ cprintf_out strat fmt argp (Suc i)
      else if d = 120 \<or> d = 112 then cprintint (argp i) 16 False @ cprintf_out strat fmt argp (Suc i)
      else if d = 115 then
        (if argp i = 0 then map (\<lambda>c. int (of_char c)) ''(null)'' else map sint (strat (argp i))) @
        cprintf_out strat fmt argp (Suc i)
      else if d = 37 then 37 # cprintf_out strat fmt argp i
      else 37 # uint d # cprintf_out strat fmt argp i)"

definition cons_acquire :: "'a con_state_scheme \<Rightarrow> 'a con_state_scheme res" where
  "cons_acquire s =
     bindr (acquire 0 (callpcs s) (cons_lock s) (mycpu s)) (\<lambda>(lk, c). Ok (s\<lparr>cons_lock := lk, mycpu := c\<rparr>))"

definition cons_release :: "'a con_state_scheme \<Rightarrow> 'a con_state_scheme res" where
  "cons_release s =
     bindr (release 0 (cons_lock s) (mycpu s)) (\<lambda>(lk, c). Ok (s\<lparr>cons_lock := lk, mycpu := c\<rparr>))"

definition cprintf :: "(u32 \<Rightarrow> u8 list) \<Rightarrow> u8 list option \<Rightarrow> (nat \<Rightarrow> u32) \<Rightarrow> 'a con_state_scheme \<Rightarrow> 'a con_state_scheme res" where
  "cprintf strat fmt argp s =
     (let locking = cons_locking s
      in bindr (if locking then cons_acquire s else Ok s) (\<lambda>s.
         case fmt of
           None \<Rightarrow> Fail (Panic ''null fmt'')
         | Some fmt \<Rightarrow>
             bindr (consputs (cprintf_out strat fmt argp 0) s) (\<lambda>s. if locking then cons_release s else Ok s)))"

definition consolewrite :: "nat \<Rightarrow> u8 list \<Rightarrow> 'a con_state_scheme \<Rightarrow> (int \<times> 'a con_state_scheme) res" where
  "consolewrite ip buf s =
     bindr (iunlock ip s) (\<lambda>s.
     bindr (cons_acquire s) (\<lambda>s.
     bindr (consputs (map uint buf) s) (\<lambda>s.
     bindr (cons_release s) (\<lambda>s.
     bindr (ilock ip s) (\<lambda>s. Ok (int (length buf), s))))))"

section \<open>Input\<close>

definition in_char :: "u32 \<Rightarrow> 'a con_state_scheme \<Rightarrow> u8" where
  "in_char i s = in_buf s ! unat (i mod INPUT_BUF)"

text \<open>Kill line: back to the start of the line or of what has been committed.\<close>

definition same_input :: "'a con_state_scheme \<Rightarrow> 'a con_state_scheme \<Rightarrow> bool" where
  "same_input s t \<longleftrightarrow> in_e t = in_e s \<and> in_w t = in_w s \<and> in_r t = in_r s \<and> in_buf t = in_buf s"

lemma uartputc_input [simp]:
  "in_e (uartputc c s) = in_e s" "in_w (uartputc c s) = in_w s" "in_r (uartputc c s) = in_r s"
  "in_buf (uartputc c s) = in_buf s"
  by (simp_all add: uartputc_def)

lemma cgaputc_state: "cgaputc c s = Ok t \<Longrightarrow> \<exists>p m. t = s\<lparr>crt_pos := p, crt := m\<rparr>"
  by (auto simp: cgaputc_def Let_def case_prod_beta split: if_split_asm)

lemma consputc_input:
  assumes "consputc c s = Ok t"
  shows "same_input s t"
proof -
  define u where "u = (if c = BACKSPACE then uartputc 8 (uartputc 32 (uartputc 8 s)) else uartputc c s)"
  have "cgaputc c u = Ok t" using assms by (simp add: consputc_def u_def Let_def split: if_split_asm)
  then obtain p m where "t = u\<lparr>crt_pos := p, crt := m\<rparr>" using cgaputc_state by blast
  moreover have "same_input s u" by (simp add: u_def same_input_def)
  ultimately show ?thesis by (simp add: same_input_def)
qed

function kill_line :: "'a con_state_scheme \<Rightarrow> 'a con_state_scheme res" where
  "kill_line s =
     (if in_e s \<noteq> in_w s \<and> in_char (in_e s - 1) s \<noteq> 10
      then bindr (consputc BACKSPACE (s\<lparr>in_e := in_e s - 1\<rparr>)) (\<lambda>s. kill_line s)
      else Ok s)"
  by pat_completeness auto
termination
proof (relation "measure (\<lambda>s. unat (in_e s - in_w s))")
  fix s :: "'a con_state_scheme" and t
  assume a: "in_e s \<noteq> in_w s \<and> in_char (in_e s - 1) s \<noteq> 10"
    and t: "consputc BACKSPACE (s\<lparr>in_e := in_e s - 1\<rparr>) = Ok t"
  then have "in_e s - in_w s \<noteq> 0" by simp
  then have "unat (in_e s - in_w s - 1) < unat (in_e s - in_w s)"
    by (metis unat_minus_one unat_eq_0 diff_less zero_less_one neq0_conv)
  moreover have "in_e t - in_w t = in_e s - in_w s - 1"
    using consputc_input [OF t] by (simp add: same_input_def algebra_simps)
  ultimately show "(t, s) \<in> measure (\<lambda>s. unat (in_e s - in_w s))" by simp
qed simp

declare kill_line.simps [simp del]

text \<open>One character of \<open>consoleintr\<close>; the second component asks for \<open>procdump\<close>.\<close>

definition cons_char :: "int \<Rightarrow> 'a con_state_scheme \<Rightarrow> (bool \<times> 'a con_state_scheme) res" where
  "cons_char c s =
     (if c = 16 then Ok (True, s)
      else if c = 21 then bindr (kill_line s) (\<lambda>s. Ok (False, s))
      else if c = 8 \<or> c = 127 then
        (if in_e s \<noteq> in_w s
         then bindr (consputc BACKSPACE (s\<lparr>in_e := in_e s - 1\<rparr>)) (\<lambda>s. Ok (False, s))
         else Ok (False, s))
      else if c \<noteq> 0 \<and> in_e s - in_r s < INPUT_BUF then
        (let c = (if c = 13 then 10 else c);
             s = s\<lparr>in_buf := (in_buf s)[unat (in_e s mod INPUT_BUF) := of_int c], in_e := in_e s + 1\<rparr>
         in bindr (consputc c s) (\<lambda>s.
              if c = 10 \<or> c = 4 \<or> in_e s = in_r s + INPUT_BUF
              then bindr (wakeup (ChAddr (in_addr s)) (s\<lparr>in_w := in_e s\<rparr>)) (\<lambda>s. Ok (False, s))
              else Ok (False, s)))
      else Ok (False, s))"

primrec cons_chars :: "int list \<Rightarrow> bool \<Rightarrow> 'a con_state_scheme \<Rightarrow> (bool \<times> 'a con_state_scheme) res" where
  "cons_chars [] d s = Ok (d, s)"
| "cons_chars (c # cs) d s = bindr (cons_char c s) (\<lambda>(d', s). cons_chars cs (d \<or> d') s)"

text \<open>\<open>cs\<close> are the results of \<open>getc\<close> before the first negative one.\<close>

definition consoleintr :: "int list \<Rightarrow> 'a con_state_scheme \<Rightarrow> (bool \<times> 'a con_state_scheme) res" where
  "consoleintr cs s =
     bindr (cons_acquire s) (\<lambda>s.
     bindr (cons_chars cs False s) (\<lambda>(d, s).
     bindr (cons_release s) (\<lambda>s. Ok (d, s))))"

text \<open>
  The loop of \<open>consoleread\<close> with \<open>n\<close> bytes to go: \<open>Inr\<close> the bytes read, \<open>Inl\<close> the return with -1
  of a killed process.  Waiting for input is \<open>Blocked\<close>.
\<close>

primrec cread_loop :: "nat \<Rightarrow> nat \<Rightarrow> 'a con_state_scheme \<Rightarrow> ((unit + u8 list) \<times> 'a con_state_scheme) res" where
  "cread_loop 0 target s = Ok (Inr [], s)"
| "cread_loop (Suc n) target s =
     (if in_r s = in_w s then if pkilled s then Ok (Inl (), s) else Fail (Blocked ''consoleread'')
      else
        (let c = in_char (in_r s) s; s' = s\<lparr>in_r := in_r s + 1\<rparr>
         in if c = 4 then Ok (Inr [], if Suc n < target then s else s')
            else if c = 10 then Ok (Inr [c], s')
            else bindr (cread_loop n target s') (\<lambda>(r, s). Ok (map_sum id (Cons c) r, s))))"

definition consoleread :: "nat \<Rightarrow> u32 \<Rightarrow> 'a con_state_scheme \<Rightarrow> (int \<times> u8 list \<times> 'a con_state_scheme) res" where
  "consoleread ip n s =
     bindr (iunlock ip s) (\<lambda>s.
     bindr (cons_acquire s) (\<lambda>s.
     bindr (cread_loop (nat (sint n)) (nat (sint n)) s) (\<lambda>(r, s).
     bindr (cons_release s) (\<lambda>s.
     bindr (ilock ip s) (\<lambda>s.
     Ok (case r of Inl _ \<Rightarrow> (- 1, [], s) | Inr cs \<Rightarrow> (int (length cs), cs, s)))))))"

definition consoleinit :: "'a con_state_scheme \<Rightarrow> 'a con_state_scheme" where
  "consoleinit s = s\<lparr>cons_lock := initlock ''console'' (cons_lock s), cons_locking := True\<rparr>"

text \<open>The entry of the console, major number 1, in the device table.\<close>

definition console_devsw :: "'a con_state_scheme devsw" where
  "console_devsw = \<lparr>dev_read = (\<lambda>m. if m = 1 then Some consoleread else None),
     dev_write = (\<lambda>m. if m = 1 then Some consolewrite else None)\<rparr>"

section \<open>The input ring\<close>

text \<open>
  The three indices only grow, and wrap around together: the committed bytes lie between
  \<open>r\<close> and \<open>w\<close>, the line that can still be edited between \<open>w\<close> and \<open>e\<close>, and at most \<open>INPUT_BUF\<close> bytes
  are between \<open>r\<close> and \<open>e\<close>.
\<close>

definition input_ok :: "'a con_state_scheme \<Rightarrow> bool" where
  "input_ok s \<longleftrightarrow> length (in_buf s) = 128 \<and> in_w s - in_r s \<le> in_e s - in_r s \<and> in_e s - in_r s \<le> INPUT_BUF"

lemma same_input_ok: "same_input s t \<Longrightarrow> input_ok s \<Longrightarrow> input_ok t"
  by (simp add: same_input_def input_ok_def)

text \<open>Stepping back from \<open>e\<close> stays in front of \<open>w\<close>, and \<open>r\<close> may advance up to \<open>w\<close>.\<close>

lemma ring_back:
  fixes r w e :: u32
  assumes "w - r \<le> e - r" "e \<noteq> w"
  shows "w - r \<le> e - 1 - r" "e - 1 - r \<le> e - r"
proof -
  have l: "w - r < e - r" using assms by (simp add: order.strict_iff_order)
  then have "0 < unat (e - r)" by (simp add: word_less_nat_alt)
  then have "unat (e - r - 1) = unat (e - r) - 1" by (metis unat_eq_0 unat_minus_one neq0_conv)
  moreover have q: "e - 1 - r = e - r - 1" by simp
  ultimately show "w - r \<le> e - 1 - r" "e - 1 - r \<le> e - r"
    using l unfolding q word_less_nat_alt word_le_nat_alt by linarith+
qed

lemma ring_forward:
  fixes r w e :: u32
  assumes "w - r \<le> e - r" "r \<noteq> w"
  shows "w - (r + 1) \<le> e - (r + 1)" "e - (r + 1) \<le> e - r"
proof -
  have n: "w - r \<noteq> 0" "e - r \<noteq> 0" using assms by auto
  have m: "unat (x - 1) = unat x - 1" if "x \<noteq> 0" for x :: u32 using that by (rule unat_minus_one)
  have q: "w - (r + 1) = w - r - 1" "e - (r + 1) = e - r - 1" by simp_all
  show "w - (r + 1) \<le> e - (r + 1)" "e - (r + 1) \<le> e - r"
    using assms(1) m [OF n(1)] m [OF n(2)] unfolding q word_le_nat_alt by linarith+
qed

lemma input_back: "input_ok s \<Longrightarrow> in_e s \<noteq> in_w s \<Longrightarrow> input_ok (s\<lparr>in_e := in_e s - 1\<rparr>)"
  using ring_back [of "in_w s" "in_r s" "in_e s"] by (auto simp: input_ok_def)

lemma kill_line_ok: "kill_line s = Ok t \<Longrightarrow> input_ok s \<Longrightarrow> input_ok t \<and> in_w t = in_w s \<and> in_r t = in_r s"
proof (induction s rule: kill_line.induct)
  case (1 s)
  show ?case
  proof (cases "in_e s \<noteq> in_w s \<and> in_char (in_e s - 1) s \<noteq> 10")
    case True
    then obtain u where u: "consputc BACKSPACE (s\<lparr>in_e := in_e s - 1\<rparr>) = Ok u" "kill_line u = Ok t"
      using 1(2) by (subst (asm) kill_line.simps) (auto simp: bindr_eq_Ok)
    note q = consputc_input [OF u(1)]
    have "input_ok u" using same_input_ok [OF q] input_back [OF 1(3)] True by blast
    with 1(1) [OF True u] q show ?thesis by (simp add: same_input_def)
  next
    case False
    then show ?thesis using 1(2,3) by (subst (asm) kill_line.simps) auto
  qed
qed

lemma cread_loop_ok:
  "cread_loop n target s = Ok (r, t) \<Longrightarrow> input_ok s \<Longrightarrow> input_ok t"
proof (induction n arbitrary: s r)
  case (Suc n)
  have "input_ok (s\<lparr>in_r := in_r s + 1\<rparr>)" if "in_r s \<noteq> in_w s"
    using ring_forward [of "in_w s" "in_r s" "in_e s"] Suc.prems(2) that by (auto simp: input_ok_def)
  then show ?case
    using Suc.prems Suc.IH by (auto simp: Let_def bindr_eq_Ok split: if_splits)
qed simp

text \<open>A successful read returns at most the bytes asked for, and a newline or ^D only ends it.\<close>

lemma cread_loop_bytes:
  "cread_loop n target s = Ok (Inr cs, t) \<Longrightarrow> length cs \<le> n \<and> 4 \<notin> set cs \<and> 10 \<notin> set (butlast cs)"
proof (induction n arbitrary: s cs)
  case (Suc n)
  let ?c = "in_char (in_r s) s"
  have ne: "in_r s \<noteq> in_w s" using Suc.prems by (auto split: if_splits)
  consider (stop) "?c = 4 \<or> ?c = 10" | (more) "?c \<noteq> 4" "?c \<noteq> 10" by blast
  then show ?case
  proof cases
    case stop
    then show ?thesis using Suc.prems ne by (auto simp: Let_def split: if_splits)
  next
    case more
    then obtain r' where r': "cread_loop n target (s\<lparr>in_r := in_r s + 1\<rparr>) = Ok (r', t)" "map_sum id (Cons ?c) r' = Inr cs"
      using Suc.prems ne by (auto simp: Let_def bindr_eq_Ok)
    then obtain ds where "r' = Inr ds" "cs = ?c # ds" by (cases r') auto
    with Suc.IH r'(1) more show ?thesis by auto
  qed
qed simp

section \<open>Keyboard and serial line\<close>

definition SHIFT :: u8 where "SHIFT = 1"
definition CTL :: u8 where "CTL = 2"
definition ALT :: u8 where "ALT = 4"
definition CAPSLOCK :: u8 where "CAPSLOCK = 8"
definition NUMLOCK :: u8 where "NUMLOCK = 16"
definition SCROLLLOCK :: u8 where "SCROLLLOCK = 32"
definition E0ESC :: u8 where "E0ESC = 64"

definition shiftcode :: "u8 \<Rightarrow> u8" where
  "shiftcode d = (if d = 0x1D \<or> d = 0x9D then CTL else if d = 0x2A \<or> d = 0x36 then SHIFT
     else if d = 0x38 \<or> d = 0xB8 then ALT else 0)"

definition togglecode :: "u8 \<Rightarrow> u8" where
  "togglecode d = (if d = 0x3A then CAPSLOCK else if d = 0x45 then NUMLOCK else if d = 0x46 then SCROLLLOCK else 0)"

text \<open>The keys behind the escape code, common to the maps but for Enter and Div.\<close>

definition ext_key :: "u8 \<Rightarrow> u8 \<Rightarrow> u8 \<Rightarrow> u8" where
  "ext_key enter dv d =
     (if d = 0x9C then enter else if d = 0xB5 then dv
      else if d = 0xC8 then 0xE2 else if d = 0xD0 then 0xE3 else if d = 0xC9 then 0xE6 else if d = 0xD1 then 0xE7
      else if d = 0xCB then 0xE4 else if d = 0xCD then 0xE5 else if d = 0x97 then 0xE0 else if d = 0xCF then 0xE1
      else if d = 0xD2 then 0xE8 else if d = 0xD3 then 0xE9 else 0)"

definition keymap :: "u8 list \<Rightarrow> u8 \<Rightarrow> u8 \<Rightarrow> u8 \<Rightarrow> u8" where
  "keymap tab enter dv d = (if unat d < length tab then tab ! unat d else ext_key enter dv d)"

definition keys :: "string \<Rightarrow> u8 list" where "keys cs = map of_char cs"

definition normalmap :: "u8 \<Rightarrow> u8" where
  "normalmap = keymap
     ([0, 27] @ keys ''1234567890-='' @ [8, 9] @ keys ''qwertyuiop[]'' @ [10, 0] @ keys ''asdfghjkl;'' @
      [39, 96, 0, 92] @ keys ''zxcvbnm,./'' @ [0, 42, 0, 32] @ replicate 13 0 @ keys ''789-456+1230.'' @ replicate 4 0)
     10 47"

definition shiftmap :: "u8 \<Rightarrow> u8" where
  "shiftmap = keymap
     ([0, 27] @ keys ''!@#$%^&*()_+'' @ [8, 9] @ keys ''QWERTYUIOP{}'' @ [10, 0] @ keys ''ASDFGHJKL:'' @
      [34, 126, 0, 124] @ keys ''ZXCVBNM<>?'' @ [0, 42, 0, 32] @ replicate 13 0 @ keys ''789-456+1230.'' @ replicate 4 0)
     10 47"

definition ctl :: "string \<Rightarrow> u8 list" where "ctl cs = map (\<lambda>c. of_char c - 64) cs"

definition ctlmap :: "u8 \<Rightarrow> u8" where
  "ctlmap = keymap
     (replicate 16 0 @ ctl ''QWERTYUIOP'' @ [0, 0, 13, 0] @ ctl ''ASDFGHJKL'' @ replicate 4 0 @ [28] @
      ctl ''ZXCVBNM'' @ [0, 0, 239, 0, 0])
     13 239"

definition charcode :: "u8 \<Rightarrow> u8 \<Rightarrow> u8" where
  "charcode sh = (if sh = 0 then normalmap else if sh = SHIFT then shiftmap else ctlmap)"

text \<open>\<open>kbdgetc\<close> of the byte in the data port, \<open>None\<close> if there is none.\<close>

definition kbdgetc :: "u8 option \<Rightarrow> u8 \<Rightarrow> int \<times> u8" where
  "kbdgetc port shift =
     (case port of
        None \<Rightarrow> (- 1, shift)
      | Some data \<Rightarrow>
          if data = 0xE0 then (0, shift OR E0ESC)
          else if data AND 0x80 \<noteq> 0 then
            (let data = (if shift AND E0ESC \<noteq> 0 then data else data AND 0x7F)
             in (0, shift AND NOT (shiftcode data OR E0ESC)))
          else
            (let (data, shift) =
               (if shift AND E0ESC \<noteq> 0 then (data OR 0x80, shift AND NOT E0ESC) else (data, shift));
                 shift = shift OR shiftcode data;
                 shift = shift XOR togglecode data;
                 c = charcode (shift AND (CTL OR SHIFT)) data;
                 c = (if shift AND CAPSLOCK \<noteq> 0 then
                        if 97 \<le> c \<and> c \<le> 122 then c - 32 else if 65 \<le> c \<and> c \<le> 90 then c + 32 else c
                      else c)
             in (uint c, shift)))"

primrec kbd_codes :: "u8 list \<Rightarrow> u8 \<Rightarrow> int list \<times> u8" where
  "kbd_codes [] shift = ([], shift)"
| "kbd_codes (d # ds) shift =
     (let (c, shift) = kbdgetc (Some d) shift; (cs, shift) = kbd_codes ds shift in (c # cs, shift))"

definition kbdintr :: "u8 list \<Rightarrow> 'a con_state_scheme \<Rightarrow> (bool \<times> 'a con_state_scheme) res" where
  "kbdintr ds s =
     (let (cs, shift) = kbd_codes ds (kbd_shift s) in consoleintr cs (s\<lparr>kbd_shift := shift\<rparr>))"

definition uartintr :: "u8 list \<Rightarrow> 'a con_state_scheme \<Rightarrow> (bool \<times> 'a con_state_scheme) res" where
  "uartintr ds s = consoleintr (if uart s then map uint ds else []) s"

end
