(* ===== verification/Xv6_Wakeup.thy ===== *)
theory Xv6_Wakeup
  imports Xv6_Ptable
begin

text \<open>
  \<open>sleep\<close> and \<open>wakeup\<close> of \<^verbatim>\<open>proc.c\<close> do not lose wakeups.

  Any number of processes wait for a condition the way the kernel does,
  \<open>acquire(lk); while(!cond) sleep(ch, lk); release(lk)\<close>, and any number establish it with
  \<open>acquire(lk); cond = 1; wakeup(ch); release(lk)\<close>.  The steps of \<open>sleep\<close> are those of the
  source, interleaved arbitrarily; a lock is the process that owns it.  The process table
  changes by the operations of \<open>Xv6_Ptable\<close>, and \<open>kill\<close> may wake a process at any time.
\<close>

datatype wpc =
    WStart | WCheck | WSleepPt | WSleepRel | WSleepSet | WAsleep | WRelock | WLeave
  | KStart | KSet | KPt | KWake | KRelPt | KRel | Finished

record wsys =
  w_lk :: "nat option"
  w_pt :: "nat option"
  w_cond :: bool
  w_tab :: ptab
  w_pc :: "nat \<Rightarrow> wpc"

definition goto :: "nat \<Rightarrow> wpc \<Rightarrow> wsys \<Rightarrow> wsys" where
  "goto i pc s = s\<lparr>w_pc := (w_pc s)(i := pc)\<rparr>"

text \<open>
  \<open>WSleepPt\<close>: about to take \<open>ptable.lock\<close> with \<open>lk\<close> held; \<open>WSleepRel\<close>: about to release \<open>lk\<close>;
  \<open>WSleepSet\<close>: about to set the channel and the state, after which the scheduler releases
  \<open>ptable.lock\<close>.  When it runs again it clears the channel, still under \<open>ptable.lock\<close>.  \<open>WRelock\<close>: about to take \<open>lk\<close> again.
  The lock \<open>lk\<close> is not \<open>ptable.lock\<close> itself.
\<close>

inductive wstep :: "chan \<Rightarrow> wsys \<Rightarrow> wsys \<Rightarrow> bool" for ch where
  w_lock: "w_pc s i \<in> {WStart, WRelock} \<Longrightarrow> w_lk s = None \<Longrightarrow> wstep ch s (goto i WCheck (s\<lparr>w_lk := Some i\<rparr>))"
| w_true: "w_pc s i = WCheck \<Longrightarrow> w_cond s \<Longrightarrow> wstep ch s (goto i WLeave s)"
| w_false: "w_pc s i = WCheck \<Longrightarrow> \<not> w_cond s \<Longrightarrow> wstep ch s (goto i WSleepPt s)"
| w_ptlock: "w_pc s i = WSleepPt \<Longrightarrow> w_pt s = None \<Longrightarrow> wstep ch s (goto i WSleepRel (s\<lparr>w_pt := Some i\<rparr>))"
| w_rel: "w_pc s i = WSleepRel \<Longrightarrow> wstep ch s (goto i WSleepSet (s\<lparr>w_lk := None\<rparr>))"
| w_set: "w_pc s i = WSleepSet \<Longrightarrow> i < length (procs (w_tab s)) \<Longrightarrow>
    wstep ch s (goto i WAsleep (s\<lparr>w_tab := sleep_table i ch (w_tab s), w_pt := None\<rparr>))"
| w_run: "w_pc s i = WAsleep \<Longrightarrow> w_pt s = None \<Longrightarrow> i < length (procs (w_tab s)) \<Longrightarrow>
    p_state (prc i (w_tab s)) = RUNNABLE \<Longrightarrow> wstep ch s 
    (goto i WRelock (s\<lparr>w_tab := upd_prc i (\<lambda>p. p\<lparr>p_chan := ChNull\<rparr>) (dispatch i (w_tab s))\<rparr>))"
| w_leave: "w_pc s i = WLeave \<Longrightarrow> wstep ch s (goto i Finished (s\<lparr>w_lk := None\<rparr>))"
| k_lock: "w_pc s i = KStart \<Longrightarrow> w_lk s = None \<Longrightarrow> wstep ch s (goto i KSet (s\<lparr>w_lk := Some i\<rparr>))"
| k_set: "w_pc s i = KSet \<Longrightarrow> wstep ch s (goto i KPt (s\<lparr>w_cond := True\<rparr>))"
| k_ptlock: "w_pc s i = KPt \<Longrightarrow> w_pt s = None \<Longrightarrow> wstep ch s (goto i KWake (s\<lparr>w_pt := Some i\<rparr>))"
| k_wake: "w_pc s i = KWake \<Longrightarrow> wstep ch s (goto i KRelPt (s\<lparr>w_tab := wakeup1 ch (w_tab s)\<rparr>))"
| k_relpt: "w_pc s i = KRelPt \<Longrightarrow> wstep ch s (goto i KRel (s\<lparr>w_pt := None\<rparr>))"
| k_rel: "w_pc s i = KRel \<Longrightarrow> wstep ch s (goto i Finished (s\<lparr>w_lk := None\<rparr>))"
| w_kill: "w_pt s = None \<Longrightarrow> kill_table pid (w_tab s) = Some t \<Longrightarrow> wstep ch s (s\<lparr>w_tab := t\<rparr>)"

definition has_lk :: "wpc \<Rightarrow> bool" where
  "has_lk pc \<longleftrightarrow> pc \<in> {WCheck, WSleepPt, WSleepRel, WLeave, KSet, KPt, KWake, KRelPt, KRel}"

definition has_pt :: "wpc \<Rightarrow> bool" where
  "has_pt pc \<longleftrightarrow> pc \<in> {WSleepRel, WSleepSet, KWake, KRelPt}"

definition sleeper :: "nat \<Rightarrow> wsys \<Rightarrow> bool" where
  "sleeper i s \<longleftrightarrow> w_pc s i = WAsleep \<and> i < length (procs (w_tab s)) \<and> p_state (prc i (w_tab s)) = SLEEPING"

text \<open>
  The locks are held by the processes whose program counter says so; a process that is
  about to sleep with \<open>lk\<close> held has seen the condition false; and as long as a process sleeps,
  or is about to, although the condition holds, somebody is about to call \<open>wakeup1\<close>.
\<close>

definition lock_ok :: "wsys \<Rightarrow> bool" where
  "lock_ok s \<longleftrightarrow> (\<forall>i. has_lk (w_pc s i) \<longleftrightarrow> w_lk s = Some i) \<and> (\<forall>i. has_pt (w_pc s i) \<longleftrightarrow> w_pt s = Some i)"

definition cond_ok :: "wsys \<Rightarrow> bool" where
  "cond_ok s \<longleftrightarrow> (\<forall>i. w_pc s i \<in> {WSleepPt, WSleepRel} \<longrightarrow> \<not> w_cond s)"

definition chan_ok :: "chan \<Rightarrow> wsys \<Rightarrow> bool" where
  "chan_ok ch s \<longleftrightarrow> (\<forall>i. sleeper i s \<longrightarrow> p_chan (prc i (w_tab s)) = ch)"

definition wake_ok :: "wsys \<Rightarrow> bool" where
  "wake_ok s \<longleftrightarrow> (w_cond s \<longrightarrow> (\<forall>i. w_pc s i = WSleepSet \<or> sleeper i s \<longrightarrow> (\<exists>k. w_pc s k \<in> {KPt, KWake})))"

definition winv :: "chan \<Rightarrow> wsys \<Rightarrow> bool" where
  "winv ch s \<longleftrightarrow> lock_ok s \<and> cond_ok s \<and> chan_ok ch s \<and> wake_ok s"

lemma goto_simps [simp]:
  "w_pc (goto i pc s) j = (if j = i then pc else w_pc s j)" "w_lk (goto i pc s) = w_lk s" "w_pt (goto i pc s) = w_pt s"
  "w_cond (goto i pc s) = w_cond s" "w_tab (goto i pc s) = w_tab s"
  by (simp_all add: goto_def)

text \<open>A process moves to \<open>pc\<close> and the locks follow.\<close>

definition handover :: "nat \<Rightarrow> bool \<Rightarrow> bool \<Rightarrow> nat option \<Rightarrow> nat option \<Rightarrow> bool" where
  "handover i had has l l' \<longleftrightarrow>
     had = has \<and> l' = l \<or> \<not> had \<and> has \<and> l = None \<and> l' = Some i \<or> had \<and> \<not> has \<and> l' = None"

lemma lock_ok_move:
  assumes "lock_ok s" "w_pc u = w_pc s"
    "handover i (has_lk (w_pc s i)) (has_lk pc) (w_lk s) (w_lk u)"
    "handover i (has_pt (w_pc s i)) (has_pt pc) (w_pt s) (w_pt u)"
  shows "lock_ok (goto i pc u)"
proof -
  let ?s' = "goto i pc u"
  have lk: "has_lk (w_pc s j) \<longleftrightarrow> w_lk s = Some j" and pt: "has_pt (w_pc s j) \<longleftrightarrow> w_pt s = Some j" for j
    using assms(1) by (auto simp: lock_ok_def)
  have "has_lk (w_pc ?s' j) \<longleftrightarrow> w_lk ?s' = Some j" for j
    using assms(2,3) lk [of i] lk [of j] unfolding handover_def by auto
  moreover have "has_pt (w_pc ?s' j) \<longleftrightarrow> w_pt ?s' = Some j" for j
    using assms(2,4) pt [of i] pt [of j] unfolding handover_def by auto
  ultimately show ?thesis by (simp add: lock_ok_def)
qed

lemma wstep_lock_ok: "wstep ch s s' \<Longrightarrow> lock_ok s \<Longrightarrow> lock_ok s'"
proof (induction rule: wstep.induct)
  case (w_kill s pid t)
  then show ?case by (simp add: lock_ok_def)
qed (erule lock_ok_move; auto simp: handover_def has_lk_def has_pt_def)+

text \<open>Two processes do not hold a lock at once.\<close>

lemma lock_ok_unique:
  assumes "lock_ok s"
  shows "has_lk (w_pc s i) \<Longrightarrow> has_lk (w_pc s j) \<Longrightarrow> i = j" "has_pt (w_pc s i) \<Longrightarrow> has_pt (w_pc s j) \<Longrightarrow> i = j"
  using assms by (auto simp: lock_ok_def)

lemma wstep_cond_ok: "wstep ch s s' \<Longrightarrow> lock_ok s \<Longrightarrow> cond_ok s \<Longrightarrow> cond_ok s'"
proof (induction rule: wstep.induct)
  case (k_set s i)
  then have "w_pc s j \<notin> {WSleepPt, WSleepRel}" for j
    using lock_ok_unique(1) [of s i j] by (auto simp: has_lk_def)
  then show ?case by (auto simp: cond_ok_def)
qed (auto simp: cond_ok_def)

text \<open>How the operations on the table change the entries that sleep.\<close>

lemma sleep_table_sleeping:
  "i < length (procs t) \<Longrightarrow> prc j (sleep_table i ch t) = (if j = i then (prc j t)\<lparr>p_chan := ch, p_state := SLEEPING\<rparr> else prc j t)"
  "length (procs (sleep_table i ch t)) = length (procs t)"
  by (simp_all add: sleep_table_def)

lemma dispatch_sleeping:
  "i < length (procs t) \<Longrightarrow> prc j (dispatch i t) = (if j = i then (prc j t)\<lparr>p_state := RUNNING\<rparr> else prc j t)"
  "length (procs (dispatch i t)) = length (procs t)"
  by (simp_all add: dispatch_def)

lemma wakeup1_sleeping:
  "j < length (procs t) \<Longrightarrow> p_state (prc j (wakeup1 ch t)) = SLEEPING \<longleftrightarrow> p_state (prc j t) = SLEEPING \<and> p_chan (prc j t) \<noteq> ch"
  "j < length (procs t) \<Longrightarrow> p_chan (prc j (wakeup1 ch t)) = p_chan (prc j t)"
  "length (procs (wakeup1 ch t)) = length (procs t)"
  by (auto simp: wakeup1_def prc_def)

lemma kill_sleeping:
  assumes "kill_table pid t = Some t'" "j < length (procs t')" "p_state (prc j t') = SLEEPING"
  shows "j < length (procs t) \<and> p_state (prc j t) = SLEEPING \<and> p_chan (prc j t') = p_chan (prc j t)"
proof -
  obtain i where t: "t' = upd_prc i (\<lambda>p. let p = p\<lparr>p_killed := True\<rparr>
      in if p_state p = SLEEPING then p\<lparr>p_state := RUNNABLE\<rparr> else p) t"
    using assms(1) by (auto simp: kill_table_def split: option.splits)
  show ?thesis
    using assms(2,3) unfolding t upd_prc_def prc_def by (cases "j = i") (auto simp: Let_def split: if_splits)
qed

lemma wstep_chan_ok: "wstep ch s s' \<Longrightarrow> chan_ok ch s \<Longrightarrow> chan_ok ch s'"
proof (induction rule: wstep.induct)
  case (w_kill s pid t)
  then show ?case using kill_sleeping by (fastforce simp: chan_ok_def sleeper_def)
qed (auto simp: chan_ok_def sleeper_def sleep_table_sleeping dispatch_sleeping wakeup1_sleeping split: if_splits)

text \<open>A process moves, but not away from a pending wakeup, and nobody new goes to sleep.\<close>

lemma wake_ok_move:
  assumes "wake_ok s" "w_pc u = w_pc s" "w_cond u = w_cond s"
    "w_pc s i \<in> {KPt, KWake} \<longrightarrow> pc \<in> {KPt, KWake}"
    "\<And>j. w_pc (goto i pc u) j = WSleepSet \<or> sleeper j (goto i pc u) \<Longrightarrow> w_pc s j = WSleepSet \<or> sleeper j s"
  shows "wake_ok (goto i pc u)"
  unfolding wake_ok_def
proof (intro impI allI)
  fix j assume c: "w_cond (goto i pc u)" and j: "w_pc (goto i pc u) j = WSleepSet \<or> sleeper j (goto i pc u)"
  obtain k where "w_pc s k \<in> {KPt, KWake}"
    using assms(1) assms(3) c assms(5) [OF j] by (auto simp: wake_ok_def)
  then have "w_pc (goto i pc u) k \<in> {KPt, KWake}" using assms(2,4) by auto
  then show "\<exists>k. w_pc (goto i pc u) k \<in> {KPt, KWake}" by blast
qed

lemma wstep_wake_ok:
  "wstep ch s s' \<Longrightarrow> lock_ok s \<Longrightarrow> cond_ok s \<Longrightarrow> chan_ok ch s \<Longrightarrow> wake_ok s \<Longrightarrow> wake_ok s'"
proof (induction rule: wstep.induct)
  case (k_wake s i)
  let ?s' = "goto i KRelPt (s\<lparr>w_tab := wakeup1 ch (w_tab s)\<rparr>)"
  have "w_pc s j \<noteq> WSleepSet" for j
    using lock_ok_unique(2) [OF k_wake(2), of i j] k_wake(1) by (auto simp: has_pt_def)
  moreover have "\<not> sleeper j ?s'" for j
    using k_wake(1,4) by (auto simp: sleeper_def chan_ok_def wakeup1_sleeping split: if_splits)
  ultimately show ?case by (auto simp: wake_ok_def)
next
  case (w_kill s pid t)
  have "sleeper j s" if "sleeper j (s\<lparr>w_tab := t\<rparr>)" for j
    using that kill_sleeping [OF w_kill(2), of j] by (auto simp: sleeper_def)
  then show ?case using w_kill(6) by (auto simp: wake_ok_def)
next
  case (w_rel s i)
  then have "\<not> w_cond s" by (auto simp: cond_ok_def)
  then show ?case by (simp add: wake_ok_def)
next
  case (k_set s i)
  have "w_pc (goto i KPt (s\<lparr>w_cond := True\<rparr>)) i \<in> {KPt, KWake}" by simp
  then show ?case unfolding wake_ok_def by blast
qed (erule wake_ok_move; auto simp: sleeper_def sleep_table_sleeping dispatch_sleeping split: if_splits)+

lemma wstep_winv: "wstep ch s s' \<Longrightarrow> winv ch s \<Longrightarrow> winv ch s'"
  by (simp add: winv_def wstep_lock_ok wstep_cond_ok wstep_chan_ok wstep_wake_ok)

lemma wsteps_winv: "(wstep ch)\<^sup>*\<^sup>* s s' \<Longrightarrow> winv ch s \<Longrightarrow> winv ch s'"
  by (induction rule: rtranclp_induct) (auto intro: wstep_winv)

definition wstart :: "wsys \<Rightarrow> bool" where
  "wstart s \<longleftrightarrow> w_lk s = None \<and> w_pt s = None \<and> (\<forall>i. w_pc s i \<in> {WStart, KStart, Finished})"

lemma wstart_winv: "wstart s \<Longrightarrow> winv ch s"
proof -
  assume a: "wstart s"
  have "\<not> has_lk (w_pc s i) \<and> \<not> has_pt (w_pc s i) \<and> w_pc s i \<notin> {WSleepPt, WSleepRel, WSleepSet, WAsleep}" for i
    using a unfolding wstart_def has_lk_def has_pt_def by (metis (no_types, lifting) insertE singletonD wpc.distinct)
  then show ?thesis
    using a by (auto simp: winv_def lock_ok_def cond_ok_def chan_ok_def wake_ok_def sleeper_def wstart_def)
qed

text \<open>Process 0 waits, process 1 wakes it: the run in which 0 falls asleep first.\<close>

definition sample_wsys :: wsys where
  "sample_wsys = \<lparr>w_lk = None, w_pt = None, w_cond = False, w_tab = boot_ptab,
     w_pc = (\<lambda>i. if i = 0 then WStart else if i = 1 then KStart else Finished)\<rparr>"

definition sample_asleep :: wsys where
  "sample_asleep = sample_wsys\<lparr>w_tab := sleep_table 0 (ChAddr 1) boot_ptab, w_pc := (w_pc sample_wsys)(0 := WAsleep)\<rparr>"

definition sample_woken :: wsys where
  "sample_woken = sample_asleep\<lparr>w_cond := True, w_tab := wakeup1 (ChAddr 1) (w_tab sample_asleep),
     w_pc := (w_pc sample_asleep)(1 := Finished)\<rparr>"

lemma boot_length: "procs boot_ptab \<noteq> []"
  by (simp add: boot_ptab_def)

lemma sample_falls_asleep: "(wstep (ChAddr 1))\<^sup>*\<^sup>* sample_wsys sample_asleep"
proof -
  let ?r = "wstep (ChAddr 1)" and ?s0 = sample_wsys
  define s1 where "s1 = goto 0 WCheck (?s0\<lparr>w_lk := Some 0\<rparr>)"
  define s2 where "s2 = goto 0 WSleepPt s1"
  define s3 where "s3 = goto 0 WSleepRel (s2\<lparr>w_pt := Some 0\<rparr>)"
  define s4 where "s4 = goto 0 WSleepSet (s3\<lparr>w_lk := None\<rparr>)"
  define s5 where "s5 = goto 0 WAsleep (s4\<lparr>w_tab := sleep_table 0 (ChAddr 1) (w_tab s4), w_pt := None\<rparr>)"
  note d = s1_def s2_def s3_def s4_def sample_wsys_def
  have "?r ?s0 s1" unfolding s1_def by (rule w_lock) (simp_all add: d)
  moreover have "?r s1 s2" unfolding s2_def by (rule w_false) (simp_all add: d)
  moreover have "?r s2 s3" unfolding s3_def by (rule w_ptlock) (simp_all add: d)
  moreover have "?r s3 s4" unfolding s4_def by (rule w_rel) (simp_all add: d)
  moreover have "?r s4 s5" unfolding s5_def by (rule w_set) (simp_all add: d boot_length)
  ultimately have "?r\<^sup>*\<^sup>* ?s0 s5" by (meson rtranclp.rtrancl_into_rtrancl rtranclp.rtrancl_refl)
  moreover have "s5 = sample_asleep" by (simp add: s5_def d sample_asleep_def goto_def)
  ultimately show ?thesis by simp
qed

lemma sample_is_woken: "(wstep (ChAddr 1))\<^sup>*\<^sup>* sample_asleep sample_woken"
proof -
  let ?r = "wstep (ChAddr 1)" and ?s0 = sample_asleep
  define s1 where "s1 = goto 1 KSet (?s0\<lparr>w_lk := Some 1\<rparr>)"
  define s2 where "s2 = goto 1 KPt (s1\<lparr>w_cond := True\<rparr>)"
  define s3 where "s3 = goto 1 KWake (s2\<lparr>w_pt := Some 1\<rparr>)"
  define s4 where "s4 = goto 1 KRelPt (s3\<lparr>w_tab := wakeup1 (ChAddr 1) (w_tab s3)\<rparr>)"
  define s5 where "s5 = goto 1 KRel (s4\<lparr>w_pt := None\<rparr>)"
  define s6 where "s6 = goto 1 Finished (s5\<lparr>w_lk := None\<rparr>)"
  note d = s1_def s2_def s3_def s4_def s5_def sample_asleep_def sample_wsys_def
  have "?r ?s0 s1" unfolding s1_def by (rule k_lock) (simp_all add: d)
  moreover have "?r s1 s2" unfolding s2_def by (rule k_set) (simp_all add: d)
  moreover have "?r s2 s3" unfolding s3_def by (rule k_ptlock) (simp_all add: d)
  moreover have "?r s3 s4" unfolding s4_def by (rule k_wake) (simp_all add: d)
  moreover have "?r s4 s5" unfolding s5_def by (rule k_relpt) (simp_all add: d)
  moreover have "?r s5 s6" unfolding s6_def by (rule k_rel) (simp_all add: d)
  ultimately have "?r\<^sup>*\<^sup>* ?s0 s6" by (meson rtranclp.rtrancl_into_rtrancl rtranclp.rtrancl_refl)
  moreover have "s6 = sample_woken" by (simp add: s6_def d sample_woken_def goto_def)
  ultimately show ?thesis by simp
qed

section \<open>Properties\<close>

text \<open>
  C5. No wakeup is lost: however the processes that wait for a condition with \<open>sleep\<close> and
  those that establish it with \<open>wakeup\<close> are interleaved, once the condition holds and no
  process is between setting it and its call of \<open>wakeup1\<close>, nobody is asleep on the channel
  and nobody is about to fall asleep.
\<close>

theorem no_lost_wakeup:
  assumes "wstart s" "(wstep ch)\<^sup>*\<^sup>* s s'" "w_cond s'" "\<And>k. w_pc s' k \<notin> {KPt, KWake}"
  shows "w_pc s' i \<notin> {WSleepPt, WSleepRel, WSleepSet} \<and>
    (w_pc s' i = WAsleep \<longrightarrow> i < length (procs (w_tab s')) \<longrightarrow> p_state (prc i (w_tab s')) \<noteq> SLEEPING)"
proof -
  have "winv ch s'" by (rule wsteps_winv [OF assms(2) wstart_winv [OF assms(1)]])
  then show ?thesis
    using assms(3,4) by (auto simp: winv_def cond_ok_def wake_ok_def sleeper_def)
qed

theorem no_lost_wakeup_witness:
  "w_pc sample_woken 0 = WAsleep \<and> p_state (prc 0 (w_tab sample_woken)) \<noteq> SLEEPING"
proof -
  have run: "(wstep (ChAddr 1))\<^sup>*\<^sup>* sample_wsys sample_woken"
    using sample_falls_asleep sample_is_woken by (rule rtranclp_trans)
  have "w_pc sample_woken 0 = WAsleep" "0 < length (procs (w_tab sample_woken))" "w_cond sample_woken"
    by (simp_all add: sample_woken_def sample_asleep_def wakeup1_sleeping sleep_table_sleeping boot_length)
  moreover have "w_pc sample_woken k \<notin> {KPt, KWake}" for k
    by (simp add: sample_woken_def sample_asleep_def sample_wsys_def)
  moreover have "wstart sample_wsys" by (simp add: wstart_def sample_wsys_def)
  ultimately show ?thesis using no_lost_wakeup [OF _ run] by blast
qed

end
