(* ===== verification/Xv6_Grep.thy ===== *)
theory Xv6_Grep
  imports Xv6_Prelude
begin

text \<open>
  The filters \<^verbatim>\<open>grep.c\<close> and \<^verbatim>\<open>wc.c\<close>.

  A C string is the list of its bytes without the NUL, so that reading the byte behind the
  last one is the empty-list case.  A file is the list of its bytes and \<open>read\<close> returns as
  many of them as fit, which is what \<open>read\<close> does on a regular file.
\<close>

section \<open>The pattern matcher\<close>

definition c_hat :: u8 where "c_hat = 0x5E"
definition c_star :: u8 where "c_star = 0x2A"
definition c_dollar :: u8 where "c_dollar = 0x24"
definition c_dot :: u8 where "c_dot = 0x2E"
definition c_nl :: u8 where "c_nl = 0x0A"

lemmas re_chars = c_hat_def c_star_def c_dollar_def c_dot_def c_nl_def

function (sequential) matchhere :: "u8 list \<Rightarrow> u8 list \<Rightarrow> bool"
  and matchstar :: "u8 \<Rightarrow> u8 list \<Rightarrow> u8 list \<Rightarrow> bool" where
  "matchhere re tx =
     (case re of
        [] \<Rightarrow> True
      | c # re1 \<Rightarrow>
          if re1 \<noteq> [] \<and> hd re1 = c_star then matchstar c (tl re1) tx
          else if c = c_dollar \<and> re1 = [] then tx = []
          else if tx \<noteq> [] \<and> (c = c_dot \<or> c = hd tx) then matchhere re1 (tl tx)
          else False)"
| "matchstar c re tx =
     (if matchhere re tx then True
      else if tx \<noteq> [] \<and> (hd tx = c \<or> c = c_dot) then matchstar c re (tl tx)
      else False)"
  by pat_completeness auto
termination
  by (relation "measure (\<lambda>x. case x of Inl (re, tx) \<Rightarrow> length re + length tx
        | Inr (c, re, tx) \<Rightarrow> length re + length tx + 1)")
    (auto simp: neq_Nil_conv)

declare matchhere.simps [simp del] matchstar.simps [simp del]

primrec match_suffixes :: "u8 list \<Rightarrow> u8 list \<Rightarrow> bool" where
  "match_suffixes re [] = matchhere re []"
| "match_suffixes re (a # tx) = (matchhere re (a # tx) \<or> match_suffixes re tx)"

definition match :: "u8 list \<Rightarrow> u8 list \<Rightarrow> bool" where
  "match re tx =
     (if re \<noteq> [] \<and> hd re = c_hat then matchhere (tl re) tx else match_suffixes re tx)"

section \<open>The line loop of grep\<close>

text \<open>
  \<open>grep_lines\<close> is the inner loop: \<open>p\<close> is the content of the buffer from the pointer
  \<open>p\<close> up to \<open>buf + m\<close>; the result is what was written to the output and the bytes from
  the final \<open>p\<close> on.  \<open>strchr\<close> stops at a NUL byte, so it finds a newline only in front
  of the first one.  \<open>grep\<close> carries the \<open>m\<close> bytes kept at the start of the buffer.
\<close>

definition GREP_BUF :: nat where "GREP_BUF = 1024"

definition upto_nl :: "u8 list \<Rightarrow> u8 list" where
  "upto_nl p = takeWhile (\<lambda>c. c \<noteq> 0 \<and> c \<noteq> c_nl) p"

function grep_lines :: "u8 list \<Rightarrow> u8 list \<Rightarrow> u8 list \<times> u8 list" where
  "grep_lines pattern p =
     (let line = upto_nl p; q = drop (length line) p
      in if q \<noteq> [] \<and> hd q = c_nl
         then let r = grep_lines pattern (tl q)
              in ((if match pattern line then line @ [c_nl] else []) @ fst r, snd r)
         else ([], p))"
  by pat_completeness auto
termination
  by (relation "measure (\<lambda>(pattern, p). length p)")
    (auto simp: tl_drop Suc_le_eq simp flip: drop_Suc)

declare grep_lines.simps [simp del]

lemma grep_lines_rest: "length (snd (grep_lines pattern p)) \<le> length p"
proof (induction pattern p rule: grep_lines.induct)
  case (1 pattern p)
  show ?case
    using 1 by (subst grep_lines.simps) (fastforce simp: Let_def simp flip: drop_Suc)
qed

function grep_loop :: "u8 list \<Rightarrow> u8 list \<Rightarrow> u8 list \<Rightarrow> u8 list" where
  "grep_loop pattern m input =
     (let n = take (GREP_BUF - length m - 1) input; buf = m @ n
      in if n = [] then []
         else let r = grep_lines pattern buf;
                  m' = (if length (snd r) = length buf then [] else snd r)
              in fst r @ grep_loop pattern m' (drop (length n) input))"
  by pat_completeness auto
termination
  by (relation "measure (\<lambda>(pattern, m, input). length input)") auto

declare grep_loop.simps [simp del]

definition grep :: "u8 list \<Rightarrow> u8 list \<Rightarrow> u8 list" where
  "grep pattern input = grep_loop pattern [] input"

section \<open>wc\<close>

record wc_state =
  wc_l :: u32
  wc_w :: u32
  wc_c :: u32
  wc_inword :: bool

definition wc_space :: "u8 \<Rightarrow> bool" where
  "wc_space ch \<longleftrightarrow> ch \<in> {0x20, 0x0D, 0x09, 0x0A, 0x0B}"

definition wc_char :: "u8 \<Rightarrow> wc_state \<Rightarrow> wc_state" where
  "wc_char ch s =
     (let s = s\<lparr>wc_c := wc_c s + 1\<rparr>;
          s = (if ch = c_nl then s\<lparr>wc_l := wc_l s + 1\<rparr> else s)
      in if wc_space ch then s\<lparr>wc_inword := False\<rparr>
         else if \<not> wc_inword s then s\<lparr>wc_w := wc_w s + 1, wc_inword := True\<rparr>
         else s)"

function wc_loop :: "u8 list \<Rightarrow> wc_state \<Rightarrow> wc_state" where
  "wc_loop input s =
     (let buf = take 512 input
      in if buf = [] then s else wc_loop (drop (length buf) input) (fold wc_char buf s))"
  by pat_completeness auto
termination
  by (relation "measure (\<lambda>(input, s). length input)") auto

declare wc_loop.simps [simp del]

definition wc :: "u8 list \<Rightarrow> wc_state" where
  "wc input = wc_loop input \<lparr>wc_l = 0, wc_w = 0, wc_c = 0, wc_inword = False\<rparr>"

section \<open>The meaning of a pattern\<close>

text \<open>
  A pattern is a sequence of single characters and starred characters, where a dot stands
  for any character, possibly followed by an end anchor.
\<close>

datatype rx = One u8 | Many u8

definition char_ok :: "u8 \<Rightarrow> u8 \<Rightarrow> bool" where
  "char_ok c a \<longleftrightarrow> c = c_dot \<or> c = a"

inductive accepts :: "rx list \<Rightarrow> u8 list \<Rightarrow> bool" where
  accepts_nil: "accepts [] []"
| accepts_one: "char_ok c a \<Longrightarrow> accepts rs u \<Longrightarrow> accepts (One c # rs) (a # u)"
| accepts_many: "(\<And>a. a \<in> set w \<Longrightarrow> char_ok c a) \<Longrightarrow> accepts rs u \<Longrightarrow> accepts (Many c # rs) (w @ u)"

inductive_cases accepts_nilE: "accepts [] u"
inductive_cases accepts_oneE: "accepts (One c # rs) u"
inductive_cases accepts_manyE: "accepts (Many c # rs) u"

fun parse_re :: "u8 list \<Rightarrow> rx list \<times> bool" where
  "parse_re [] = ([], False)"
| "parse_re [c] = (if c = c_dollar then ([], True) else ([One c], False))"
| "parse_re (c # d # re) =
     (if d = c_star then (Many c # fst (parse_re re), snd (parse_re re))
      else (One c # fst (parse_re (d # re)), snd (parse_re (d # re))))"

definition prefix_matches :: "rx list \<times> bool \<Rightarrow> u8 list \<Rightarrow> bool" where
  "prefix_matches r tx \<longleftrightarrow> (\<exists>u v. tx = u @ v \<and> accepts (fst r) u \<and> (snd r \<longrightarrow> v = []))"

lemma accepts_many_iff:
  "accepts (Many c # rs) u \<longleftrightarrow> accepts rs u \<or> (\<exists>a u'. u = a # u' \<and> char_ok c a \<and> accepts (Many c # rs) u')"
proof
  assume "accepts (Many c # rs) u"
  then obtain w v where wv: "u = w @ v" "\<forall>a \<in> set w. char_ok c a" "accepts rs v"
    by (auto elim: accepts_manyE)
  show "accepts rs u \<or> (\<exists>a u'. u = a # u' \<and> char_ok c a \<and> accepts (Many c # rs) u')"
  proof (cases w)
    case Nil
    with wv show ?thesis by simp
  next
    case (Cons a w')
    with wv have "accepts (Many c # rs) (w' @ v)" by (intro accepts_many) auto
    with wv Cons show ?thesis by auto
  qed
next
  assume "accepts rs u \<or> (\<exists>a u'. u = a # u' \<and> char_ok c a \<and> accepts (Many c # rs) u')"
  then show "accepts (Many c # rs) u"
  proof
    assume "accepts rs u"
    then show ?thesis using accepts_many [of "[]" c rs u] by simp
  next
    assume "\<exists>a u'. u = a # u' \<and> char_ok c a \<and> accepts (Many c # rs) u'"
    then obtain a u' where u: "u = a # u'" "char_ok c a" "accepts (Many c # rs) u'" by blast
    from u(3) obtain w v where wv: "u' = w @ v" "\<forall>a \<in> set w. char_ok c a" "accepts rs v"
      by (auto elim: accepts_manyE)
    have "accepts (Many c # rs) ((a # w) @ v)"
      by (rule accepts_many) (use u(2) wv in auto)
    with u(1) wv(1) show ?thesis by simp
  qed
qed

lemma prefix_many:
  "prefix_matches (Many c # rs, e) tx \<longleftrightarrow>
   prefix_matches (rs, e) tx \<or> (tx \<noteq> [] \<and> char_ok c (hd tx) \<and> prefix_matches (Many c # rs, e) (tl tx))"
proof -
  have "prefix_matches (Many c # rs, e) tx \<longleftrightarrow>
      (\<exists>u v. tx = u @ v \<and> (accepts rs u \<or> (\<exists>a u'. u = a # u' \<and> char_ok c a \<and> accepts (Many c # rs) u')) \<and> (e \<longrightarrow> v = []))"
    unfolding prefix_matches_def fst_conv snd_conv
    by (intro iff_exI conj_cong refl) (rule accepts_many_iff)
  also have "\<dots> \<longleftrightarrow> prefix_matches (rs, e) tx \<or>
      (\<exists>a u' v. tx = a # u' @ v \<and> char_ok c a \<and> accepts (Many c # rs) u' \<and> (e \<longrightarrow> v = []))"
    unfolding prefix_matches_def fst_conv snd_conv conj_disj_distribL conj_disj_distribR ex_disj_distrib
    by (rule disj_cong [OF refl]) (metis append_Cons)
  also have "\<dots> \<longleftrightarrow> prefix_matches (rs, e) tx \<or>
      (tx \<noteq> [] \<and> char_ok c (hd tx) \<and> prefix_matches (Many c # rs, e) (tl tx))"
    unfolding prefix_matches_def by (cases tx) auto
  finally show ?thesis .
qed

lemma accepts_one_iff:
  "accepts (One c # rs) u \<longleftrightarrow> (\<exists>a u'. u = a # u' \<and> char_ok c a \<and> accepts rs u')"
  by (auto elim: accepts_oneE intro: accepts_one)

lemma prefix_one:
  "prefix_matches (One c # rs, e) tx \<longleftrightarrow> tx \<noteq> [] \<and> char_ok c (hd tx) \<and> prefix_matches (rs, e) (tl tx)"
proof -
  have "prefix_matches (One c # rs, e) tx \<longleftrightarrow>
      (\<exists>a u' v. tx = a # u' @ v \<and> char_ok c a \<and> accepts rs u' \<and> (e \<longrightarrow> v = []))"
    unfolding prefix_matches_def fst_conv snd_conv accepts_one_iff by (metis append_Cons)
  also have "\<dots> \<longleftrightarrow> tx \<noteq> [] \<and> char_ok c (hd tx) \<and> prefix_matches (rs, e) (tl tx)"
    unfolding prefix_matches_def by (cases tx) auto
  finally show ?thesis .
qed

lemma prefix_nil [simp]: "prefix_matches ([], e) tx \<longleftrightarrow> (e \<longrightarrow> tx = [])"
  unfolding prefix_matches_def fst_conv snd_conv
  by (metis accepts_nil accepts_nilE append_Nil)

lemma matchhere_correct:
  "matchhere re tx = prefix_matches (parse_re re) tx"
  "matchstar c re tx = prefix_matches (Many c # fst (parse_re re), snd (parse_re re)) tx"
proof (induction re tx and c re tx rule: matchhere_matchstar.induct)
  case (1 re tx)
  consider "re = []" | c where "re = [c]" | c d re' where "re = c # d # re'"
    by (metis list.exhaust)
  then show ?case
  proof cases
    case 1
    then show ?thesis by (simp add: matchhere.simps)
  next
    case (2 c)
    show ?thesis
    proof (cases "c = c_dollar")
      case True
      with 2 show ?thesis by (simp add: matchhere.simps)
    next
      case False
      have "matchhere [] t = prefix_matches ([], False) t" for t
        by (simp add: matchhere.simps)
      with 2 False show ?thesis
        by (auto simp: matchhere.simps [of "[c]"] prefix_one char_ok_def)
    qed
  next
    case (3 c d re')
    show ?thesis
    proof (cases "d = c_star")
      case True
      with 3 1(1) show ?thesis by (simp add: matchhere.simps [of "c # _"])
    next
      case False
      have "matchhere (d # re') (tl tx) = prefix_matches (parse_re (d # re')) (tl tx)"
        if "tx \<noteq> []" "c = c_dot \<or> c = hd tx"
        using 1(2) [of c "d # re'"] 3 False that by simp
      with 3 False show ?thesis
        by (auto simp: matchhere.simps [of "c # _"] prefix_one char_ok_def)
    qed
  qed
next
  case (2 c re tx)
  then show ?case
    unfolding matchstar.simps [of c re tx] prefix_many [of c _ _ tx] char_ok_def by auto
qed


section \<open>The lines of a file\<close>

definition text_of :: "u8 list list \<Rightarrow> u8 list" where
  "text_of ls = concat (map (\<lambda>l. l @ [c_nl]) ls)"

definition plain_line :: "u8 list \<Rightarrow> bool" where
  "plain_line l \<longleftrightarrow> 0 \<notin> set l \<and> c_nl \<notin> set l \<and> length l < GREP_BUF - 1"

lemma text_of_simps [simp]: "text_of [] = []" "text_of (l # ls) = l @ c_nl # text_of ls"
  by (simp_all add: text_of_def)

lemma upto_nl_line: "plain_line l \<Longrightarrow> upto_nl (l @ c_nl # xs) = l"
  unfolding upto_nl_def by (subst takeWhile_append2) (auto simp: plain_line_def)

lemma upto_nl_none: "0 \<notin> set p \<Longrightarrow> c_nl \<notin> set p \<Longrightarrow> upto_nl p = p"
  unfolding upto_nl_def by (auto simp: takeWhile_eq_all_conv)

lemma grep_lines_none: "c_nl \<notin> set p \<Longrightarrow> grep_lines pattern p = ([], p)"
proof -
  assume "c_nl \<notin> set p"
  then have "drop k p = [] \<or> hd (drop k p) \<noteq> c_nl" for k
    by (metis hd_in_set in_set_dropD)
  then show ?thesis by (subst grep_lines.simps) (auto simp: Let_def)
qed

lemma grep_lines_line:
  "plain_line l \<Longrightarrow> grep_lines pattern (l @ c_nl # xs) =
   ((if match pattern l then l @ [c_nl] else []) @ fst (grep_lines pattern xs), snd (grep_lines pattern xs))"
  by (subst grep_lines.simps) (simp add: Let_def upto_nl_line)

text \<open>The inner loop on the first \<open>n\<close> bytes of a file consumes its first \<open>k\<close> lines.\<close>

lemma grep_lines_prefix:
  assumes "\<And>l. l \<in> set ls \<Longrightarrow> plain_line l"
  shows "\<exists>k r. grep_lines pattern (take n (text_of ls)) = (text_of (filter (match pattern) (take k ls)), r)
    \<and> r @ drop n (text_of ls) = text_of (drop k ls) \<and> c_nl \<notin> set r
    \<and> (ls \<noteq> [] \<longrightarrow> length (hd ls) < n \<longrightarrow> length r < length (take n (text_of ls)))"
  using assms
proof (induction ls arbitrary: n)
  case Nil
  show ?case by (rule exI [of _ 0]) (simp add: grep_lines_none)
next
  case (Cons l ls)
  have pl: "plain_line l" using Cons.prems by simp
  show ?case
  proof (cases "length l < n")
    case True
    then obtain n' where n: "n = Suc (length l + n')" using less_iff_Suc_add by auto
    obtain k r where kr: "grep_lines pattern (take n' (text_of ls)) = (text_of (filter (match pattern) (take k ls)), r)"
      "r @ drop n' (text_of ls) = text_of (drop k ls)" "c_nl \<notin> set r"
      using Cons.IH [of n'] Cons.prems by auto
    have "length r \<le> min (length (text_of ls)) n'"
      using grep_lines_rest [of pattern "take n' (text_of ls)"] kr(1) by simp
    then have "length r < Suc (length l + min (length (text_of ls)) n')" by linarith
    then show ?thesis
      using kr by (intro exI [of _ "Suc k"] exI [of _ r]) (simp add: n grep_lines_line [OF pl])
  next
    case False
    have "c_nl \<notin> set (take n l)" using pl by (auto simp: plain_line_def dest: in_set_takeD)
    with False show ?thesis
      by (intro exI [of _ 0] exI [of _ "take n l"]) (simp add: grep_lines_none)
  qed
qed

lemma grep_loop_lines:
  assumes "\<And>l. l \<in> set ls \<Longrightarrow> plain_line l" "m @ input = text_of ls"
    "c_nl \<notin> set m" "length m < GREP_BUF - 1"
  shows "grep_loop pattern m input = text_of (filter (match pattern) ls)"
  using assms
proof (induction "length input" arbitrary: m input ls rule: less_induct)
  case less
  let ?n = "GREP_BUF - 1"
  let ?c = "take (GREP_BUF - length m - 1) input"
  show ?case
  proof (cases ls)
    case Nil
    with less.prems show ?thesis by (subst grep_loop.simps) simp
  next
    case (Cons l ls')
    have ne: "input \<noteq> []"
      using less.prems(2,3) Cons by auto
    then have c: "?c \<noteq> []" using less.prems(4) by simp
    have buf: "m @ ?c = take ?n (text_of ls)"
      using less.prems(2,4) by (simp flip: less.prems(2))
    obtain k r where kr: "grep_lines pattern (take ?n (text_of ls)) = (text_of (filter (match pattern) (take k ls)), r)"
      "r @ drop ?n (text_of ls) = text_of (drop k ls)" "c_nl \<notin> set r"
      "ls \<noteq> [] \<longrightarrow> length (hd ls) < ?n \<longrightarrow> length r < length (take ?n (text_of ls))"
      using grep_lines_prefix [of ls pattern ?n] less.prems(1) by blast
    have short: "length r < length (take ?n (text_of ls))"
      using kr(4) less.prems(1) [of l] Cons by (simp add: plain_line_def)
    have rest: "drop (length ?c) input = drop ?n (text_of ls)"
      using less.prems(4) by (simp flip: less.prems(2) add: min_def)
    have "grep_loop pattern r (drop (length ?c) input) = text_of (filter (match pattern) (drop k ls))"
    proof (rule less.hyps)
      show "length (drop (length ?c) input) < length input" using ne c by simp
      show "\<And>l. l \<in> set (drop k ls) \<Longrightarrow> plain_line l" using less.prems(1) by (meson in_set_dropD)
      show "r @ drop (length ?c) input = text_of (drop k ls)" using kr(2) rest by simp
      show "length r < GREP_BUF - 1" using short by simp
    qed (rule kr(3))
    moreover have "grep_loop pattern m input =
        text_of (filter (match pattern) (take k ls)) @ grep_loop pattern r (drop (length ?c) input)"
      unfolding grep_loop.simps [of pattern m] Let_def buf kr(1) if_not_P [OF c] fst_conv snd_conv
        if_not_P [OF less_imp_neq [OF short]] ..
    moreover have "filter (match pattern) ls = filter (match pattern) (take k ls) @ filter (match pattern) (drop k ls)"
      by (metis append_take_drop_id filter_append)
    ultimately show ?thesis by (simp add: text_of_def)
  qed
qed

section \<open>Properties\<close>

text \<open>
  C34. \<open>match\<close> decides the language of the pattern: a pattern that starts with a caret must
  match a prefix of the text, any other pattern a prefix of some suffix, where the items
  of the pattern are characters, the dot and starred characters, and a final dollar sign
  requires the match to reach the end of the text.
\<close>

theorem match_correct:
  "match re tx \<longleftrightarrow>
   (if re \<noteq> [] \<and> hd re = c_hat then prefix_matches (parse_re (tl re)) tx
    else \<exists>w v. tx = w @ v \<and> prefix_matches (parse_re re) v)"
proof -
  have "match_suffixes re tx \<longleftrightarrow> (\<exists>w v. tx = w @ v \<and> matchhere re v)"
  proof (induction tx)
    case Nil
    show ?case by simp
  next
    case (Cons a tx)
    then show ?case by (auto simp: Cons_eq_append_conv)
  qed
  then show ?thesis
    unfolding match_def matchhere_correct(1) by (simp only: if_cancel)
qed

text \<open>
  C35. \<open>grep\<close> prints exactly the matching lines, in order and with their newlines, of every
  file whose lines are terminated, contain no NUL byte and are at most 1022 bytes long,
  however the lines fall on the boundaries of its 1024-byte buffer.
\<close>

theorem grep_prints_matching_lines:
  assumes "\<And>l. l \<in> set ls \<Longrightarrow> plain_line l"
  shows "grep pattern (text_of ls) = text_of (filter (match pattern) ls)"
  unfolding grep_def by (rule grep_loop_lines) (use assms in \<open>auto simp: GREP_BUF_def\<close>)

theorem grep_prints_matching_lines_witness:
  "grep [97] (text_of [[98, 97], [99]]) = text_of (filter (match [97]) [[98, 97], [99]])"
  by (rule grep_prints_matching_lines) (auto simp: plain_line_def GREP_BUF_def c_nl_def)

text \<open>
  C36. A line that does not fit the buffer loses data: when the first 1023 bytes of a file
  hold no newline, \<open>grep\<close> behaves as if they were not there, although they may match.
\<close>

theorem grep_drops_full_buffer:
  assumes "length x = GREP_BUF - 1" "c_nl \<notin> set x"
  shows "grep pattern (x @ rest) = grep pattern rest"
  unfolding grep_def
  by (subst grep_loop.simps) (use assms in \<open>auto simp: GREP_BUF_def Let_def grep_lines_none\<close>)

theorem grep_drops_full_buffer_witness:
  "grep [97] (replicate (GREP_BUF - 1) 97 @ [c_nl]) = grep [97] [c_nl]"
  by (rule grep_drops_full_buffer) (auto simp: c_nl_def)

text \<open>The number of words of a text is the number of positions where a word starts.\<close>

definition word_starts :: "u8 list \<Rightarrow> nat set" where
  "word_starts xs = {i. i < length xs \<and> \<not> wc_space (xs ! i) \<and> (i = 0 \<or> wc_space (xs ! (i - 1)))}"

primrec words_from :: "bool \<Rightarrow> u8 list \<Rightarrow> nat" where
  "words_from inword [] = 0"
| "words_from inword (ch # s) =
     (if wc_space ch then words_from False s
      else (if inword then 0 else 1) + words_from True s)"

lemma words_from_starts:
  "words_from inword xs =
   card {i. i < length xs \<and> \<not> wc_space (xs ! i) \<and> (if i = 0 then \<not> inword else wc_space (xs ! (i - 1)))}"
proof (induction xs arbitrary: inword)
  case Nil
  show ?case by simp
next
  case (Cons ch xs)
  let ?S = "\<lambda>b xs. {i. i < length xs \<and> \<not> wc_space (xs ! i) \<and> (if i = 0 then \<not> b else wc_space (xs ! (i - 1)))}"
  have split: "?S inword (ch # xs) =
      (if \<not> wc_space ch \<and> \<not> inword then {0} else {}) \<union> Suc ` ?S (\<not> wc_space ch) xs"
  proof (rule set_eqI)
    fix i
    show "i \<in> ?S inword (ch # xs) \<longleftrightarrow>
        i \<in> (if \<not> wc_space ch \<and> \<not> inword then {0} else {}) \<union> Suc ` ?S (\<not> wc_space ch) xs"
      by (cases i; cases "i - 1") (auto simp: image_iff)
  qed
  have "card (?S inword (ch # xs)) =
      (if \<not> wc_space ch \<and> \<not> inword then 1 else 0) + card (?S (\<not> wc_space ch) xs)"
    unfolding split by (subst card_Un_disjoint) (auto simp: card_image)
  with Cons show ?case by simp
qed

lemma fold_wc_char:
  "fold wc_char xs s =
   \<lparr>wc_l = wc_l s + of_nat (count_list xs c_nl), wc_w = wc_w s + of_nat (words_from (wc_inword s) xs),
    wc_c = wc_c s + of_nat (length xs),
    wc_inword = (if xs = [] then wc_inword s else \<not> wc_space (last xs)), \<dots> = wc_state.more s\<rparr>"
  by (induction xs arbitrary: s) (auto simp: wc_char_def Let_def)

lemma wc_loop_fold: "wc_loop input s = fold wc_char input s"
proof (induction input s rule: wc_loop.induct)
  case (1 input s)
  show ?case
  proof (cases "input = []")
    case True
    then show ?thesis by (subst wc_loop.simps) simp
  next
    case False
    then have "wc_loop input s = wc_loop (drop (length (take 512 input)) input) (fold wc_char (take 512 input) s)"
      by (subst wc_loop.simps) (simp add: Let_def)
    also have "\<dots> = fold wc_char (drop (length (take 512 input)) input) (fold wc_char (take 512 input) s)"
      using 1 False by simp
    also have "\<dots> = fold wc_char (take 512 input @ drop 512 input) s"
      by (simp only: fold_append o_apply) (simp add: min_def)
    finally show ?thesis by simp
  qed
qed

text \<open>
  \<open>wc\<close> counts newlines, maximal runs of non-blank characters and bytes, modulo the
  width of its counters, independently of how words fall on the 512-byte reads.
\<close>

theorem wc_counts:
  "wc_l (wc input) = of_nat (count_list input c_nl) \<and>
   wc_w (wc input) = of_nat (card (word_starts input)) \<and> wc_c (wc input) = of_nat (length input)"
proof -
  have "words_from False input = card (word_starts input)"
    unfolding words_from_starts word_starts_def by (rule arg_cong [where f = card]) auto
  then show ?thesis
    unfolding wc_def wc_loop_fold fold_wc_char by simp
qed

end
