(* ===== verification/Xv6_Ulib.thy ===== *)
theory Xv6_Ulib
  imports Xv6_String
begin

text \<open>
  The user library: the string routines of \<^verbatim>\<open>ulib.c\<close>, the formatted output of
  \<^verbatim>\<open>printf.c\<close> and the storage allocator of \<^verbatim>\<open>umalloc.c\<close>.

  A loop that runs until it meets a NUL byte is an option-valued partial function: on a
  memory without that byte it does not return.  What a program writes to a file
  descriptor one character at a time is the list of the characters.  The system calls
  \<open>read\<close> and \<open>sbrk\<close> are arguments: the bytes that arrive, and a function on a state of
  the caller's choice.
\<close>

section \<open>ulib.c\<close>

partial_function (option) strcpy :: "u32 \<Rightarrow> u32 \<Rightarrow> mem \<Rightarrow> mem option" where
  "strcpy s t m =
     (let c = m t; m = m(s := c)
      in if c \<noteq> 0 then strcpy (s + 1) (t + 1) m else Some m)"

partial_function (option) strcmp_from :: "cstr \<Rightarrow> cstr \<Rightarrow> nat \<Rightarrow> int option" where
  "strcmp_from p q i =
     (if p i \<noteq> 0 \<and> p i = q i then strcmp_from p q (Suc i) else Some (uint (p i) - uint (q i)))"

definition strcmp :: "cstr \<Rightarrow> cstr \<Rightarrow> int option" where
  "strcmp p q = strcmp_from p q 0"

definition ulib_strlen :: "cstr \<Rightarrow> nat option" where
  "ulib_strlen s = strlen_from s 0"

definition ulib_memset :: "u32 \<Rightarrow> u32 \<Rightarrow> u32 \<Rightarrow> mem \<Rightarrow> mem" where
  "ulib_memset dst c n m = stosb (unat n) dst (ucast c) m"

partial_function (option) strchr_from :: "cstr \<Rightarrow> u8 \<Rightarrow> nat \<Rightarrow> nat option option" where
  "strchr_from s c i =
     (if s i = 0 then Some None
      else if s i = c then Some (Some i)
      else strchr_from s c (Suc i))"

text \<open>The position of the character in the string, or none.\<close>

definition strchr :: "cstr \<Rightarrow> u8 \<Rightarrow> nat option option" where
  "strchr s c = strchr_from s c 0"

fun gets_loop :: "nat \<Rightarrow> u8 list \<Rightarrow> u8 list \<times> u8 list" where
  \<comment> \<open>\<open>room\<close> is \<open>max - 1 - i\<close>; a read at the end of the input returns 0\<close>
  "gets_loop 0 input = ([], input)"
| "gets_loop (Suc room) [] = ([], [])"
| "gets_loop (Suc room) (c # input) =
     (if c = 0x0A \<or> c = 0x0D then ([c], input)
      else let r = gets_loop room input in (c # fst r, snd r))"

text \<open>The characters stored in front of the final NUL, and the input left over.\<close>

definition gets :: "int \<Rightarrow> u8 list \<Rightarrow> u8 list \<times> u8 list" where
  "gets bufmax input = gets_loop (nat (bufmax - 1)) input"

partial_function (option) atoi_loop :: "cstr \<Rightarrow> nat \<Rightarrow> u32 \<Rightarrow> u32 option" where
  "atoi_loop s i n =
     (if 0x30 \<le> s i \<and> s i \<le> 0x39 then atoi_loop s (Suc i) (n * 10 + ucast (s i) - 0x30)
      else Some n)"

definition atoi :: "cstr \<Rightarrow> u32 option" where
  "atoi s = atoi_loop s 0 0"

definition ulib_memmove :: "u32 \<Rightarrow> u32 \<Rightarrow> int \<Rightarrow> mem \<Rightarrow> mem" where
  "ulib_memmove dst src n m = copy_up (nat n) dst src m"

section \<open>printf.c\<close>

definition digits :: "u8 list" where
  "digits = map of_nat [0x30 ..< 0x3A] @ map of_nat [0x41 ..< 0x47]"

text \<open>
  The digit loop with \<open>i\<close> the number of characters already in the 16-byte buffer: storing
  a seventeenth one and dividing by zero are faults.  The result is the content of the
  buffer, least significant digit first.
\<close>

function digit_loop :: "nat \<Rightarrow> u32 \<Rightarrow> u32 \<Rightarrow> u8 list res" where
  "digit_loop i x b =
     (if 16 \<le> i then Fail (Fault ''printint: buf'')
      else if b = 0 then Fail (Fault ''printint: division by zero'')
      else if x div b = 0 then Ok [digits ! unat (x mod b)]
      else bindr (digit_loop (Suc i) (x div b) b) (\<lambda>ds. Ok (digits ! unat (x mod b) # ds)))"
  by pat_completeness auto
termination
  by (relation "measure (\<lambda>(i, x, b). 16 - i)") auto

declare digit_loop.simps [simp del]

text \<open>The characters that \<open>printint\<close> writes.\<close>

definition printint :: "u32 \<Rightarrow> u32 \<Rightarrow> bool \<Rightarrow> u8 list res" where
  "printint xx b sign =
     (let neg = (sign \<and> sint xx < 0);
          x = (if neg then - xx else xx)
      in bindr (digit_loop 0 x b) (\<lambda>buf.
         if neg \<and> 16 \<le> length buf then Fail (Fault ''printint: buf'')
         else Ok (rev (buf @ (if neg then [0x2D] else [])))))"

text \<open>The string at an address.\<close>

partial_function (option) cstring :: "mem \<Rightarrow> u32 \<Rightarrow> u8 list option" where
  "cstring m s =
     (if m s = 0 then Some [] else Option.bind (cstring m (s + 1)) (\<lambda>xs. Some (m s # xs)))"

definition null_text :: "u8 list" where
  "null_text = [0x28, 0x6E, 0x75, 0x6C, 0x6C, 0x29]"

text \<open>
  One conversion: the characters written for the conversion character \<open>c\<close> with the next
  argument word \<open>a\<close>, and whether the argument is used up.
\<close>

definition convert :: "mem \<Rightarrow> u8 \<Rightarrow> u32 \<Rightarrow> (u8 list \<times> bool) res option" where
  "convert m c a =
     (if c = 0x64 then Some (bindr (printint a 10 True) (\<lambda>xs. Ok (xs, True)))
      else if c = 0x78 \<or> c = 0x70 then Some (bindr (printint a 16 False) (\<lambda>xs. Ok (xs, True)))
      else if c = 0x73 then
        (if a = 0 then Some (Ok (null_text, True))
         else Option.bind (cstring m a) (\<lambda>xs. Some (Ok (xs, True))))
      else if c = 0x63 then Some (Ok ([ucast a], True))
      else if c = 0x25 then Some (Ok ([c], False))
      else Some (Ok ([0x25, c], False)))"

text \<open>The loop over the format; \<open>ap\<close> gives the argument words on the stack.\<close>

fun printf_loop :: "mem \<Rightarrow> u8 list \<Rightarrow> bool \<Rightarrow> (nat \<Rightarrow> u32) \<Rightarrow> nat \<Rightarrow> u8 list res option" where
  "printf_loop m [] state ap i = Some (Ok [])"
| "printf_loop m (c # fmt) False ap i =
     (if c = 0x25 then printf_loop m fmt True ap i
      else Option.bind (printf_loop m fmt False ap i) (\<lambda>r. Some (bindr r (\<lambda>xs. Ok (c # xs)))))"
| "printf_loop m (c # fmt) True ap i =
     Option.bind (convert m c (ap i)) (\<lambda>r.
       case r of
         Fail e \<Rightarrow> Some (Fail e)
       | Ok (xs, used) \<Rightarrow>
           Option.bind (printf_loop m fmt False ap (if used then Suc i else i)) (\<lambda>r.
             Some (bindr r (\<lambda>ys. Ok (xs @ ys)))))"

definition printf :: "mem \<Rightarrow> u8 list \<Rightarrow> (nat \<Rightarrow> u32) \<Rightarrow> u8 list res option" where
  "printf m fmt ap = printf_loop m fmt False ap 0"

section \<open>umalloc.c\<close>

text \<open>
  The headers in memory as the functions \<open>h_ptr\<close> and \<open>h_size\<close> of their addresses; a
  header is 8 bytes long and sizes count headers.  \<open>base\<close> is the address of the static
  header of that name, \<open>sbrk\<close> the system call on the state \<open>u_os\<close>.
\<close>

record 's uheap =
  h_ptr :: "u32 \<Rightarrow> u32"
  h_size :: "u32 \<Rightarrow> u32"
  freep :: u32
  u_os :: 's

definition hadd :: "u32 \<Rightarrow> u32 \<Rightarrow> u32" where
  "hadd p n = p + 8 * n"

partial_function (option) free_scan :: "(u32 \<Rightarrow> u32) \<Rightarrow> u32 \<Rightarrow> u32 \<Rightarrow> u32 option" where
  "free_scan ptr bp p =
     (if p < bp \<and> bp < ptr p then Some p
      else if ptr p \<le> p \<and> (p < bp \<or> bp < ptr p) then Some p
      else free_scan ptr bp (ptr p))"

definition free_at :: "u32 \<Rightarrow> u32 \<Rightarrow> 's uheap \<Rightarrow> 's uheap" where
  \<comment> \<open>the part of \<open>free\<close> behind its loop\<close>
  "free_at bp p h =
     (let h = (if hadd bp (h_size h bp) = h_ptr h p
               then h\<lparr>h_size := (h_size h)(bp := h_size h bp + h_size h (h_ptr h p)),
                      h_ptr := (h_ptr h)(bp := h_ptr h (h_ptr h p))\<rparr>
               else h\<lparr>h_ptr := (h_ptr h)(bp := h_ptr h p)\<rparr>);
          h = (if hadd p (h_size h p) = bp
               then h\<lparr>h_size := (h_size h)(p := h_size h p + h_size h bp),
                      h_ptr := (h_ptr h)(p := h_ptr h bp)\<rparr>
               else h\<lparr>h_ptr := (h_ptr h)(p := bp)\<rparr>)
      in h\<lparr>freep := p\<rparr>)"

definition free :: "u32 \<Rightarrow> 's uheap \<Rightarrow> 's uheap option" where
  "free ap h =
     (let bp = ap - 8
      in Option.bind (free_scan (h_ptr h) bp (freep h)) (\<lambda>p. Some (free_at bp p h)))"

definition morecore :: "(u32 \<Rightarrow> 's \<Rightarrow> u32 \<times> 's) \<Rightarrow> u32 \<Rightarrow> 's uheap \<Rightarrow> (u32 \<times> 's uheap) option" where
  "morecore sbrk nu h =
     (let nu = (if nu < 4096 then 4096 else nu);
          (p, os) = sbrk (nu * 8) (u_os h);
          h = h\<lparr>u_os := os\<rparr>
      in if p = - 1 then Some (0, h)
         else let h = h\<lparr>h_size := (h_size h)(p := nu)\<rparr>
              in Option.bind (free (p + 8) h) (\<lambda>h. Some (freep h, h)))"

definition carve :: "u32 \<Rightarrow> u32 \<Rightarrow> u32 \<Rightarrow> 's uheap \<Rightarrow> u32 \<times> 's uheap" where
  \<comment> \<open>the body of the first \<open>if\<close> of the loop of \<open>malloc\<close>\<close>
  "carve nunits prevp p h =
     (if h_size h p = nunits
      then (hadd p 1, h\<lparr>h_ptr := (h_ptr h)(prevp := h_ptr h p), freep := prevp\<rparr>)
      else let rest = h_size h p - nunits; q = hadd p rest
           in (hadd q 1, h\<lparr>h_size := (h_size h)(p := rest, q := nunits), freep := prevp\<rparr>))"

partial_function (option) malloc_loop ::
  "(u32 \<Rightarrow> 's \<Rightarrow> u32 \<times> 's) \<Rightarrow> u32 \<Rightarrow> u32 \<Rightarrow> u32 \<Rightarrow> 's uheap \<Rightarrow> (u32 \<times> 's uheap) option" where
  "malloc_loop sbrk nunits prevp p h =
     (if nunits \<le> h_size h p then Some (carve nunits prevp p h)
      else if p = freep h
      then Option.bind (morecore sbrk nunits h) (\<lambda>(p, h).
             if p = 0 then Some (0, h) else malloc_loop sbrk nunits p (h_ptr h p) h)
      else malloc_loop sbrk nunits p (h_ptr h p) h)"

definition nunits_of :: "u32 \<Rightarrow> u32" where
  "nunits_of nbytes = (nbytes + 8 - 1) div 8 + 1"

definition malloc :: "(u32 \<Rightarrow> 's \<Rightarrow> u32 \<times> 's) \<Rightarrow> u32 \<Rightarrow> u32 \<Rightarrow> 's uheap \<Rightarrow> (u32 \<times> 's uheap) option" where
  "malloc sbrk base nbytes h =
     (let nunits = nunits_of nbytes;
          h = (if freep h = 0
               then h\<lparr>freep := base, h_ptr := (h_ptr h)(base := base), h_size := (h_size h)(base := 0)\<rparr>
               else h)
      in malloc_loop sbrk nunits (freep h) (h_ptr h (freep h)) h)"


section \<open>Decimal output\<close>

definition digits_value :: "nat \<Rightarrow> nat list \<Rightarrow> nat" where
  "digits_value b es = foldr (\<lambda>d v. d + b * v) es 0"

lemma digits_value_simps [simp]:
  "digits_value b [] = 0" "digits_value b (d # es) = d + b * digits_value b es"
  by (simp_all add: digits_value_def)

lemma digits_nth: "d < 10 \<Longrightarrow> digits ! d = of_nat (0x30 + d)"
proof -
  have "\<forall>d\<in>set [0, 1, 2, 3, 4, 5, 6, 7, 8, 9 :: nat]. digits ! d = of_nat (0x30 + d)"
    by (simp add: digits_def)
  moreover have "set [0, 1, 2, 3, 4, 5, 6, 7, 8, 9 :: nat] = {0..<10}" by auto
  moreover assume "d < 10"
  ultimately show ?thesis by (metis atLeastLessThan_iff le0)
qed

text \<open>
  A number below the \<open>k\<close>-th power of the base gives at most \<open>k\<close> digits, which denote it.
\<close>

lemma digit_loop_spec:
  assumes "unat x < unat b ^ k" "0 < k" "i + k \<le> 16" "1 < unat b"
  shows "\<exists>es. digit_loop i x b = Ok (map (nth digits) es) \<and> es \<noteq> [] \<and> length es \<le> k \<and>
    (\<forall>d\<in>set es. d < unat b) \<and> digits_value (unat b) es = unat x"
  using assms
proof (induction k arbitrary: i x)
  case 0
  then show ?case by simp
next
  case (Suc k)
  have b: "b \<noteq> 0" using Suc.prems(4) by auto
  have modd: "unat (x mod b) = unat x mod unat b" "unat (x div b) = unat x div unat b"
    by (simp_all add: unat_mod unat_div)
  show ?case
  proof (cases "x div b = 0")
    case True
    then have "unat x mod unat b = unat x"
      using modd(2) b by (metis div_eq_0_iff mod_less unat_0 unat_eq_zero)
    with True b Suc.prems show ?thesis
      by (intro exI [of _ "[unat x]"]) (simp add: digit_loop.simps [of i] modd, metis Suc_lessD mod_less_divisor)
  next
    case False
    have lt: "unat (x div b) < unat b ^ k"
      using Suc.prems(1) by (simp add: modd less_mult_imp_div_less mult.commute)
    have "0 < k" using lt False by (cases k) (auto simp: unat_eq_zero)
    then obtain es where es: "digit_loop (Suc i) (x div b) b = Ok (map (nth digits) es)" "length es \<le> k"
      "\<forall>d\<in>set es. d < unat b" "digits_value (unat b) es = unat (x div b)"
      using Suc.IH [OF lt, of "Suc i"] Suc.prems by auto
    with False b Suc.prems show ?thesis
      by (intro exI [of _ "unat (x mod b) # es"]) (simp add: digit_loop.simps [of i] modd)
  qed
qed

lemma atoi_loop_digits:
  assumes "\<And>j. j < length ds \<Longrightarrow> s (i + j) = of_nat (0x30 + ds ! j)" "\<And>d. d \<in> set ds \<Longrightarrow> d < 10"
    "\<not> (0x30 \<le> s (i + length ds) \<and> s (i + length ds) \<le> 0x39)"
  shows "atoi_loop s i n = Some (fold (\<lambda>d n. n * 10 + of_nat d) ds n)"
  using assms
proof (induction ds arbitrary: i n)
  case Nil
  then show ?case by (subst atoi_loop.simps) auto
next
  case (Cons d ds)
  have d: "d < 10" and s: "s i = of_nat (0x30 + d)"
    using Cons.prems(1) [of 0] Cons.prems(2) by auto
  have u: "unat (s i) = 0x30 + d"
    unfolding s unat_of_nat using d by (simp add: take_bit_nat_eq_self)
  have dig: "0x30 \<le> s i \<and> s i \<le> 0x39"
    using u d by (simp add: word_le_nat_alt)
  have "(ucast (s i) :: u32) = of_nat (unat (s i))"
    by simp
  then have c: "n * 10 + ucast (s i) - 0x30 = n * 10 + of_nat d"
    unfolding u by simp
  have "atoi_loop s (Suc i) (n * 10 + of_nat d) = Some (fold (\<lambda>d n. n * 10 + of_nat d) ds (n * 10 + of_nat d))"
    by (rule Cons.IH) (use Cons.prems(1) [of "Suc _"] Cons.prems in auto)
  then show ?case
    by (subst atoi_loop.simps) (simp add: dig c)
qed

lemma fold_horner:
  "fold (\<lambda>d n. n * 10 + of_nat d) (rev es) 0 = (of_nat (digits_value 10 es) :: u32)"
  by (induction es) auto

text \<open>
  The number printed by \<open>%d\<close> is read back by \<open>atoi\<close>: \<open>printint\<close> in base ten stays
  within its 16-byte buffer for every non-negative number, and \<open>atoi\<close> of the characters
  it writes is the number.
\<close>

theorem printint_atoi:
  assumes "0 \<le> sint x"
  shows "\<exists>out. printint x 10 True = Ok out \<and> atoi (lstr out) = Some x"
proof -
  have "unat x < unat (10 :: u32) ^ 10"
    using unat_u32_bound [of x] by simp
  then obtain es where es: "digit_loop 0 x 10 = Ok (map (nth digits) es)"
    "\<And>d. d \<in> set es \<Longrightarrow> d < 10" "digits_value 10 es = unat x"
    using digit_loop_spec [of x 10 10 0] by auto
  let ?out = "rev (map (nth digits) es)"
  have "printint x 10 True = Ok ?out"
    using assms by (simp add: printint_def es(1))
  moreover have "atoi (lstr ?out) = Some (fold (\<lambda>d n. n * 10 + of_nat d) (rev es) 0)"
    unfolding atoi_def
  proof (rule atoi_loop_digits)
    fix j assume j: "j < length (rev es)"
    then have "rev es ! j < 10" using es(2) nth_mem [OF j] by simp
    with j show "lstr ?out (0 + j) = of_nat (0x30 + rev es ! j)"
      by (simp add: lstr_def rev_map digits_nth)
  qed (use es(2) in \<open>auto simp: lstr_def\<close>)
  ultimately show ?thesis
    by (simp add: fold_horner es(3))
qed

theorem printint_atoi_witness:
  "\<exists>out. printint 1789 10 True = Ok out \<and> atoi (lstr out) = Some 1789"
  by (rule printint_atoi) simp


section \<open>The free list of malloc\<close>

text \<open>\<open>chain ptr p xs\<close>: following the pointers from \<open>p\<close> visits \<open>xs\<close>.\<close>

primrec chain :: "(u32 \<Rightarrow> u32) \<Rightarrow> u32 \<Rightarrow> u32 list \<Rightarrow> bool" where
  "chain ptr p [] = True"
| "chain ptr p (x # xs) = (ptr p = x \<and> chain ptr x xs)"

lemma malloc_loop_scan:
  assumes "chain (h_ptr h) prevp (xs @ [p])" "\<And>x. x \<in> set xs \<Longrightarrow> h_size h x < n \<and> x \<noteq> freep h"
    "n \<le> h_size h p"
  shows "malloc_loop sbrk n prevp (h_ptr h prevp) h = Some (carve n (last (prevp # xs)) p h)"
  using assms
proof (induction xs arbitrary: prevp)
  case Nil
  then show ?case by (subst malloc_loop.simps) simp
next
  case (Cons x xs)
  then have "\<not> n \<le> h_size h x" "x \<noteq> freep h" "h_ptr h prevp = x"
    by (auto simp: not_le)
  moreover have "malloc_loop sbrk n x (h_ptr h x) h = Some (carve n (last (x # xs)) p h)"
    using Cons by simp
  ultimately show ?case by (subst malloc_loop.simps) simp
qed

lemma malloc_scan:
  assumes "freep h \<noteq> 0" "chain (h_ptr h) (freep h) (xs @ [p])"
    "\<And>x. x \<in> set xs \<Longrightarrow> h_size h x < nunits_of nbytes \<and> x \<noteq> freep h" "nunits_of nbytes \<le> h_size h p"
  shows "malloc sbrk base nbytes h = Some (carve (nunits_of nbytes) (last (freep h # xs)) p h)"
  using malloc_loop_scan [OF assms(2-4)] assms(1) by (simp add: malloc_def Let_def)

text \<open>A block of \<open>n\<close> headers that does not run past the end of the address space.\<close>

definition fits :: "u32 \<Rightarrow> u32 \<Rightarrow> bool" where
  "fits p n \<longleftrightarrow> unat p + 8 * unat n < 2 ^ 32"

lemma unat_hadd: "fits p n \<Longrightarrow> unat (hadd p n) = unat p + 8 * unat n"
proof -
  assume f: "fits p n"
  then have "unat (8 * n) = 8 * unat n"
    by (simp add: fits_def unat_word_ariths)
  with f show ?thesis
    by (simp add: hadd_def fits_def unat_word_ariths)
qed

lemma hadd_1 [simp]: "hadd p 1 - 8 = p"
  by (simp add: hadd_def)

lemma fits_le: "fits p n \<Longrightarrow> m \<le> n \<Longrightarrow> fits p m"
  by (auto simp: fits_def word_le_nat_alt)

lemma fits_minus:
  assumes "fits p s" "n \<le> s"
  shows "unat (hadd p (s - n)) + 8 * unat n = unat p + 8 * unat s"
proof -
  have "unat (s - n) = unat s - unat n" "unat n \<le> unat s"
    using assms(2) by (auto simp: unat_sub word_le_nat_alt)
  moreover have "s - n \<le> s"
    using calculation by (simp add: word_le_nat_alt)
  ultimately show ?thesis
    using unat_hadd [OF fits_le [OF assms(1)], of "s - n"] by simp
qed

text \<open>
  C37. \<open>malloc\<close> is first fit: when \<open>p\<close> is the first block behind \<open>freep\<close> that is large
  enough, the header of the result lies in the block of \<open>p\<close>, the result has the requested
  number of units and ends where the block ended; an exact fit unlinks \<open>p\<close>, otherwise \<open>p\<close>
  keeps the rest.  Every other header is untouched.
\<close>

theorem malloc_first_fit:
  assumes "freep h \<noteq> 0" "chain (h_ptr h) (freep h) (xs @ [p])"
    "\<And>x. x \<in> set xs \<Longrightarrow> h_size h x < nunits_of nbytes \<and> x \<noteq> freep h"
    "nunits_of nbytes \<le> h_size h p" "fits p (h_size h p)"
  shows "\<exists>r h'. malloc sbrk base nbytes h = Some (r, h') \<and> h_size h' (r - 8) = nunits_of nbytes \<and>
    unat (r - 8) + 8 * unat (nunits_of nbytes) = unat p + 8 * unat (h_size h p) \<and>
    (if h_size h p = nunits_of nbytes
     then r - 8 = p \<and> h_ptr h' = (h_ptr h)(last (freep h # xs) := h_ptr h p)
     else h_size h' p = h_size h p - nunits_of nbytes \<and> h_ptr h' = h_ptr h) \<and>
    h_size h' = (h_size h)(p := h_size h' p, r - 8 := nunits_of nbytes)"
proof (cases "h_size h p = nunits_of nbytes")
  case True
  then show ?thesis
    using malloc_scan [OF assms(1-4), of sbrk base] by (simp add: carve_def fun_upd_idem)
next
  case False
  let ?n = "nunits_of nbytes" and ?s = "h_size h p"
  let ?q = "hadd p (?s - ?n)"
  have qe: "unat ?q + 8 * unat ?n = unat p + 8 * unat ?s"
    using fits_minus assms(4,5) by blast
  have "unat ?n < unat ?s"
    using False assms(4) by (metis le_neq_implies_less word_le_nat_alt word_unat_eq_iff)
  then have "unat p < unat ?q" using qe by linarith
  then have "p \<noteq> ?q" by auto
  then show ?thesis
    using malloc_scan [OF assms(1-4), of sbrk base] False qe by (simp add: carve_def Let_def)
qed


text \<open>A heap with one free block of 4096 units behind the static header.\<close>

definition sample_heap :: "unit uheap" where
  "sample_heap = \<lparr>h_ptr = (\<lambda>p. if p = 0x1000 then 0x4000 else 0x1000),
     h_size = (\<lambda>p. if p = 0x4000 then 4096 else 0), freep = 0x1000, u_os = ()\<rparr>"

theorem malloc_first_fit_witness:
  "\<exists>r h'. malloc (\<lambda>n s. (- 1, s)) 0x1000 100 sample_heap = Some (r, h') \<and> h_size h' (r - 8) = nunits_of 100 \<and>
    unat (r - 8) + 8 * unat (nunits_of 100) = unat (0x4000 :: u32) + 8 * unat (h_size sample_heap 0x4000) \<and>
    (if h_size sample_heap 0x4000 = nunits_of 100
     then r - 8 = 0x4000 \<and> h_ptr h' = (h_ptr sample_heap)(last (freep sample_heap # []) := h_ptr sample_heap 0x4000)
     else h_size h' 0x4000 = h_size sample_heap 0x4000 - nunits_of 100 \<and> h_ptr h' = h_ptr sample_heap) \<and>
    h_size h' = (h_size sample_heap)(0x4000 := h_size h' 0x4000, r - 8 := nunits_of 100)"
  by (rule malloc_first_fit)
    (simp_all add: sample_heap_def nunits_of_def fits_def)

lemma chain_last: "chain ptr v (xs @ [p]) \<Longrightarrow> ptr (last (v # xs)) = p"
  by (induction xs arbitrary: v) auto

lemma carve_free:
  assumes n: "n < h_size h p" and f: "fits p (h_size h p)" and v: "v < p" "h_ptr h v = p"
    and gap: "h_ptr h p \<le> p \<or> hadd p (h_size h p) < h_ptr h p" and c: "carve n v p h = (r, h1)"
  shows "\<exists>h2. free r h1 = Some h2 \<and> h_size h2 p = h_size h p \<and> h_ptr h2 p = h_ptr h p \<and>
    (\<forall>q. q \<noteq> p \<longrightarrow> q \<noteq> r - 8 \<longrightarrow> h_size h2 q = h_size h q \<and> h_ptr h2 q = h_ptr h q)"
proof -
  let ?s = "h_size h p"
  let ?q = "hadd p (?s - n)"
  have qe: "unat ?q + 8 * unat n = unat p + 8 * unat ?s"
    using fits_minus n f by (simp add: less_imp_le)
  have nn: "unat n < unat ?s" using n by (simp add: word_less_nat_alt)
  then have pq: "p < ?q" using qe by (simp add: word_less_nat_alt)
  have "fits ?q n" using qe f by (simp add: fits_def)
  then have top: "hadd ?q n = hadd p ?s"
    using unat_hadd [of ?q n] unat_hadd [OF f] qe by (simp add: word_unat_eq_iff)
  have ptop: "?q \<le> hadd p ?s" "p < hadd p ?s"
    using unat_hadd [OF f] qe nn by (simp_all add: word_less_nat_alt word_le_nat_alt)
  then have apart: "hadd ?q n \<noteq> h_ptr h p" unfolding top using gap by auto
  have rh: "r = hadd ?q 1" "h1 = h\<lparr>h_size := (h_size h)(p := ?s - n, ?q := n), freep := v\<rparr>"
    using c less_imp_neq [OF n] by (auto simp: carve_def Let_def)
  have "free_scan (h_ptr h) ?q p = Some p"
    using pq gap ptop by (subst free_scan.simps) auto
  then have "free_scan (h_ptr h) ?q v = Some p"
    using v pq by (subst free_scan.simps) auto
  then have "free r h1 = Some (free_at ?q p h1)"
    by (simp add: free_def rh Let_def)
  moreover have "free_at ?q p h1 =
      h\<lparr>h_size := (h_size h)(?q := n, p := ?s), h_ptr := (h_ptr h)(?q := h_ptr h p, p := h_ptr h p), freep := p\<rparr>"
    using pq apart by (simp add: free_at_def rh Let_def fun_upd_twist)
  ultimately show ?thesis
    using pq by (simp add: rh)
qed

text \<open>
  C38. Freeing what \<open>malloc\<close> split off a block joins it again: in a list in address order
  whose neighbouring blocks do not touch, \<open>free\<close> of the result finds the block it came
  from, gives it its old size back and leaves the list as it was.
\<close>

theorem malloc_free_restores:
  assumes "freep h \<noteq> 0" "chain (h_ptr h) (freep h) (xs @ [p])"
    "\<And>x. x \<in> set xs \<Longrightarrow> h_size h x < nunits_of nbytes \<and> x \<noteq> freep h"
    "nunits_of nbytes < h_size h p" "fits p (h_size h p)"
    "last (freep h # xs) < p" "h_ptr h p \<le> p \<or> hadd p (h_size h p) < h_ptr h p"
  shows "\<exists>r h1 h2. malloc sbrk base nbytes h = Some (r, h1) \<and> free r h1 = Some h2 \<and>
    h_size h2 p = h_size h p \<and> h_ptr h2 p = h_ptr h p \<and>
    (\<forall>q. q \<noteq> p \<longrightarrow> q \<noteq> r - 8 \<longrightarrow> h_size h2 q = h_size h q \<and> h_ptr h2 q = h_ptr h q)"
proof -
  obtain r h1 where c: "carve (nunits_of nbytes) (last (freep h # xs)) p h = (r, h1)"
    by (cases "carve (nunits_of nbytes) (last (freep h # xs)) p h")
  have "malloc sbrk base nbytes h = Some (r, h1)"
    using malloc_scan [OF assms(1-3) less_imp_le [OF assms(4)], of sbrk base] unfolding c .
  then show ?thesis
    using carve_free [OF assms(4-6) chain_last [OF assms(2)] assms(7) c] by blast
qed

theorem malloc_free_restores_witness:
  "\<exists>r h1 h2. malloc (\<lambda>n s. (- 1, s)) 0x1000 100 sample_heap = Some (r, h1) \<and> free r h1 = Some h2 \<and>
    h_size h2 0x4000 = 4096 \<and> h_ptr h2 0x4000 = 0x1000"
proof -
  have "\<exists>r h1 h2. malloc (\<lambda>n s. (- 1, s)) 0x1000 100 sample_heap = Some (r, h1) \<and> free r h1 = Some h2 \<and>
    h_size h2 0x4000 = h_size sample_heap 0x4000 \<and> h_ptr h2 0x4000 = h_ptr sample_heap 0x4000 \<and>
    (\<forall>q. q \<noteq> 0x4000 \<longrightarrow> q \<noteq> r - 8 \<longrightarrow> h_size h2 q = h_size sample_heap q \<and> h_ptr h2 q = h_ptr sample_heap q)"
    by (rule malloc_free_restores [of sample_heap "[]"])
      (simp_all add: sample_heap_def nunits_of_def fits_def)
  then show ?thesis by (auto simp: sample_heap_def)
qed

text \<open>
  C39. The size computation of \<open>malloc\<close> wraps around: the units it asks for hold the
  requested bytes behind the header exactly when the request is at most \<open>2 ^ 32 - 8\<close>, and a
  larger request gets, like a request for nothing, a block of one header with no room at
  all.
\<close>

theorem malloc_units_wrap:
  "(unat nbytes \<le> 8 * (unat (nunits_of nbytes) - 1)) = (nbytes \<le> 0xFFFFFFF8) \<and>
   (nunits_of nbytes = 1) = (nbytes = 0 \<or> 0xFFFFFFF8 < nbytes)"
proof -
  let ?b = "unat nbytes"
  have b: "?b < 2 ^ 32" by (rule unat_u32_bound)
  have w7: "unat (nbytes + 7) = (?b + 7) mod 2 ^ 32"
    by (simp add: unat_word_ariths)
  have small: "unat ((nbytes + 7) div 8) + unat (1 :: u32) < 2 ^ LENGTH(32)"
    by (simp add: unat_div w7 less_mult_imp_div_less)
  have e: "nunits_of nbytes = (nbytes + 7) div 8 + 1"
    by (simp add: nunits_of_def add.commute)
  have u: "unat (nunits_of nbytes) = (?b + 7) mod 2 ^ 32 div 8 + 1"
    unfolding e unat_add_no_wrap [OF small] unat_div w7 by simp
  have le: "nbytes \<le> 0xFFFFFFF8 \<longleftrightarrow> ?b \<le> 2 ^ 32 - 8"
    by (simp add: word_le_nat_alt)
  show ?thesis
  proof (cases "nbytes \<le> 0xFFFFFFF8")
    case True
    then have "(?b + 7) mod 2 ^ 32 = ?b + 7" using le by simp
    then have u: "unat (nunits_of nbytes) = (?b + 7) div 8 + 1" using u by simp
    moreover have "nunits_of nbytes = 1 \<longleftrightarrow> unat (nunits_of nbytes) = 1" "nbytes = 0 \<longleftrightarrow> ?b = 0"
      by (simp_all add: word_unat_eq_iff)
    ultimately show ?thesis using True by auto
  next
    case False
    then have "(?b + 7) mod 2 ^ 32 = ?b + 7 - 2 ^ 32" "?b + 7 - 2 ^ 32 < 8"
      using le b by (auto simp: mod_if)
    then have "unat (nunits_of nbytes) = 1" using u by simp
    then have "nunits_of nbytes = 1" by (simp add: word_unat_eq_iff)
    then show ?thesis using False le by auto
  qed
qed

end
