(* ===== verification/Xv6_Sh.thy ===== *)
theory Xv6_Sh
  imports Xv6_Ulib
begin

text \<open>
  The shell, \<^verbatim>\<open>sh.c\<close>: the tokenizer, the recursive-descent parser, \<open>nulterminate\<close> and
  the command interpreter.

  The command line is the list \<open>b\<close> of its bytes without the final NUL; a \<open>char\<close> pointer
  into it is the index, \<open>es\<close> is \<open>length b\<close>, and reading at \<open>es\<close> gives the NUL.  The four
  mutually recursive parsing functions take a bound on their recursion depth, which the
  termination theorem shows to be enough for every command line.  Storage for the syntax
  tree is assumed to be available.
\<close>

section \<open>Commands\<close>

definition MAXARGS :: nat where "MAXARGS = 10"

definition O_RDONLY_sh :: u32 where "O_RDONLY_sh = 0"
definition O_WRONLY_CREATE :: u32 where "O_WRONLY_CREATE = 0x201"

datatype cmd =
    EXEC "(nat \<times> nat) list"
  | REDIR cmd nat nat u32 nat
  | PIPE cmd cmd
  | LIST cmd cmd
  | BACK cmd

text \<open>The constructor functions: a zero-filled node with its fields set.\<close>

definition execcmd :: cmd where
  [simp]: "execcmd = EXEC []"

definition redircmd :: "cmd \<Rightarrow> nat \<Rightarrow> nat \<Rightarrow> u32 \<Rightarrow> nat \<Rightarrow> cmd" where
  [simp]: "redircmd subcmd file efile mode fd = REDIR subcmd file efile mode fd"

definition pipecmd :: "cmd \<Rightarrow> cmd \<Rightarrow> cmd" where
  [simp]: "pipecmd left right = PIPE left right"

definition listcmd :: "cmd \<Rightarrow> cmd \<Rightarrow> cmd" where
  [simp]: "listcmd left right = LIST left right"

definition backcmd :: "cmd \<Rightarrow> cmd" where
  [simp]: "backcmd subcmd = BACK subcmd"

section \<open>Tokens\<close>

definition whitespace :: "u8 set" where "whitespace = {0x20, 0x09, 0x0D, 0x0A, 0x0B}"

definition symbols :: "u8 set" where "symbols = {0x3C, 0x7C, 0x3E, 0x26, 0x3B, 0x28, 0x29}"

definition ch :: "u8 list \<Rightarrow> nat \<Rightarrow> u8" where
  "ch b i = (if i < length b then b ! i else 0)"

text \<open>The loops over a run of characters that satisfy a condition.\<close>

function skip :: "(u8 \<Rightarrow> bool) \<Rightarrow> u8 list \<Rightarrow> nat \<Rightarrow> nat" where
  "skip P b s = (if s < length b \<and> P (b ! s) then skip P b (Suc s) else s)"
  by pat_completeness auto
termination by (relation "measure (\<lambda>(P, b, s). length b - s)") auto

declare skip.simps [simp del]

definition skip_ws :: "u8 list \<Rightarrow> nat \<Rightarrow> nat" where
  "skip_ws b s = skip (\<lambda>c. c \<in> whitespace) b s"

definition word_char :: "u8 \<Rightarrow> bool" where
  "word_char c \<longleftrightarrow> c \<notin> whitespace \<and> c \<notin> symbols"

datatype tok = T_end | T_sym u8 | T_append | T_word

text \<open>The token, its start \<open>q\<close> and end \<open>eq\<close>, and the position behind it.\<close>

definition gettoken :: "u8 list \<Rightarrow> nat \<Rightarrow> tok \<times> nat \<times> nat \<times> nat" where
  "gettoken b s =
     (let q = skip_ws b s; c = ch b q;
          (ret, s) =
            (if c = 0 then (T_end, q)
             else if c \<in> {0x7C, 0x28, 0x29, 0x3B, 0x26, 0x3C} then (T_sym c, Suc q)
             else if c = 0x3E
             then (if ch b (Suc q) = 0x3E then (T_append, Suc (Suc q)) else (T_sym c, Suc q))
             else (T_word, skip word_char b q))
      in (ret, q, s, skip_ws b s))"

definition after_token :: "u8 list \<Rightarrow> nat \<Rightarrow> nat" where
  "after_token b s = snd (snd (snd (gettoken b s)))"

text \<open>The position \<open>*ps\<close> afterwards, and whether one of the characters is next.\<close>

definition peek :: "u8 list \<Rightarrow> nat \<Rightarrow> u8 set \<Rightarrow> nat \<times> bool" where
  "peek b s toks = (let s = skip_ws b s in (s, ch b s \<noteq> 0 \<and> ch b s \<in> toks))"

section \<open>Positions move forward\<close>

lemma skip_bounds: "s \<le> skip P b s \<and> (s \<le> length b \<longrightarrow> skip P b s \<le> length b)"
proof (induction P b s rule: skip.induct)
  case (1 P b s)
  then show ?case by (subst (1 2) skip.simps) auto
qed

lemma skip_all:
  "s \<le> j \<Longrightarrow> j < skip P b s \<Longrightarrow> j < length b \<and> P (b ! j)"
proof (induction P b s rule: skip.induct)
  case (1 P b s)
  then show ?case by (cases "j = s") (auto simp: skip.simps [of P b s] split: if_splits)
qed

lemma skip_stop: "\<not> (skip P b s < length b \<and> P (b ! skip P b s))"
proof (induction P b s rule: skip.induct)
  case (1 P b s)
  then show ?case by (cases "s < length b \<and> P (b ! s)") (auto simp: skip.simps [of P b s])
qed

lemma skip_moves: "s < length b \<Longrightarrow> P (b ! s) \<Longrightarrow> s < skip P b s"
  using skip_bounds [of "Suc s" P b] by (simp add: skip.simps [of P b s])

lemmas skip_ws_bounds = skip_bounds [of _ "\<lambda>c. c \<in> whitespace", folded skip_ws_def]

lemma ch_in: "ch b s \<noteq> 0 \<Longrightarrow> s < length b"
  by (simp add: ch_def split: if_splits)

lemma gettoken_word:
  assumes "gettoken b s = (T_word, q, e, s')"
  shows "q < e \<and> e \<le> length b \<and> (\<forall>j. q \<le> j \<and> j < e \<longrightarrow> word_char (b ! j)) \<and>
    (e < length b \<longrightarrow> \<not> word_char (b ! e))"
proof -
  have q: "q = skip_ws b s" and e: "e = skip word_char b q" and c: "ch b q \<noteq> 0" "ch b q \<notin> symbols"
    using assms by (auto simp: gettoken_def Let_def symbols_def split: if_splits)
  have "q < length b" using c ch_in by blast
  moreover have "b ! q \<notin> whitespace"
    using skip_stop [of "\<lambda>c. c \<in> whitespace" b s] calculation by (simp add: q skip_ws_def)
  ultimately have "q < e"
    unfolding e using c by (intro skip_moves) (auto simp: word_char_def ch_def)
  moreover have "e \<le> length b" unfolding e using skip_bounds \<open>q < length b\<close> by (meson less_imp_le)
  ultimately show ?thesis
    using skip_all [of q _ word_char b] skip_stop [of word_char b q] e by auto
qed

lemma gettoken_bounds:
  assumes "gettoken b s = (t, q, e, s')" "s \<le> length b"
  shows "s \<le> s' \<and> s' \<le> length b \<and> (t \<noteq> T_end \<longrightarrow> s < s')"
proof -
  let ?q = "skip_ws b s"
  have q: "s \<le> ?q" "?q \<le> length b" using skip_ws_bounds assms(2) by blast+
  have step: "?q \<le> e \<and> e \<le> length b \<and> (t \<noteq> T_end \<longrightarrow> ?q < e) \<and> s' = skip_ws b e"
  proof (cases "t = T_word")
    case True
    then have "q < e \<and> e \<le> length b" using gettoken_word assms(1) by blast
    with assms(1) show ?thesis by (auto simp: gettoken_def Let_def split: prod.splits)
  next
    case False
    have "ch b ?q \<noteq> 0 \<Longrightarrow> ?q < length b" "ch b (Suc ?q) = 0x3E \<Longrightarrow> Suc ?q < length b"
      using ch_in [of b ?q] ch_in [of b "Suc ?q"] by auto
    with assms(1) False q show ?thesis
      by (auto simp: gettoken_def Let_def Suc_le_eq split: if_splits)
  qed
  moreover have "e \<le> s'" "s' \<le> length b" using step skip_ws_bounds by metis+
  ultimately show ?thesis using q(1) by auto
qed

lemma peek_bounds:
  assumes "peek b s toks = (s', r)" "s \<le> length b"
  shows "s \<le> s' \<and> s' \<le> length b \<and> (r \<longrightarrow> s' < length b)"
  using assms skip_ws_bounds [of s b] ch_in [of b "skip_ws b s"] by (auto simp: peek_def Let_def)


section \<open>The parser\<close>

definition redir_of :: "tok \<Rightarrow> cmd \<Rightarrow> nat \<Rightarrow> nat \<Rightarrow> cmd" where
  \<comment> \<open>the \<open>switch\<close> of \<open>parseredirs\<close>\<close>
  "redir_of t cmd q e =
     (if t = T_sym 0x3C then redircmd cmd q e O_RDONLY_sh 0
      else if t = T_sym 0x3E \<or> t = T_append then redircmd cmd q e O_WRONLY_CREATE 1
      else cmd)"

lemma peek_next:
  assumes "snd (peek b s toks)"
  shows "s \<le> fst (peek b s toks)" "fst (peek b s toks) < length b" "ch b (fst (peek b s toks)) \<in> toks"
    "ch b (fst (peek b s toks)) \<noteq> 0"
  using assms skip_ws_bounds [of s b] ch_in [of b "skip_ws b s"] by (auto simp: peek_def Let_def)

lemma after_token_bounds:
  assumes "s \<le> length b"
  shows "s \<le> after_token b s" "after_token b s \<le> length b"
  using gettoken_bounds [OF _ assms] unfolding after_token_def by (metis prod.collapse)+

lemma after_token_moves:
  assumes "s \<le> length b" "fst (gettoken b s) \<noteq> T_end"
  shows "s < after_token b s"
  using gettoken_bounds [OF _ assms(1)] assms(2) unfolding after_token_def by (metis prod.collapse)

lemma skip_ws_peek: "skip_ws b (fst (peek b s toks)) = fst (peek b s toks)"
  using skip_stop [of "\<lambda>c. c \<in> whitespace" b s] unfolding peek_def Let_def skip_ws_def
  by (subst skip.simps) auto

lemma peek_token:
  assumes "snd (peek b s toks)"
  shows "fst (gettoken b (fst (peek b s toks))) \<noteq> T_end"
  using peek_next(4) [OF assms] by (auto simp: gettoken_def Let_def skip_ws_peek split: prod.splits if_splits)

lemma after_peek_moves:
  assumes "snd (peek b s toks)"
  shows "s < after_token b (fst (peek b s toks))" "after_token b (fst (peek b s toks)) \<le> length b"
  using after_token_moves [OF _ peek_token [OF assms]] after_token_bounds(2) [of "fst (peek b s toks)" b]
    peek_next(1,2) [OF assms] by auto

function parseredirs :: "u8 list \<Rightarrow> cmd \<Rightarrow> nat \<Rightarrow> (cmd \<times> nat) res" where
  "parseredirs b cmd s =
     (let p = peek b s {0x3C, 0x3E}
      in if \<not> snd p then Ok (cmd, fst p)
         else let g = gettoken b (fst p); s1 = after_token b (fst p); w = gettoken b s1
              in if fst w \<noteq> T_word then Fail (Panic ''missing file for redirection'')
                 else parseredirs b (redir_of (fst g) cmd (fst (snd w)) (fst (snd (snd w)))) (after_token b s1))"
  by pat_completeness auto
termination
proof (relation "measure (\<lambda>(b, cmd, s). length b - s)", goal_cases)
  case 1
  show ?case by simp
next
  case (2 b cmd s p g s1 w)
  then have "snd (peek b s {0x3C, 0x3E})" and s1: "s1 = after_token b (fst (peek b s {0x3C, 0x3E}))" by simp_all
  from after_peek_moves [OF this(1), folded s1] after_token_bounds [of s1 b] show ?case by auto
qed

declare parseredirs.simps [simp del]

function back_loop :: "u8 list \<Rightarrow> cmd \<Rightarrow> nat \<Rightarrow> cmd \<times> nat" where
  \<comment> \<open>\<open>while(peek(ps, es, "&"))\<close> in \<open>parseline\<close>\<close>
  "back_loop b cmd s =
     (let p = peek b s {0x26}
      in if snd p then back_loop b (backcmd cmd) (after_token b (fst p)) else (cmd, fst p))"
  by pat_completeness auto
termination
proof (relation "measure (\<lambda>(b, cmd, s). length b - s)", goal_cases)
  case 1
  show ?case by simp
next
  case (2 b cmd s p)
  then show ?case using after_peek_moves [of b s "{0x26}"] by auto
qed

declare back_loop.simps [simp del]

text \<open>
  \<open>parseexec\<close> fills the argument arrays of the \<open>execcmd\<close> node while redirection nodes are
  wrapped around it; \<open>set_argv\<close> is the assignment to the innermost node of the chain.
\<close>

fun set_argv :: "cmd \<Rightarrow> (nat \<times> nat) list \<Rightarrow> cmd" where
  "set_argv (REDIR c q e mode fd) args = REDIR (set_argv c args) q e mode fd"
| "set_argv c args = EXEC args"

function args_loop :: "u8 list \<Rightarrow> cmd \<Rightarrow> (nat \<times> nat) list \<Rightarrow> nat \<Rightarrow> (cmd \<times> nat) res" where
  "args_loop b ret args s =
     (let p = peek b s {0x7C, 0x29, 0x26, 0x3B}
      in if snd p then Ok (set_argv ret args, fst p)
         else let g = gettoken b (fst p); s1 = after_token b (fst p)
              in if fst g = T_end then Ok (set_argv ret args, s1)
                 else if fst g \<noteq> T_word then Fail (Panic ''syntax'')
                 else let args = args @ [(fst (snd g), fst (snd (snd g)))]
                      in if MAXARGS \<le> length args then Fail (Panic ''too many args'')
                         else bindr (parseredirs b ret s1) (\<lambda>r. args_loop b (fst r) args (snd r)))"
  by pat_completeness auto
termination
  by (relation "measure (\<lambda>(b, ret, args, s). MAXARGS - length args)") auto

declare args_loop.simps [simp del]

fun parseline :: "nat \<Rightarrow> u8 list \<Rightarrow> nat \<Rightarrow> (cmd \<times> nat) res"
  and parsepipe :: "nat \<Rightarrow> u8 list \<Rightarrow> nat \<Rightarrow> (cmd \<times> nat) res"
  and parseexec :: "nat \<Rightarrow> u8 list \<Rightarrow> nat \<Rightarrow> (cmd \<times> nat) res"
  and parseblock :: "nat \<Rightarrow> u8 list \<Rightarrow> nat \<Rightarrow> (cmd \<times> nat) res" where
  "parseline 0 b s = Fail NoFuel"
| "parseline (Suc n) b s =
     bindr (parsepipe n b s) (\<lambda>r.
       let r = back_loop b (fst r) (snd r); p = peek b (snd r) {0x3B}
       in if snd p
          then bindr (parseline n b (after_token b (fst p))) (\<lambda>r'. Ok (listcmd (fst r) (fst r'), snd r'))
          else Ok (fst r, fst p))"
| "parsepipe 0 b s = Fail NoFuel"
| "parsepipe (Suc n) b s =
     bindr (parseexec n b s) (\<lambda>r.
       let p = peek b (snd r) {0x7C}
       in if snd p
          then bindr (parsepipe n b (after_token b (fst p))) (\<lambda>r'. Ok (pipecmd (fst r) (fst r'), snd r'))
          else Ok (fst r, fst p))"
| "parseexec 0 b s = Fail NoFuel"
| "parseexec (Suc n) b s =
     (let p = peek b s {0x28}
      in if snd p then parseblock n b (fst p)
         else bindr (parseredirs b execcmd (fst p)) (\<lambda>r. args_loop b (fst r) [] (snd r)))"
| "parseblock 0 b s = Fail NoFuel"
| "parseblock (Suc n) b s =
     (let p = peek b s {0x28}
      in if \<not> snd p then Fail (Panic ''parseblock'')
         else bindr (parseline n b (after_token b (fst p))) (\<lambda>r.
                let p = peek b (snd r) {0x29}
                in if \<not> snd p then Fail (Panic ''syntax - missing )'')
                   else parseredirs b (fst r) (after_token b (fst p))))"

text \<open>The recursion depth that the length of the command line allows.\<close>

definition parse_depth :: "u8 list \<Rightarrow> nat" where
  "parse_depth b = 4 * length b + 4"

text \<open>\<open>nulterminate\<close> stores a NUL behind every word of the tree.\<close>

primrec nulterminate :: "cmd \<Rightarrow> u8 list \<Rightarrow> u8 list" where
  "nulterminate (EXEC args) buf = fold (\<lambda>(q, e) buf. buf[e := 0]) args buf"
| "nulterminate (REDIR c q e mode fd) buf = (nulterminate c buf)[e := 0]"
| "nulterminate (PIPE l r) buf = nulterminate r (nulterminate l buf)"
| "nulterminate (LIST l r) buf = nulterminate r (nulterminate l buf)"
| "nulterminate (BACK c) buf = nulterminate c buf"

text \<open>The tree, and the buffer (with its final NUL) that its pointers point into.\<close>

definition parsecmd :: "u8 list \<Rightarrow> (cmd \<times> u8 list) res" where
  "parsecmd b =
     bindr (parseline (parse_depth b) b 0) (\<lambda>r.
       let s = fst (peek b (snd r) {})
       in if s \<noteq> length b then Fail (Panic ''syntax'')
          else Ok (fst r, nulterminate (fst r) (b @ [0])))"


text \<open>The C string at position \<open>q\<close> of a buffer.\<close>

definition string_at :: "u8 list \<Rightarrow> nat \<Rightarrow> u8 list" where
  "string_at buf q = takeWhile (\<lambda>c. c \<noteq> 0) (drop q buf)"

section \<open>Running a command\<close>

text \<open>
  The descriptor table of a shell process: what each descriptor refers to.  A pipe is named
  by the position of its command in the tree.  \<open>open\<close>, \<open>dup\<close> and \<open>pipe\<close> take the lowest free
  descriptors.
\<close>

datatype obj = Console | Disk "u8 list" u32 | PipeR "bool list" | PipeW "bool list"

type_synonym fdtab = "obj option list"

definition fd_close :: "nat \<Rightarrow> fdtab \<Rightarrow> fdtab" where
  "fd_close fd t = t[fd := None]"

primrec fd_free :: "fdtab \<Rightarrow> nat option" where
  "fd_free [] = None"
| "fd_free (x # t) = (if x = None then Some 0 else map_option Suc (fd_free t))"

definition fd_new :: "obj \<Rightarrow> fdtab \<Rightarrow> (nat \<times> fdtab) option" where
  "fd_new x t = map_option (\<lambda>fd. (fd, t[fd := Some x])) (fd_free t)"

definition fd_dup :: "nat \<Rightarrow> fdtab \<Rightarrow> fdtab" where
  "fd_dup fd t =
     (if fd < length t then
        case t ! fd of None \<Rightarrow> t | Some x \<Rightarrow> (case fd_new x t of None \<Rightarrow> t | Some r \<Rightarrow> snd r)
      else t)"

text \<open>
  What a process does: execute a program with its arguments and descriptors, exit, print a
  message and exit, fork a child and go on, wait for a child and go on.
\<close>

datatype job =
    Prog "u8 list list" fdtab
  | Exit
  | Fatal string
  | Spawn job job
  | Wait fdtab job

text \<open>
  \<open>opens\<close> says whether \<open>open\<close> of a file succeeds and \<open>forks\<close> whether \<open>fork\<close> succeeds for the
  child at a position of the tree; \<open>at\<close> is the position of the command.
\<close>

primrec runcmd ::
  "(u8 list \<Rightarrow> u32 \<Rightarrow> bool) \<Rightarrow> (bool list \<Rightarrow> bool) \<Rightarrow> u8 list \<Rightarrow> cmd \<Rightarrow> bool list \<Rightarrow> fdtab \<Rightarrow> job" where
  "runcmd opens forks buf (EXEC args) at t =
     (if args = [] then Exit else Prog (map (\<lambda>w. string_at buf (fst w)) args) t)"
| "runcmd opens forks buf (REDIR c q e mode fd) at t =
     (let file = string_at buf q; t = fd_close fd t
      in if \<not> opens file mode then Fatal ''open failed''
         else case fd_new (Disk file mode) t of
                None \<Rightarrow> Fatal ''open failed''
              | Some (fd', t) \<Rightarrow> runcmd opens forks buf c at t)"
| "runcmd opens forks buf (LIST l r) at t =
     (if \<not> forks (at @ [True]) then Fatal ''fork''
      else Spawn (runcmd opens forks buf l (at @ [True]) t)
             (Wait t (runcmd opens forks buf r (at @ [False]) t)))"
| "runcmd opens forks buf (PIPE l r) at t =
     (case fd_new (PipeR at) t of
        None \<Rightarrow> Fatal ''pipe''
      | Some (p0, t0) \<Rightarrow>
          (case fd_new (PipeW at) t0 of
             None \<Rightarrow> Fatal ''pipe''
           | Some (p1, t1) \<Rightarrow>
               (let left = fd_close p1 (fd_close p0 (fd_dup p1 (fd_close 1 t1)));
                    right = fd_close p1 (fd_close p0 (fd_dup p0 (fd_close 0 t1)));
                    parent = fd_close p1 (fd_close p0 t1)
                in if \<not> forks (at @ [True]) then Fatal ''fork''
                   else Spawn (runcmd opens forks buf l (at @ [True]) left)
                          (if \<not> forks (at @ [False]) then Fatal ''fork''
                           else Spawn (runcmd opens forks buf r (at @ [False]) right)
                                  (Wait parent (Wait parent Exit))))))"
| "runcmd opens forks buf (BACK c) at t =
     (if \<not> forks (at @ [True]) then Fatal ''fork''
      else Spawn (runcmd opens forks buf c (at @ [True]) t) Exit)"

section \<open>The main loop\<close>

text \<open>
  What the shell does with one line: change its own directory, or parse and run the line in
  a child.  \<open>getcmd\<close> reads at most 99 characters, and an empty string ends the shell.
\<close>

datatype line_action = Chdir "u8 list" | Run "(cmd \<times> u8 list) res"

definition cstring_of :: "u8 list \<Rightarrow> u8 list" where
  "cstring_of xs = takeWhile (\<lambda>c. c \<noteq> 0) xs"

definition line_action :: "u8 list \<Rightarrow> line_action" where
  "line_action b =
     (if take 3 b = [0x63, 0x64, 0x20] then Chdir (drop 3 (butlast b)) else Run (parsecmd b))"

definition getcmd :: "u8 list \<Rightarrow> (u8 list \<times> u8 list) option" where
  "getcmd input =
     (let r = gets 100 input; b = cstring_of (fst r) in if b = [] then None else Some (b, snd r))"

lemma gets_loop_length: "length (fst (gets_loop n xs)) + length (snd (gets_loop n xs)) = length xs"
  by (induction n xs rule: gets_loop.induct) (auto simp: Let_def)

lemma getcmd_shorter: "getcmd input = Some (b, rest) \<Longrightarrow> length rest < length input"
  using gets_loop_length [of 99 input]
  by (auto simp: getcmd_def gets_def Let_def cstring_of_def split: if_splits)
    (metis add_cancel_left_left le_add2 length_0_conv nat_less_le takeWhile.simps(1))

function sh_main :: "u8 list \<Rightarrow> line_action list" where
  "sh_main input =
     (case getcmd input of None \<Rightarrow> [] | Some r \<Rightarrow> line_action (fst r) # sh_main (snd r))"
  by pat_completeness auto
termination
  by (relation "measure length") (auto dest: getcmd_shorter)

declare sh_main.simps [simp del]

section \<open>What the parser returns\<close>

primrec words :: "cmd \<Rightarrow> (nat \<times> nat) set" where
  "words (EXEC args) = set args"
| "words (REDIR c q e mode fd) = insert (q, e) (words c)"
| "words (PIPE l r) = words l \<union> words r"
| "words (LIST l r) = words l \<union> words r"
| "words (BACK c) = words c"

text \<open>
  \<open>word_at b (q, e)\<close>: the characters from \<open>q\<close> up to \<open>e\<close> are a maximal run of word
  characters to the right.
\<close>

definition word_at :: "u8 list \<Rightarrow> nat \<times> nat \<Rightarrow> bool" where
  "word_at b w \<longleftrightarrow> fst w < snd w \<and> snd w \<le> length b \<and>
     (\<forall>j. fst w \<le> j \<and> j < snd w \<longrightarrow> word_char (b ! j)) \<and> (snd w < length b \<longrightarrow> \<not> word_char (b ! snd w))"

definition parsed :: "u8 list \<Rightarrow> nat \<Rightarrow> cmd \<times> nat \<Rightarrow> bool" where
  "parsed b s r \<longleftrightarrow> s \<le> snd r \<and> snd r \<le> length b \<and> (\<forall>w\<in>words (fst r). word_at b w)"

lemma parsed_mono: "parsed b s' r \<Longrightarrow> s \<le> s' \<Longrightarrow> parsed b s r"
  by (auto simp: parsed_def)

lemma peek_fst_bounds: "s \<le> length b \<Longrightarrow> s \<le> fst (peek b s toks) \<and> fst (peek b s toks) \<le> length b"
  using skip_ws_bounds [of s b] by (simp add: peek_def Let_def)

lemma gettoken_word_at:
  "fst (gettoken b s) = T_word \<Longrightarrow> word_at b (fst (snd (gettoken b s)), fst (snd (snd (gettoken b s))))"
  using gettoken_word [of b s] by (cases "gettoken b s") (auto simp: word_at_def)

lemma parsed_redir:
  "\<forall>w\<in>words c. word_at b w \<Longrightarrow> word_at b (q, e) \<Longrightarrow> \<forall>w\<in>words (redir_of t c q e). word_at b w"
  by (simp add: redir_of_def)

lemma parseredirs_parsed:
  assumes "s \<le> length b" "\<forall>w\<in>words cmd. word_at b w"
  shows "parseredirs b cmd s \<noteq> Fail NoFuel \<and> (\<forall>r. parseredirs b cmd s = Ok r \<longrightarrow> parsed b s r)"
  using assms
proof (induction b cmd s rule: parseredirs.induct)
  case (1 b cmd s)
  let ?p = "peek b s {0x3C, 0x3E}"
  let ?s1 = "after_token b (fst ?p)"
  let ?w = "gettoken b ?s1"
  show ?case
  proof (cases "snd ?p \<and> fst ?w = T_word")
    case False
    with peek_fst_bounds [OF 1(2)] 1(3) show ?thesis
      by (subst (1 2) parseredirs.simps) (auto simp: Let_def parsed_def)
  next
    case True
    note m = after_peek_moves [OF True [THEN conjunct1]]
    let ?c = "redir_of (fst (gettoken b (fst ?p))) cmd (fst (snd ?w)) (fst (snd (snd ?w)))"
    let ?s2 = "after_token b ?s1"
    have s2: "?s1 \<le> ?s2" "?s2 \<le> length b" using after_token_bounds [OF m(2)] .
    have "parseredirs b cmd s = parseredirs b ?c ?s2"
      using True by (subst parseredirs.simps) (simp add: Let_def)
    moreover have "parseredirs b ?c ?s2 \<noteq> Fail NoFuel \<and> (\<forall>r. parseredirs b ?c ?s2 = Ok r \<longrightarrow> parsed b ?s2 r)"
      using True 1(3) s2 gettoken_word_at [of b ?s1]
      by (intro 1(1) parsed_redir refl) auto
    moreover have "s \<le> ?s2" using m(1) s2(1) by simp
    ultimately show ?thesis
      by (simp only:) (blast intro: parsed_mono)
  qed
qed

lemma back_loop_parsed:
  assumes "parsed b s0 (cmd, s)"
  shows "parsed b s0 (back_loop b cmd s)"
  using assms
proof (induction b cmd s rule: back_loop.induct)
  case (1 b cmd s)
  show ?case
    using 1 peek_fst_bounds [of s b "{0x26}"] after_peek_moves [of b s "{0x26}"]
    by (subst back_loop.simps) (auto simp: Let_def parsed_def)
qed

lemma words_set_argv: "words (set_argv c args) \<subseteq> words c \<union> set args"
  by (induction c args rule: set_argv.induct) auto

lemma args_loop_parsed:
  assumes "s \<le> length b" "\<forall>w\<in>words ret. word_at b w" "\<forall>w\<in>set args. word_at b w"
  shows "args_loop b ret args s \<noteq> Fail NoFuel \<and> (\<forall>r. args_loop b ret args s = Ok r \<longrightarrow> parsed b s r)"
  using assms
proof (induction b ret args s rule: args_loop.induct)
  case (1 b ret args s)
  let ?p = "peek b s {0x7C, 0x29, 0x26, 0x3B}"
  let ?g = "gettoken b (fst ?p)"
  let ?s1 = "after_token b (fst ?p)"
  let ?args = "args @ [(fst (snd ?g), fst (snd (snd ?g)))]"
  have p: "s \<le> fst ?p" "fst ?p \<le> length b" using peek_fst_bounds [OF 1(2)] by auto
  have s1: "fst ?p \<le> ?s1" "?s1 \<le> length b" using after_token_bounds [OF p(2)] .
  have set_ok: "\<forall>w\<in>words (set_argv ret args). word_at b w"
    using words_set_argv 1(3,4) by blast
  show ?case
  proof (cases "\<not> snd ?p \<and> fst ?g = T_word \<and> length ?args < MAXARGS")
    case False
    with p s1 set_ok show ?thesis
      by (subst (1 2) args_loop.simps) (auto simp: Let_def parsed_def)
  next
    case True
    have eq: "args_loop b ret args s = bindr (parseredirs b ret ?s1) (\<lambda>r. args_loop b (fst r) ?args (snd r))"
      using True by (subst args_loop.simps) (simp add: Let_def)
    have w: "\<forall>w\<in>set ?args. word_at b w"
      using 1(4) gettoken_word_at True by auto
    show ?thesis
    proof (cases "parseredirs b ret ?s1")
      case (Ok r)
      have r: "parsed b ?s1 r" using parseredirs_parsed [OF s1(2) 1(3)] Ok by blast
      have "args_loop b (fst r) ?args (snd r) \<noteq> Fail NoFuel \<and>
          (\<forall>r'. args_loop b (fst r) ?args (snd r) = Ok r' \<longrightarrow> parsed b (snd r) r')"
        using True Ok r w by (intro 1(1)) (auto simp: parsed_def)
      then show ?thesis
        using r p(1) s1(1) by (auto simp: eq Ok parsed_def)
    next
      case (Fail e)
      then show ?thesis using parseredirs_parsed [OF s1(2) 1(3)] by (simp add: eq)
    qed
  qed
qed

text \<open>
  The four functions return a parsed command behind the start position whatever the bound,
  and do not run into a bound of four times the remaining length.
\<close>

definition parses :: "u8 list \<Rightarrow> nat \<Rightarrow> bool \<Rightarrow> (cmd \<times> nat) res \<Rightarrow> bool" where
  "parses b s enough r \<longleftrightarrow> (enough \<longrightarrow> r \<noteq> Fail NoFuel) \<and> (\<forall>x. r = Ok x \<longrightarrow> parsed b s x)"

lemma parses_parseredirs:
  "s \<le> length b \<Longrightarrow> \<forall>w\<in>words c. word_at b w \<Longrightarrow> parses b s en (parseredirs b c s)"
  using parseredirs_parsed by (auto simp: parses_def)

lemma parses_bind:
  assumes "parses b s en m" "\<And>r. m = Ok r \<Longrightarrow> parsed b s r \<Longrightarrow> parses b s en (f r)"
  shows "parses b s en (bindr m f)"
  using assms by (cases m) (auto simp: parses_def)

lemma parses_mono: "parses b s' en r \<Longrightarrow> s \<le> s' \<Longrightarrow> (en' \<longrightarrow> en) \<Longrightarrow> parses b s en' r"
  using parsed_mono by (auto simp: parses_def)

lemma parses_args_loop:
  assumes "parsed b s r"
  shows "parses b s en (args_loop b (fst r) [] (snd r))"
proof -
  have r: "s \<le> snd r" "snd r \<le> length b" "\<forall>w\<in>words (fst r). word_at b w"
    using assms by (simp_all add: parsed_def)
  have "args_loop b (fst r) [] (snd r) \<noteq> Fail NoFuel \<and>
      (\<forall>r'. args_loop b (fst r) [] (snd r) = Ok r' \<longrightarrow> parsed b (snd r) r')"
    by (rule args_loop_parsed) (use r in simp_all)
  then have "parses b (snd r) en (args_loop b (fst r) [] (snd r))"
    by (simp add: parses_def)
  then show ?thesis using r(1) by (rule parses_mono) simp
qed

lemma parses_fail: "e \<noteq> NoFuel \<Longrightarrow> parses b s en (Fail e)"
  by (simp add: parses_def)

lemma parses_ok: "parsed b s x \<Longrightarrow> parses b s en (Ok x)"
  by (simp add: parses_def)

lemma parses_parser:
  "s \<le> length b \<Longrightarrow> parses b s (4 * (length b - s) + 3 < n) (parseline n b s)"
  "s \<le> length b \<Longrightarrow> parses b s (4 * (length b - s) + 2 < n) (parsepipe n b s)"
  "s \<le> length b \<Longrightarrow> parses b s (4 * (length b - s) + 1 < n) (parseexec n b s)"
  "s < length b \<Longrightarrow> parses b s (4 * (length b - s) < n) (parseblock n b s)"
proof (induction n b s and n b s and n b s and n b s rule: parseline_parsepipe_parseexec_parseblock.induct)
  case (2 n b s)
  have "parses b s (4 * (length b - s) + 3 < Suc n) (parsepipe n b s)"
    by (rule parses_mono [OF 2(1)]) (use 2(3) in auto)
  then show ?case unfolding parseline.simps
  proof (rule parses_bind, goal_cases)
    case (1 r)
    let ?r = "back_loop b (fst r) (snd r)"
    let ?p = "peek b (snd ?r) {0x3B}"
    have r: "parsed b s ?r" using back_loop_parsed 1(2) by simp
    show ?case
    proof (cases "snd ?p")
      case True
      note m = after_peek_moves [OF True]
      have a: "s < after_token b (fst ?p)" using m(1) r by (simp add: parsed_def)
      have "parses b s (4 * (length b - s) + 3 < Suc n) (parseline n b (after_token b (fst ?p)))"
        by (rule parses_mono [OF 2(2)]) (use True 1(1) m a in \<open>auto simp: parsed_def\<close>)
      then show ?thesis
        using True r by (auto simp: Let_def parsed_def intro!: parses_bind parses_ok)
    next
      case False
      with r peek_fst_bounds [of "snd ?r" b "{0x3B}"] show ?thesis
        by (auto simp: Let_def parsed_def intro!: parses_ok)
    qed
  qed
next
  case (4 n b s)
  have "parses b s (4 * (length b - s) + 2 < Suc n) (parseexec n b s)"
    by (rule parses_mono [OF 4(1)]) (use 4(3) in auto)
  then show ?case unfolding parsepipe.simps
  proof (rule parses_bind, goal_cases)
    case (1 r)
    let ?p = "peek b (snd r) {0x7C}"
    show ?case
    proof (cases "snd ?p")
      case True
      note m = after_peek_moves [OF True]
      have a: "s < after_token b (fst ?p)" using m(1) 1(2) by (simp add: parsed_def)
      have "parses b s (4 * (length b - s) + 2 < Suc n) (parsepipe n b (after_token b (fst ?p)))"
        by (rule parses_mono [OF 4(2)]) (use True 1(1) m a in \<open>auto simp: parsed_def\<close>)
      then show ?thesis
        using True 1(2) by (auto simp: Let_def parsed_def intro!: parses_bind parses_ok)
    next
      case False
      with 1(2) peek_fst_bounds [of "snd r" b "{0x7C}"] show ?thesis
        by (auto simp: Let_def parsed_def intro!: parses_ok)
    qed
  qed
next
  case (6 n b s)
  let ?p = "peek b s {0x28}"
  have p: "s \<le> fst ?p" "fst ?p \<le> length b" using peek_fst_bounds [OF 6(2)] by auto
  show ?case
  proof (cases "snd ?p")
    case True
    have "parses b s (4 * (length b - s) + 1 < Suc n) (parseblock n b (fst ?p))"
      by (rule parses_mono [OF 6(1)]) (use True peek_next [OF True] p in auto)
    with True show ?thesis by (simp add: Let_def)
  next
    case False
    have "parses b s en (parseredirs b (EXEC []) (fst ?p))" for en
      by (rule parses_mono [OF parses_parseredirs]) (use p in auto)
    then show ?thesis
      using False by (simp add: Let_def parses_bind parses_args_loop)
  qed
next
  case (8 n b s)
  let ?p = "peek b s {0x28}"
  show ?case
  proof (cases "snd ?p")
    case True
    note m = after_peek_moves [OF True]
    have "parses b s (4 * (length b - s) < Suc n) (parseline n b (after_token b (fst ?p)))"
      by (rule parses_mono [OF 8(1)]) (use True m in auto)
    moreover have "parses b s en (parseredirs b (fst r) (after_token b (fst (peek b (snd r) {0x29}))))"
      if "parsed b s r" "snd (peek b (snd r) {0x29})" for r en
      using that after_peek_moves [of b "snd r" "{0x29}"]
      by (intro parses_mono [OF parses_parseredirs]) (auto simp: parsed_def)
    ultimately show ?thesis
      using True by (simp add: Let_def parses_bind parses_fail)
  next
    case False
    then show ?thesis by (simp add: Let_def parses_fail)
  qed
qed (simp_all add: parses_def)

lemma parseline_enough:
  "parseline (parse_depth b) b 0 \<noteq> Fail NoFuel"
  "parseline (parse_depth b) b 0 = Ok r \<Longrightarrow> parsed b 0 r"
  using parses_parser(1) [of 0 b "parse_depth b"] by (auto simp: parses_def parse_depth_def)

section \<open>Termination of the words\<close>

lemma fold_nul_length: "length (fold (\<lambda>(q, e) buf. buf[e := 0]) args buf) = length buf"
  by (induction args arbitrary: buf) auto

lemma nth_set_nul: "j < length buf \<Longrightarrow> buf[e := 0] ! j = (if j = e then 0 else buf ! j)"
  by (cases "j = e") simp_all

lemma fold_nul_nth:
  "j < length buf \<Longrightarrow> fold (\<lambda>(q, e) buf. buf[e := 0]) args buf ! j = (if j \<in> snd ` set args then 0 else buf ! j)"
  by (induction args arbitrary: buf) (simp_all add: nth_set_nul split_beta)

lemma nulterminate_length [simp]: "length (nulterminate c buf) = length buf"
  by (induction c arbitrary: buf) (auto simp: fold_nul_length)

lemma nulterminate_nth:
  "j < length buf \<Longrightarrow> nulterminate c buf ! j = (if j \<in> snd ` words c then 0 else buf ! j)"
proof (induction c arbitrary: buf)
  case (EXEC args)
  then show ?case by (simp add: fold_nul_nth)
next
  case (REDIR c q e mode fd)
  then show ?case by (cases "j = e") simp_all
qed (simp_all add: image_Un)

lemma word_end_not_inside:
  assumes "word_at b w" "word_at b (q, e)" "q \<le> j" "j < e"
  shows "snd w \<noteq> j"
  using assms by (auto simp: word_at_def)

lemma takeWhile_prefix:
  assumes "\<And>x. x \<in> set xs \<Longrightarrow> P x" "ys \<noteq> [] \<Longrightarrow> \<not> P (hd ys)"
  shows "takeWhile P (xs @ ys) = xs"
  using assms by (cases ys) (auto simp: takeWhile_append)

lemma nulterminate_string:
  assumes ws: "\<forall>w\<in>words c. word_at b w" and w: "(q, e) \<in> words c" and nz: "0 \<notin> set b"
  shows "string_at (nulterminate c (b @ [0])) q = slice q (e - q) b"
proof -
  let ?buf = "nulterminate c (b @ [0])"
  have at: "word_at b (q, e)" using ws w by blast
  then have qe: "q < e" "e \<le> length b" by (auto simp: word_at_def)
  have in_w: "?buf ! j = b ! j" if "q \<le> j" "j < e" for j
  proof -
    have "j \<notin> snd ` words c" using word_end_not_inside [OF _ at that] ws by blast
    then show ?thesis using that qe by (simp add: nulterminate_nth nth_append)
  qed
  have end0: "?buf ! e = 0"
    using w qe by (simp add: nulterminate_nth) (force intro: rev_image_eqI)
  have sl: "take (e - q) (drop q ?buf) = slice q (e - q) b"
    using qe in_w by (intro nth_equalityI) (auto simp: slice_def)
  have "takeWhile (\<lambda>c. c \<noteq> 0) (take (e - q) (drop q ?buf) @ drop (e - q) (drop q ?buf)) = take (e - q) (drop q ?buf)"
  proof (rule takeWhile_prefix)
    fix x assume "x \<in> set (take (e - q) (drop q ?buf))"
    then have "x \<in> set b" unfolding sl slice_def by (meson in_set_dropD in_set_takeD)
    then show "x \<noteq> 0" using nz by auto
  next
    show "\<not> hd (drop (e - q) (drop q ?buf)) \<noteq> 0"
      using qe end0 by (simp add: hd_drop_conv_nth)
  qed
  then have "string_at ?buf q = take (e - q) (drop q ?buf)"
    unfolding append_take_drop_id string_at_def .
  then show ?thesis unfolding sl .
qed

section \<open>Descriptors of a pipeline\<close>

lemma fd_free_iff:
  "fd_free t = Some fd \<longleftrightarrow> fd < length t \<and> t ! fd = None \<and> (\<forall>j<fd. t ! j \<noteq> None)"
proof (induction t arbitrary: fd)
  case Nil
  show ?case by simp
next
  case (Cons x t)
  show ?case
  proof (cases fd)
    case 0
    then show ?thesis by auto
  next
    case (Suc k)
    have "(\<forall>j<Suc k. (x # t) ! j \<noteq> None) \<longleftrightarrow> x \<noteq> None \<and> (\<forall>j<k. t ! j \<noteq> None)"
      by (simp add: All_less_Suc2)
    then show ?thesis using Suc Cons by auto
  qed
qed

lemma fd_dup_into:
  assumes "fd_free t = Some d" "p < length t" "t ! p = Some x"
  shows "fd_dup p t = t[d := Some x]"
  using assms by (simp add: fd_dup_def fd_new_def)

text \<open>
  With the standard descriptors open, closing \<open>d\<close> and duplicating an end of a new pipe puts
  that end at \<open>d\<close>; closing both ends leaves the rest of the table as it was.
\<close>

lemma pipe_end:
  assumes len: "p0 < length t" "p1 < length t" and free: "t ! p0 = None" "t ! p1 = None" "p0 \<noteq> p1"
    and d: "d < length t" "\<forall>j\<le>d. t ! j \<noteq> None" and p: "p = p0 \<and> x = a \<or> p = p1 \<and> x = c"
  shows "fd_close p1 (fd_close p0 (fd_dup p (fd_close d (t[p0 := Some a, p1 := Some c])))) = t[d := Some x]"
proof -
  let ?t = "t[p0 := Some a, p1 := Some c]"
  have ne: "p0 \<noteq> d" "p1 \<noteq> d" using free d by auto
  have gt: "\<not> p0 \<le> d" "\<not> p1 \<le> d" using free d by auto
  have "fd_free (?t[d := None]) = Some d"
    unfolding fd_free_iff using d ne gt by (auto simp: nth_list_update)
  moreover have "?t[d := None] ! p = Some x"
    using p ne len free by (auto simp: nth_list_update)
  ultimately have "fd_dup p (fd_close d ?t) = ?t[d := Some x]"
    using p len by (auto simp: fd_close_def fd_dup_into)
  then show ?thesis
    using len free ne d(1) by (intro nth_equalityI) (auto simp: fd_close_def nth_list_update)
qed

section \<open>Properties\<close>

text \<open>
  C32. \<open>parsecmd\<close> always returns: the bound on the recursion depth of the parsing functions
  is never reached, for any command line, so that each line gives either a tree or one of
  the syntax errors.
\<close>

theorem parsecmd_terminates: "parsecmd b \<noteq> Fail NoFuel"
  using parseline_enough(1) [of b]
  by (cases "parseline (parse_depth b) b 0") (auto simp: parsecmd_def Let_def)

text \<open>
  C31. \<open>nulterminate\<close> cuts every word of a parsed command out of the line and no more: in
  the buffer that \<open>parsecmd\<close> leaves behind, the C string at the start of every argument and
  file name of the tree is exactly the characters that the tokenizer delimited.
\<close>

theorem parsecmd_words:
  assumes "parsecmd b = Ok (cmd, buf)" "(q, e) \<in> words cmd" "0 \<notin> set b"
  shows "string_at buf q = slice q (e - q) b \<and> q < e \<and> e \<le> length b"
proof -
  obtain s where s: "parseline (parse_depth b) b 0 = Ok (cmd, s)" "buf = nulterminate cmd (b @ [0])"
    using assms(1) by (auto simp: parsecmd_def res_simps Let_def split: if_splits)
  have "\<forall>w\<in>words cmd. word_at b w"
    using parseline_enough(2) [OF s(1)] by (simp add: parsed_def)
  with nulterminate_string [OF this assms(2,3)] assms(2) show ?thesis
    unfolding s(2) by (auto simp: word_at_def)
qed


text \<open>The line \<open>a|b>c\<close>.\<close>

definition sample_line :: "u8 list" where
  "sample_line = [0x61, 0x7C, 0x62, 0x3E, 0x63]"

lemma sample_parse:
  "parsecmd sample_line = Ok (PIPE (EXEC [(0, 1)]) (REDIR (EXEC [(2, 3)]) 4 5 0x201 1),
     [0x61, 0, 0x62, 0, 0x63, 0])"
  by code_simp

theorem parsecmd_words_witness:
  "string_at [0x61, 0, 0x62, 0, 0x63, 0] 4 = slice 4 (5 - 4) sample_line \<and> 4 < (5 :: nat) \<and> 5 \<le> length sample_line"
  by (rule parsecmd_words [OF sample_parse]) (simp_all add: sample_line_def)


text \<open>
  C33. A pipeline connects its two sides and leaks no descriptor: with the standard
  descriptors open and two free entries, the left side runs with the write end of the pipe
  as its standard output, the right side with the read end as its standard input, every
  other descriptor of both is the shell's, and the shell waits for the two children with
  the table it had before.
\<close>

theorem runcmd_pipeline:
  assumes "fd_free t = Some pr" "fd_free (t[pr := Some x]) = Some pw" "1 < pr"
    "forks (at @ [True])" "forks (at @ [False])"
  shows "runcmd opens forks buf (PIPE l r) at t =
    Spawn (runcmd opens forks buf l (at @ [True]) (t[1 := Some (PipeW at)]))
      (Spawn (runcmd opens forks buf r (at @ [False]) (t[0 := Some (PipeR at)]))
        (Wait t (Wait t Exit)))"
proof -
  have pr: "pr < length t" "t ! pr = None" "\<forall>j<pr. t ! j \<noteq> None"
    using assms(1) by (auto simp: fd_free_iff)
  have pw: "pw < length t" "t[pr := Some x] ! pw = None" "\<forall>j<pw. t[pr := Some x] ! j \<noteq> None"
    using assms(2) by (auto simp: fd_free_iff)
  have ne: "pr \<noteq> pw" using pr(1) pw(2) by (auto simp: nth_list_update)
  then have pwn: "t ! pw = None" using pw(2) by simp
  have free1: "fd_free (t[pr := Some (PipeR at)]) = Some pw"
    unfolding fd_free_iff using pw pr(1) by (auto simp: nth_list_update)
  have left: "fd_close pw (fd_close pr (fd_dup pw (fd_close 1 (t[pr := Some (PipeR at), pw := Some (PipeW at)])))) =
      t[1 := Some (PipeW at)]"
    by (rule pipe_end) (use pr pw(1) pwn ne assms(3) in auto)
  have right: "fd_close pw (fd_close pr (fd_dup pr (fd_close 0 (t[pr := Some (PipeR at), pw := Some (PipeW at)])))) =
      t[0 := Some (PipeR at)]"
    by (rule pipe_end) (use pr pw(1) pwn ne assms(3) in auto)
  have parent: "fd_close pw (fd_close pr (t[pr := Some (PipeR at), pw := Some (PipeW at)])) = t"
    using pr pw(1) pwn ne by (intro nth_equalityI) (auto simp: fd_close_def nth_list_update)
  show ?thesis
    using assms(1,4,5) by (simp add: fd_new_def free1 left [simplified] right parent Let_def)
qed

theorem runcmd_pipeline_witness:
  "runcmd (\<lambda>f m. True) (\<lambda>a. True) [0x61, 0, 0x62, 0, 0x63, 0]
     (PIPE (EXEC [(0, 1)]) (REDIR (EXEC [(2, 3)]) 4 5 0x201 1)) []
     [Some Console, Some Console, Some Console, None, None] =
   Spawn (Prog [[0x61]] [Some Console, Some (PipeW []), Some Console, None, None])
     (Spawn (Prog [[0x62]] [Some (PipeR []), Some (Disk [0x63] 0x201), Some Console, None, None])
       (Wait [Some Console, Some Console, Some Console, None, None]
         (Wait [Some Console, Some Console, Some Console, None, None] Exit)))"
  by (subst runcmd_pipeline [where pr = 3 and pw = 4 and x = Console])
    (simp_all add: string_at_def fd_close_def fd_new_def)

end
