(* ===== verification/Xv6_Dirmap.thy ===== *)
theory Xv6_Dirmap
  imports Xv6_Dir Xv6_Inode
begin

text \<open>
  Directories as finite maps: \<open>dirlookup\<close> is a lookup in the map from names to inode numbers
  that the bytes of the directory stand for, and \<open>dirlink\<close> an update of it.  The names are the
  keys that \<open>namecmp\<close> compares: the \<open>DIRSIZ\<close> bytes that \<open>strncpy\<close> stores.  Path names are
  split by \<open>skipelem\<close> into their elements.
\<close>

section \<open>The entries of a directory\<close>

text \<open>The bytes at \<open>off\<close> of a directory, as the buffer cache holds them.\<close>

definition dirent :: "nat \<Rightarrow> nat \<Rightarrow> 'a fs_state_scheme \<Rightarrow> u8 list" where
  "dirent dp off s = slice (off mod BSIZE) 16 (view s (i_addrs (ino dp s) ! (off div BSIZE)))"

definition dir_offs :: "nat \<Rightarrow> 'a fs_state_scheme \<Rightarrow> nat list" where
  "dir_offs dp s = map (\<lambda>k. 16 * k) [0..<unat (i_size (ino dp s)) div 16]"

definition name_key :: "u8 list \<Rightarrow> u8 list" where
  "name_key name = strncpy_bytes (lstr name) DIRSIZ"

definition de_match :: "u8 list \<Rightarrow> u8 list \<Rightarrow> bool" where
  "de_match key de \<longleftrightarrow> de_inum de \<noteq> 0 \<and> name_key (de_name de) = key"

text \<open>The offset of the first entry with a key, and the map from keys to inode numbers.\<close>

definition dir_slot :: "nat \<Rightarrow> 'a fs_state_scheme \<Rightarrow> u8 list \<Rightarrow> nat option" where
  "dir_slot dp s key = find (\<lambda>off. de_match key (dirent dp off s)) (dir_offs dp s)"

definition dir_map :: "nat \<Rightarrow> 'a fs_state_scheme \<Rightarrow> u8 list \<Rightarrow> u16 option" where
  "dir_map dp s key = map_option (\<lambda>off. de_inum (dirent dp off s)) (dir_slot dp s key)"

text \<open>
  \<open>dir_ok\<close>: a directory whose entries lie in allocated direct blocks, none of them held by
  anybody, with a buffer to spare.
\<close>

definition dir_blocks_ok :: "nat \<Rightarrow> 'a fs_state_scheme \<Rightarrow> bool" where
  "dir_blocks_ok dp s \<longleftrightarrow> (\<forall>k < NDIRECT. k * BSIZE < unat (i_size (ino dp s)) \<longrightarrow>
     i_addrs (ino dp s) ! k \<noteq> 0 \<and> block_ok (i_addrs (ino dp s) ! k) s \<and> i_addrs (ino dp s) ! k \<notin> locked s)"

definition dir_ok :: "nat \<Rightarrow> 'a fs_state_scheme \<Rightarrow> bool" where
  "dir_ok dp s \<longleftrightarrow> log_inv s \<and> (i_type (ino dp s) = T_DIR \<or> i_type (ino dp s) = T_SDIR) \<and> i_dev (ino dp s) = 1 \<and>
     16 dvd unat (i_size (ino dp s)) \<and> unat (i_size (ino dp s)) \<le> NDIRECT * BSIZE \<and> dir_blocks_ok dp s \<and>
     card (locked s) + nat (lh_n s) < NBUF"

lemma namecmp_eq_0: "namecmp name t = 0 \<longleftrightarrow> name_key t = name_key name"
  using strncpy_bytes_eq_iff [of "lstr name" DIRSIZ "lstr t"] by (auto simp: namecmp_def name_key_def)

lemma same_view_facts:
  assumes "same_view s s'"
  shows "view s' = view s" "locked s' = locked s" "lh_n s' = lh_n s" "ino ip s' = ino ip s" "icache s' = icache s"
    "block_ok b s' = block_ok b s" "log_frame s s'" "sb s' = sb s"
  using assms log_frame_fs [of s s'] by (auto simp: same_view_def block_ok_def log_frame_def)

lemma same_view_refl [simp]: "same_view s s"
  by (simp add: same_view_def)

lemma same_view_trans [trans]: "same_view s t \<Longrightarrow> same_view t u \<Longrightarrow> same_view s u"
  by (auto simp: same_view_def elim: log_frame_trans)

lemma same_view_dir:
  assumes "same_view s s'"
  shows "dirent dp off s' = dirent dp off s" "dir_offs dp s' = dir_offs dp s" "dir_slot dp s' = dir_slot dp s"
    "dir_blocks_ok dp s' = dir_blocks_ok dp s"
  by (simp_all add: fun_eq_iff dirent_def dir_offs_def dir_slot_def dir_blocks_ok_def same_view_facts [OF assms])

lemma dir_ok_same_view: "dir_ok dp s \<Longrightarrow> same_view s s' \<Longrightarrow> log_inv s' \<Longrightarrow> dir_ok dp s'"
  by (simp add: dir_ok_def same_view_facts same_view_dir)

section \<open>Reading one entry\<close>

lemma entry_in_block:
  assumes "16 dvd off"
  shows "off mod BSIZE + 16 \<le> BSIZE"
proof -
  have "16 dvd off mod BSIZE" using assms by (simp add: BSIZE_def dvd_mod)
  then obtain k where "off mod BSIZE = 16 * k" ..
  moreover have "off mod BSIZE < BSIZE" by (simp add: BSIZE_def)
  ultimately show ?thesis by (simp add: BSIZE_def)
qed

lemma dir_block:
  assumes "dir_ok dp s" "16 dvd off" "off < unat (i_size (ino dp s))"
  shows "off div BSIZE < NDIRECT" "i_addrs (ino dp s) ! (off div BSIZE) \<noteq> 0"
    "block_ok (i_addrs (ino dp s) ! (off div BSIZE)) s" "i_addrs (ino dp s) ! (off div BSIZE) \<notin> locked s"
    "off + 16 \<le> unat (i_size (ino dp s))" "off < 6144"
proof -
  have b: "unat (i_size (ino dp s)) \<le> 6144" using assms(1) by (simp add: dir_ok_def fs_consts)
  then show "off < 6144" using assms(3) by simp
  then show d: "off div BSIZE < NDIRECT" by (simp add: fs_consts)
  have "off div BSIZE * BSIZE < unat (i_size (ino dp s))"
    using assms(3) by (meson div_times_less_eq_dividend le_less_trans)
  then show "i_addrs (ino dp s) ! (off div BSIZE) \<noteq> 0" "block_ok (i_addrs (ino dp s) ! (off div BSIZE)) s"
    "i_addrs (ino dp s) ! (off div BSIZE) \<notin> locked s"
    using assms(1) d by (simp_all add: dir_ok_def dir_blocks_ok_def)
  obtain k n where "off = 16 * k" "unat (i_size (ino dp s)) = 16 * n"
    using assms(1,2) by (auto simp: dir_ok_def elim!: dvdE)
  then show "off + 16 \<le> unat (i_size (ino dp s))" using assms(3) by simp
qed

lemma unat_entry:
  assumes "off < 6144"
  shows "unat (of_nat off :: u32) = off" "unat (of_nat off + 16 :: u32) = off + 16"
    "unat (of_nat (off div BSIZE) :: u32) = off div BSIZE"
proof -
  show a: "unat (of_nat off :: u32) = off" using assms by simp
  show "unat (of_nat off + 16 :: u32) = off + 16"
    using unat_add_no_wrap [of "of_nat off :: u32" 16] a assms by simp
  show "unat (of_nat (off div BSIZE) :: u32) = off div BSIZE"
    using assms by (intro unat_of_nat32) (simp add: BSIZE_def)
qed

lemma bmap_direct:
  assumes "dir_ok dp s" "16 dvd off" "off < unat (i_size (ino dp s))"
  shows "bmap dp (of_nat (off div BSIZE)) s = Ok (i_addrs (ino dp s) ! (off div BSIZE), s)"
  using dir_block [OF assms] by (simp add: bmap_def unat_entry(3))

lemma readi_dirent:
  assumes "dir_ok dp s" "16 dvd off" "off < unat (i_size (ino dp s))"
  obtains s' where "readi devs dp (of_nat off) 16 s = Ok (16, dirent dp off s, s')" "same_view s s'" "log_inv s'"
proof -
  let ?b = "i_addrs (ino dp s) ! (off div BSIZE)"
  note d = dir_block [OF assms] and u = unat_entry [OF dir_block(6) [OF assms]]
  have k: "log_inv s" "?b < disksize s" "?b \<notin> locked s" "card (locked s) + nat (lh_n s) < NBUF" "i_dev (ino dp s) = 1"
    "i_type (ino dp s) \<noteq> T_DEV" "i_type (ino dp s) \<noteq> T_SFILE"
    using assms(1) d by (auto simp: dir_ok_def block_ok_def fs_types)
  obtain i s1 s2 where r: "bread 1 ?b s = Ok (i, s1)" "bdata i s1 = view s ?b" "brelse i s1 = Ok s2"
    "log_inv s2" "same_view s s2"
    by (rule log_read [OF k(1-4)]) blast
  have m: "min 16 (BSIZE - off mod BSIZE) = 16" using entry_in_block [OF assms(2)] by simp
  have "readi_loop 16 dp off s = Ok (dirent dp off s, s2)"
    using bmap_direct [OF assms] r k(5) m
    by (simp add: readi_loop.simps [of 16] readi_loop.simps [of 0] dirent_def Let_def)
  moreover have "\<not> i_size (ino dp s) < of_nat off" "\<not> (of_nat off + 16 :: u32) < of_nat off"
    "\<not> i_size (ino dp s) < of_nat off + 16"
    using d(5) u by (simp_all add: word_less_nat_alt)
  ultimately have "readi devs dp (of_nat off) 16 s = Ok (16, dirent dp off s, s2)"
    using k(6,7) u(1) by (simp add: readi_def Let_def)
  then show ?thesis using that r(4,5) by blast
qed

section \<open>dirlookup\<close>

text \<open>The entries that remain at \<open>off\<close>.\<close>

definition offs_from :: "nat \<Rightarrow> nat \<Rightarrow> 'a fs_state_scheme \<Rightarrow> nat list" where
  "offs_from off dp s = map (\<lambda>k. 16 * k) [off div 16..<unat (i_size (ino dp s)) div 16]"

lemma offs_from_step:
  assumes "dir_ok dp s" "16 dvd off"
  shows "off < unat (i_size (ino dp s)) \<Longrightarrow> offs_from off dp s = off # offs_from (off + 16) dp s"
    "\<not> off < unat (i_size (ino dp s)) \<Longrightarrow> offs_from off dp s = []"
proof -
  obtain k where k: "off = 16 * k" using assms(2) ..
  obtain n where n: "unat (i_size (ino dp s)) = 16 * n" using assms(1) by (auto simp: dir_ok_def)
  show "off < unat (i_size (ino dp s)) \<Longrightarrow> offs_from off dp s = off # offs_from (off + 16) dp s"
    by (simp add: offs_from_def k n upt_conv_Cons)
  show "\<not> off < unat (i_size (ino dp s)) \<Longrightarrow> offs_from off dp s = []"
    by (simp add: offs_from_def k n)
qed

lemma offs_from_0: "offs_from 0 dp s = dir_offs dp s"
  by (simp add: offs_from_def dir_offs_def)

lemma offs_from_same_view: "same_view s s' \<Longrightarrow> offs_from off dp s' = offs_from off dp s"
  by (simp add: offs_from_def same_view_facts)

definition dir_result ::
    "nat \<Rightarrow> nat option \<Rightarrow> 'a fs_state_scheme \<Rightarrow> ((nat \<times> nat) option \<times> 'a fs_state_scheme) res" where
  "dir_result dp r s = (case r of None \<Rightarrow> Ok (None, s)
     | Some off \<Rightarrow> bindr (iget 1 (ucast (de_inum (dirent dp off s))) s) (\<lambda>(ip, s). Ok (Some (ip, off), s)))"

lemma dirlookup_loop_spec:
  assumes "dir_ok dp s" "16 dvd off"
  shows "\<exists>s'. same_view s s' \<and> log_inv s' \<and> dirlookup_loop devs (unat (i_size (ino dp s))) dp name off s =
    dir_result dp (find (\<lambda>off. de_match (name_key name) (dirent dp off s)) (offs_from off dp s)) s'"
  using assms
proof (induction "unat (i_size (ino dp s)) - off" arbitrary: off s rule: less_induct)
  case less
  show ?case
  proof (cases "off < unat (i_size (ino dp s))")
    case False
    then show ?thesis
      using less.prems offs_from_step(2) [OF less.prems]
      by (intro exI [of _ s]) (simp add: dirlookup_loop.simps dir_result_def dir_ok_def)
  next
    case True
    obtain s1 where s1: "readi devs dp (of_nat off) 16 s = Ok (16, dirent dp off s, s1)" "same_view s s1" "log_inv s1"
      by (rule readi_dirent [OF less.prems True])
    note v = same_view_facts [OF s1(2)] and w = same_view_dir [OF s1(2)]
    have ok1: "dir_ok dp s1" by (rule dir_ok_same_view [OF less.prems(1) s1(2,3)])
    note st = offs_from_step(1) [OF less.prems True]
    show ?thesis
    proof (cases "de_match (name_key name) (dirent dp off s)")
      case m: True
      then show ?thesis
        using True s1 st v(4) w ok1
        by (intro exI [of _ s1])
          (simp add: dirlookup_loop.simps [of devs _ dp name off s] de_match_def namecmp_eq_0 dir_result_def dir_ok_def)
    next
      case m: False
      have e: "dirlookup_loop devs (unat (i_size (ino dp s))) dp name off s =
          dirlookup_loop devs (unat (i_size (ino dp s1))) dp name (off + 16) s1"
        using True s1(1) m v(4)
        by (auto simp: dirlookup_loop.simps [of devs _ dp name off s] de_match_def namecmp_eq_0)
      have "\<exists>s'. same_view s1 s' \<and> log_inv s' \<and> dirlookup_loop devs (unat (i_size (ino dp s1))) dp name (off + 16) s1 =
          dir_result dp (find (\<lambda>off. de_match (name_key name) (dirent dp off s1)) (offs_from (off + 16) dp s1)) s'"
        by (rule less.hyps) (use True v(4) ok1 less.prems in simp_all)
      then show ?thesis
        unfolding e st w offs_from_same_view [OF s1(2)] using m same_view_trans [OF s1(2)] by auto
    qed
  qed
qed

lemma dirlookup_spec:
  assumes "dir_ok dp s"
  shows "\<exists>s'. same_view s s' \<and> log_inv s' \<and>
    dirlookup devs dp name s = dir_result dp (dir_slot dp s (name_key name)) s'"
  using dirlookup_loop_spec [OF assms, of 0 devs name] assms
  by (auto simp: dirlookup_def dir_ok_def dir_slot_def offs_from_0)

section \<open>The entry that iget returns\<close>

definition ihit :: "u32 \<Rightarrow> u32 \<Rightarrow> inode \<Rightarrow> bool" where
  "ihit dev inum i \<longleftrightarrow> i_ref i > 0 \<and> i_dev i = dev \<and> i_inum i = inum"

text \<open>The entry for an inode when \<open>iget\<close> has taken it: once more, or recycled.\<close>

definition taken :: "u32 \<Rightarrow> u32 \<Rightarrow> inode \<Rightarrow> inode" where
  "taken dev inum i =
     (if ihit dev inum i then i\<lparr>i_ref := i_ref i + 1\<rparr>
      else i\<lparr>i_dev := dev, i_inum := inum, i_ref := 1, i_valid := False\<rparr>)"

lemma iget_scan_Inl: "iget_scan ips k dev inum emp = Inl ip \<Longrightarrow> k \<le> ip \<and> ip < k + length ips \<and> ihit dev inum (ips ! (ip - k))"
  by (induction ips arbitrary: k emp) (fastforce simp: ihit_def nth_Cons' split: if_splits)+

lemma iget_scan_Inr:
  "iget_scan ips k dev inum emp = Inr r \<Longrightarrow> (\<forall>i \<in> set ips. \<not> ihit dev inum i) \<and>
   (case emp of Some _ \<Rightarrow> r = emp | None \<Rightarrow>
      (case r of None \<Rightarrow> \<forall>i \<in> set ips. i_ref i \<noteq> 0
       | Some ip \<Rightarrow> k \<le> ip \<and> ip < k + length ips \<and> i_ref (ips ! (ip - k)) = 0))"
proof (induction ips arbitrary: k emp)
  case (Cons i ips)
  then have n: "\<not> ihit dev inum i" and
    s: "iget_scan ips (Suc k) dev inum (if emp = None \<and> i_ref i = 0 then Some k else emp) = Inr r"
    by (auto simp: ihit_def split: if_splits)
  from Cons.IH [OF s] n show ?case
    by (cases emp; cases r) (auto simp: nth_Cons' split: if_splits)
qed (auto split: option.splits)

text \<open>\<open>iget\<close> takes the entry of the inode, or a free one if there is none, or panics if there is neither.\<close>

lemma iget_takes:
  assumes "\<exists>i \<in> set (icache s). ihit dev inum i \<or> i_ref i = 0"
  obtains ip where "iget dev inum s = Ok (ip, upd_ip ip (taken dev inum) s)" "ip < length (icache s)"
    "ihit dev inum (ino ip s) \<or> i_ref (ino ip s) = 0 \<and> (\<forall>i \<in> set (icache s). \<not> ihit dev inum i)"
proof (cases "iget_scan (icache s) 0 dev inum None")
  case (Inl ip)
  then have h: "ip < length (icache s)" "ihit dev inum (icache s ! ip)" using iget_scan_Inl by fastforce+
  then show ?thesis
    using Inl by (intro that [of ip]) (simp_all add: iget_def upd_ip_def taken_def ino_def)
next
  case (Inr r)
  then obtain ip where ip: "r = Some ip" using iget_scan_Inr [OF Inr] assms by (cases r) auto
  have h: "ip < length (icache s)" "i_ref (icache s ! ip) = 0" "\<forall>i \<in> set (icache s). \<not> ihit dev inum i"
    using iget_scan_Inr [OF Inr] ip by auto
  then show ?thesis
    using Inr ip by (intro that [of ip]) (simp_all add: iget_def upd_ip_def taken_def ino_def ihit_def)
qed

lemma iget_full:
  assumes "\<forall>i \<in> set (icache s). \<not> ihit dev inum i \<and> i_ref i \<noteq> 0"
  shows "iget dev inum s = Fail (Panic ''iget: no inodes'')"
proof (cases "iget_scan (icache s) 0 dev inum None")
  case (Inl ip)
  then show ?thesis using iget_scan_Inl [OF Inl] assms nth_mem by fastforce
next
  case (Inr r)
  then have "r = None" using iget_scan_Inr [OF Inr] assms by (cases r) auto
  then show ?thesis using Inr by (simp add: iget_def)
qed

section \<open>dirlink\<close>

lemma name_key_idem: "name_key (strncpy_bytes (lstr name) DIRSIZ) = name_key name"
  using strncmp_strncpy_bytes [of "lstr name" DIRSIZ]
    strncpy_bytes_eq_iff [of "lstr name" DIRSIZ "lstr (strncpy_bytes (lstr name) DIRSIZ)"]
  by (simp add: name_key_def)

lemma de_make_facts [simp]:
  "length (de_make inum name) = 16" "de_inum (de_make inum name) = ucast inum"
  "name_key (de_name (de_make inum name)) = name_key name"
proof -
  show "length (de_make inum name) = 16" by (simp add: de_make_def DIRSIZ_def)
  show "de_inum (de_make inum name) = ucast inum"
    by (simp add: de_inum_def de_make_def get16_def slice_def)
  have "de_name (de_make inum name) = strncpy_bytes (lstr name) DIRSIZ"
    by (simp add: de_name_def de_make_def slice_def)
  then show "name_key (de_name (de_make inum name)) = name_key name" by (simp add: name_key_idem)
qed

text \<open>
  \<open>can_link\<close>: a transaction is open with room for the block of the entry and the block of the
  inode, and the last block of the directory is not full, so that no block is allocated.
\<close>

definition dir_nblocks :: "nat \<Rightarrow> 'a fs_state_scheme \<Rightarrow> nat" where
  "dir_nblocks dp s = (unat (i_size (ino dp s)) + BSIZE - 1) div BSIZE"

definition can_link :: "nat \<Rightarrow> 'a fs_state_scheme \<Rightarrow> bool" where
  "can_link dp s \<longleftrightarrow> dir_ok dp s \<and> can_update dp s \<and> lh_n s + 1 < log_size s - 1 \<and>
     card (locked s) + nat (lh_n s) + 2 < NBUF \<and> unat (i_size (ino dp s)) mod BSIZE \<noteq> 0 \<and>
     distinct (iblk dp s # take (dir_nblocks dp s) (i_addrs (ino dp s)))"

definition dir_free :: "nat \<Rightarrow> 'a fs_state_scheme \<Rightarrow> nat" where
  "dir_free dp s = (case find (\<lambda>off. de_inum (dirent dp off s) = 0) (dir_offs dp s) of
     Some off \<Rightarrow> off | None \<Rightarrow> unat (i_size (ino dp s)))"

definition free_from :: "nat \<Rightarrow> nat \<Rightarrow> 'a fs_state_scheme \<Rightarrow> nat" where
  "free_from off dp s = (case find (\<lambda>off. de_inum (dirent dp off s) = 0) (offs_from off dp s) of
     Some off \<Rightarrow> off | None \<Rightarrow> unat (i_size (ino dp s)))"

lemma dirlink_free_spec:
  assumes "dir_ok dp s" "16 dvd off" "off \<le> unat (i_size (ino dp s))"
  shows "\<exists>s'. same_view s s' \<and> log_inv s' \<and>
    dirlink_free devs (unat (i_size (ino dp s))) dp off s = Ok (free_from off dp s, s')"
  using assms
proof (induction "unat (i_size (ino dp s)) - off" arbitrary: off s rule: less_induct)
  case less
  show ?case
  proof (cases "off < unat (i_size (ino dp s))")
    case False
    then show ?thesis
      using less.prems offs_from_step(2) [OF less.prems(1,2)]
      by (intro exI [of _ s]) (simp add: dirlink_free.simps free_from_def dir_ok_def)
  next
    case True
    obtain s1 where s1: "readi devs dp (of_nat off) 16 s = Ok (16, dirent dp off s, s1)" "same_view s s1" "log_inv s1"
      by (rule readi_dirent [OF less.prems(1,2) True])
    note v = same_view_facts [OF s1(2)] and w = same_view_dir [OF s1(2)]
    have ok1: "dir_ok dp s1" by (rule dir_ok_same_view [OF less.prems(1) s1(2,3)])
    note st = offs_from_step(1) [OF less.prems(1,2) True]
    show ?thesis
    proof (cases "de_inum (dirent dp off s) = 0")
      case m: True
      then show ?thesis
        using True s1 st by (intro exI [of _ s1]) (simp add: dirlink_free.simps free_from_def)
    next
      case m: False
      have e: "dirlink_free devs (unat (i_size (ino dp s))) dp off s =
          dirlink_free devs (unat (i_size (ino dp s1))) dp (off + 16) s1"
        using True s1(1) m v(4) by (simp add: dirlink_free.simps [of devs _ dp off s])
      have f: "free_from off dp s = free_from (off + 16) dp s1"
        unfolding free_from_def st offs_from_same_view [OF s1(2)] w v(4) using m by simp
      have "\<exists>s'. same_view s1 s' \<and> log_inv s' \<and>
          dirlink_free devs (unat (i_size (ino dp s1))) dp (off + 16) s1 = Ok (free_from (off + 16) dp s1, s')"
        by (rule less.hyps) (use True v(4) ok1 less.prems dir_block(5) [OF less.prems(1,2) True] in simp_all)
      then show ?thesis unfolding e f using same_view_trans [OF s1(2)] by blast
    qed
  qed
qed

lemma can_link_same_view:
  assumes "can_link dp s" "same_view s s'" "log_inv s'"
  shows "can_link dp s'"
proof -
  note v = same_view_facts [OF assms(2)]
  have f: "log_outstanding s' = log_outstanding s" "log_size s' = log_size s" using v(7) by (simp_all add: log_frame_def)
  have "dir_ok dp s'" using assms(1) by (intro dir_ok_same_view [OF _ assms(2,3)]) (simp add: can_link_def)
  moreover have "can_update dp s'"
    using assms(1,3) f by (simp add: can_link_def can_update_def iblk_def v)
  ultimately show ?thesis using assms(1) f by (simp add: can_link_def iblk_def dir_nblocks_def v)
qed

text \<open>The block of an entry, the last one or one before it.\<close>

lemma link_block:
  assumes "can_link dp s" "16 dvd off" "off \<le> unat (i_size (ino dp s))"
  defines "b \<equiv> i_addrs (ino dp s) ! (off div BSIZE)"
  shows "off div BSIZE < dir_nblocks dp s" "off div BSIZE < NDIRECT" "b \<noteq> 0" "block_ok b s" "b \<notin> locked s"
    "b \<noteq> iblk dp s" "off < 6144" "dir_nblocks dp s \<le> NDIRECT"
proof -
  let ?n = "unat (i_size (ino dp s))"
  have n: "?n mod 512 \<noteq> 0" "?n \<le> 6144" using assms(1) by (simp_all add: can_link_def dir_ok_def fs_consts)
  obtain q r where q: "?n = 512 * q + r" "0 < r" "r < 512"
    using n(1) by (intro that [of "?n div 512" "?n mod 512"]) simp_all
  have "q < 12" by (rule ccontr) (use q n(2) in simp)
  then show o: "off < 6144" using q assms(3) by simp
  have nb: "dir_nblocks dp s = Suc q" using q by (simp add: dir_nblocks_def BSIZE_def)
  have "off div 512 \<le> (512 * q + r) div 512" using assms(3) q(1) by (intro div_le_mono) simp
  then have d: "off div 512 \<le> q" using q by simp
  then show k: "off div BSIZE < dir_nblocks dp s" "off div BSIZE < NDIRECT" "dir_nblocks dp s \<le> NDIRECT"
    using n(2) q by (simp_all add: nb fs_consts)
  have "off div BSIZE * BSIZE < ?n" using d q by (simp add: BSIZE_def)
  then show "b \<noteq> 0" "block_ok b s" "b \<notin> locked s"
    using assms(1) k by (simp_all add: b_def can_link_def dir_ok_def dir_blocks_ok_def)
  have "length (i_addrs (ino dp s)) = 13" using assms(1) by (simp add: can_link_def can_update_def)
  then have "b \<in> set (take (dir_nblocks dp s) (i_addrs (ino dp s)))"
    unfolding b_def in_set_conv_nth using k by (intro exI [of _ "off div BSIZE"]) (simp add: NDIRECT_def)
  then show "b \<noteq> iblk dp s" using assms(1) by (auto simp: can_link_def)
qed

lemma find_set_one:
  assumes "\<And>x. x \<in> set xs \<Longrightarrow> Q x \<longleftrightarrow> x = a" "a \<in> set xs"
  shows "find Q xs = Some a"
  using assms
proof (induction xs)
  case (Cons x xs)
  then show ?case by (cases "x = a") auto
qed simp

text \<open>Writing one entry, in place or behind the last one.\<close>

definition linked :: "nat \<Rightarrow> nat \<Rightarrow> u8 list \<Rightarrow> 'a fs_state_scheme \<Rightarrow> 'a fs_state_scheme \<Rightarrow> bool" where
  "linked dp off de s s' \<longleftrightarrow> log_inv s' \<and>
     ino dp s' = (ino dp s)\<lparr>i_size := of_nat (max (unat (i_size (ino dp s))) (off + 16))\<rparr> \<and>
     locked s' = locked s \<and> lh_n s' \<le> lh_n s + 2 \<and> (\<forall>b. block_ok b s' = block_ok b s) \<and>
     (\<forall>b \<in> set (take (dir_nblocks dp s) (i_addrs (ino dp s))). view s' b =
        (if b = i_addrs (ino dp s) ! (off div BSIZE) then splice (off mod BSIZE) de (view s b) else view s b))"

lemma writei_loop_dirent:
  assumes "can_link dp s" "16 dvd off" "off \<le> unat (i_size (ino dp s))" "length de = 16"
  defines "b \<equiv> i_addrs (ino dp s) ! (off div BSIZE)"
  obtains s' where "writei_loop de dp off s = Ok s'" "log_inv s'" "log_frame s s'" "locked s' = locked s"
    "view s' = (view s)(b := splice (off mod BSIZE) de (view s b))" "lh_n s' \<le> lh_n s + 1"
proof -
  note k = link_block [OF assms(1-3), folded b_def]
  have c: "log_inv s" "1 \<le> log_outstanding s" "lh_n s < log_size s - 1" "card (locked s) + nat (lh_n s) < NBUF"
    "i_dev (ino dp s) = 1"
    using assms(1) by (auto simp: can_link_def can_update_def)
  have "length (view s b) = BSIZE"
    by (rule bio.contents_length) (use c(1) in \<open>simp add: log_inv_def\<close>)
  then have len: "length (splice (off mod BSIZE) de (view s b)) = BSIZE"
    using entry_in_block [OF assms(2)] assms(4) by simp
  obtain i s1 s2 s3 where u: "bread 1 b s = Ok (i, s1)" "bdata i s1 = view s b"
    "log_write i (set_bdata i (splice (off mod BSIZE) de (view s b)) s1) = Ok s2" "brelse i s2 = Ok s3" "log_inv s3"
    "view s3 = (view s)(b := splice (off mod BSIZE) de (view s b))" "locked s3 = locked s" "log_frame s s3"
    "lh_n s3 \<le> lh_n s + 1"
    by (rule log_update [OF c(1) k(4,5) len c(2-4)]) (simp split: if_splits)
  have m: "bmap dp (of_nat (off div BSIZE)) s = Ok (b, s)" "min 16 (BSIZE - off mod BSIZE) = 16" "de \<noteq> []"
    using k(2,3) entry_in_block [OF assms(2)] assms(4) unat_entry(3) [OF k(7)] by (auto simp: bmap_def b_def)
  have "writei_loop de dp off s = Ok s3"
    using m u(1-4) c(5) assms(4)
    by (simp add: writei_loop.simps [of de] writei_loop.simps [of "[]"] Let_def res_simps)
  then show ?thesis using u(5-9) by (intro that)
qed

lemma writei_dirent:
  assumes "can_link dp s" "16 dvd off" "off \<le> unat (i_size (ino dp s))" "length de = 16"
  shows "\<exists>s'. writei devs dp de (of_nat off) s = Ok (16, s') \<and> linked dp off de s s'"
proof -
  let ?b = "i_addrs (ino dp s) ! (off div BSIZE)"
  let ?n = "unat (i_size (ino dp s))"
  let ?off = "of_nat off :: u32"
  note k = link_block [OF assms(1-3)]
  note u = unat_entry [OF k(7)]
  have c: "dp < length (icache s)" "i_type (ino dp s) \<noteq> T_DEV" "i_type (ino dp s) \<noteq> T_SFILE" "can_update dp s"
    "iblk dp s \<notin> set (take (dir_nblocks dp s) (i_addrs (ino dp s)))"
    "lh_n s + 1 < log_size s - 1" "card (locked s) + nat (lh_n s) + 2 < NBUF"
    using assms(1) by (auto simp: can_link_def can_update_def dir_ok_def fs_types)
  obtain t where t: "writei_loop de dp off s = Ok t" "log_inv t" "log_frame s t" "locked t = locked s"
    "view t = (view s)(?b := splice (off mod BSIZE) de (view s ?b))" "lh_n t \<le> lh_n s + 1"
    by (rule writei_loop_dirent [OF assms])
  note f = log_frame_fs [OF t(3)]
  have g: "\<not> i_size (ino dp s) < ?off" "\<not> ?off + 16 < ?off" "\<not> MAXFILE * BSIZE < unat (?off + 16)"
    "i_size (ino dp s) < ?off + 16 \<longleftrightarrow> ?n < off + 16"
    using u k(7) assms(3) by (simp_all add: word_less_nat_alt fs_consts)
  show ?thesis
  proof (cases "?n < off + 16")
    case True
    let ?f = "\<lambda>i. i\<lparr>i_size := ?off + 16\<rparr>"
    have cu: "can_update dp (upd_ip dp ?f t)"
      using c t(2,3,4,6) f by (simp add: can_update_def iblk_def log_frame_def block_ok_def)
    obtain s' where s': "iupdate dp (upd_ip dp ?f t) = Ok s'" "log_inv s'" "log_frame (upd_ip dp ?f t) s'"
      "view s' = (view t)(iblk dp s := dinode_put (dip_off (i_inum (ino dp s))) (dinode_of (?f (ino dp s))) (view t (iblk dp s)))"
      "locked s' = locked t" "lh_n s' \<le> lh_n t + 1"
      by (rule iupdate_spec [OF cu]) (use c(1) f in \<open>simp add: iblk_def\<close>)
    have i: "ino dp s' = ?f (ino dp s)" using log_frame_fs(4) [OF s'(3)] c(1) f by simp
    have "writei devs dp de ?off s = Ok (16, s')"
      using c(2,3) assms(4) g t(1) f s'(1) i True u(1)
      by (simp add: writei_def Let_def res_simps)
    moreover have "of_nat (max ?n (off + 16)) = ?off + 16" using True by simp
    moreover have "view s' b = (if b = ?b then splice (off mod BSIZE) de (view s b) else view s b)"
      if "b \<in> set (take (dir_nblocks dp s) (i_addrs (ino dp s)))" for b
      using that c(5) s'(4) t(5) by auto
    moreover have "block_ok b s' = block_ok b s" for b
      using t(3) s'(3) by (simp add: block_ok_def log_frame_def)
    ultimately show ?thesis using s'(2,5,6) t(4,6) i by (simp add: linked_def)
  next
    case False
    then have "writei devs dp de ?off s = Ok (16, t)"
      using c(2,3) assms(4) g t(1) f u(1) by (simp add: writei_def Let_def res_simps)
    moreover have "max ?n (off + 16) = ?n" using False by simp
    moreover have "block_ok b t = block_ok b s" for b using t(3) by (simp add: block_ok_def log_frame_def)
    ultimately show ?thesis using t(2,4,5,6) f(4) by (simp add: linked_def)
  qed
qed

text \<open>The entries after the write.\<close>

lemma linked_dirent:
  assumes "can_link dp s" "linked dp off de s s'" "16 dvd off" "off \<le> unat (i_size (ino dp s))" "length de = 16"
    "16 dvd off'" "off' \<le> unat (i_size (ino dp s))"
  shows "dirent dp off' s' = (if off' = off then de else dirent dp off' s)"
proof -
  let ?a = "i_addrs (ino dp s)"
  note k = link_block [OF assms(1,3,4)] and k' = link_block [OF assms(1,6,7)]
  have l: "length ?a = 13" "bio_inv s" using assms(1) by (simp_all add: can_link_def can_update_def log_inv_def)
  have lv: "length (view s (?a ! (off div BSIZE))) = BSIZE" by (rule bio.contents_length) (rule l(2))
  have d: "distinct (take (dir_nblocks dp s) ?a)" using assms(1) by (simp add: can_link_def)
  have i: "?a ! (off' div BSIZE) = ?a ! (off div BSIZE) \<longleftrightarrow> off' div BSIZE = off div BSIZE"
    using nth_eq_iff_index_eq [OF d, of "off' div BSIZE" "off div BSIZE"] k(1,8) k'(1) l(1)
    by (simp add: NDIRECT_def)
  have "?a ! (off' div BSIZE) \<in> set (take (dir_nblocks dp s) ?a)"
    unfolding in_set_conv_nth using k'(1,8) l(1) by (intro exI [of _ "off' div BSIZE"]) (simp add: NDIRECT_def)
  then have v: "view s' (?a ! (off' div BSIZE)) = (if off' div BSIZE = off div BSIZE
      then splice (off mod BSIZE) de (view s (?a ! (off' div BSIZE))) else view s (?a ! (off' div BSIZE)))"
    using assms(2) i by (simp add: linked_def)
  have a': "i_addrs (ino dp s') = ?a" using assms(2) by (simp add: linked_def)
  show ?thesis
  proof (cases "off' div BSIZE = off div BSIZE \<and> off' \<noteq> off")
    case True
    then have "off' mod BSIZE \<noteq> off mod BSIZE" by (metis div_mult_mod_eq)
    moreover have "16 dvd off' mod BSIZE" "16 dvd off mod BSIZE"
      using assms(3,6) by (simp_all add: BSIZE_def dvd_mod)
    ultimately have "off' mod BSIZE + 16 \<le> off mod BSIZE \<or> off mod BSIZE + 16 \<le> off' mod BSIZE"
      by (elim dvdE) (simp, arith)
    then show ?thesis
      using True v a' lv entry_in_block [OF assms(3)] entry_in_block [OF assms(6)] assms(5)
      by (auto simp: dirent_def)
  next
    case False
    then show ?thesis
      using v a' lv entry_in_block [OF assms(3)] assms(5)
        slice_splice_same [of "off mod BSIZE" de "view s (?a ! (off div BSIZE))"]
      by (auto simp: dirent_def)
  qed
qed

lemma linked_offs:
  assumes "can_link dp s" "linked dp off de s s'" "16 dvd off" "off \<le> unat (i_size (ino dp s))"
  shows "dir_offs dp s' = (if off < unat (i_size (ino dp s)) then dir_offs dp s else dir_offs dp s @ [off])"
proof -
  obtain k n where k: "off = 16 * k" "unat (i_size (ino dp s)) = 16 * n" "k \<le> n"
    using assms(1,3,4) by (auto simp: can_link_def dir_ok_def elim!: dvdE)
  have "off < 6144" by (rule link_block(7) [OF assms(1,3,4)])
  moreover have "unat (i_size (ino dp s)) \<le> 6144" using assms(1) by (simp add: can_link_def dir_ok_def fs_consts)
  ultimately have "unat (of_nat (max (unat (i_size (ino dp s))) (off + 16)) :: u32) = max (unat (i_size (ino dp s))) (off + 16)"
    by (intro unat_of_nat32) simp
  then have "unat (i_size (ino dp s')) = 16 * max n (Suc k)"
    using assms(2) k by (simp add: linked_def max_def)
  then have "dir_offs dp s' = map ((*) 16) [0..<max n (Suc k)]" by (simp add: dir_offs_def)
  moreover have "max n (Suc k) = (if k < n then n else Suc n)" "\<not> k < n \<Longrightarrow> k = n" using k(3) by auto
  ultimately show ?thesis using k by (auto simp: dir_offs_def)
qed

lemma linked_dir_ok:
  assumes "can_link dp s" "linked dp off de s s'" "16 dvd off" "off \<le> unat (i_size (ino dp s))"
  shows "dir_ok dp s'"
proof -
  let ?n = "unat (i_size (ino dp s))" and ?m = "unat (i_size (ino dp s'))"
  have ok: "dir_ok dp s" using assms(1) by (simp add: can_link_def)
  obtain k n where k: "off = 16 * k" "?n = 16 * n" "k \<le> n"
    using ok assms(3,4) by (auto simp: dir_ok_def elim!: dvdE)
  have b: "off < 6144" "?n \<le> 6144" using link_block(7) [OF assms(1,3,4)] ok by (simp_all add: dir_ok_def fs_consts)
  then have "unat (of_nat (max ?n (off + 16)) :: u32) = max ?n (off + 16)" by (intro unat_of_nat32) simp
  then have m: "?m = max ?n (off + 16)" using assms(2) by (simp add: linked_def)
  have e: "?n mod 512 \<noteq> 0" using assms(1) by (simp add: can_link_def BSIZE_def)
  have cov: "j * BSIZE < ?n" if "j * BSIZE < ?m" for j
  proof (rule ccontr)
    assume "\<not> j * BSIZE < ?n"
    then have "n \<le> 32 * j" "32 * j \<le> n" using that m k by (simp_all add: BSIZE_def max_def split: if_splits)
    then show False using e k(2) by simp
  qed
  have i: "i_addrs (ino dp s') = i_addrs (ino dp s)" "i_type (ino dp s') = i_type (ino dp s)"
    "i_dev (ino dp s') = i_dev (ino dp s)" "locked s' = locked s" "\<And>b. block_ok b s' = block_ok b s"
    using assms(2) by (simp_all add: linked_def)
  have "dir_blocks_ok dp s'" using ok cov i by (simp add: dir_ok_def dir_blocks_ok_def)
  moreover have "card (locked s') + nat (lh_n s') < NBUF"
  proof -
    have "lh_n s' \<le> lh_n s + 2" "card (locked s) + nat (lh_n s) + 2 < NBUF"
      using assms(1,2) by (simp_all add: can_link_def linked_def)
    then show ?thesis unfolding i(4) by linarith
  qed
  moreover have "16 dvd ?m" using m k by (simp add: max_def)
  moreover have "?m \<le> 6144" using m b k by simp
  ultimately show ?thesis using ok assms(2) i by (simp add: dir_ok_def linked_def fs_consts)
qed

lemma dir_offs_bound:
  "x \<in> set (dir_offs dp s) \<Longrightarrow> 16 dvd x \<and> x < unat (i_size (ino dp s))"
  by (auto simp: dir_offs_def)

lemma dir_free_facts:
  assumes "dir_ok dp s"
  shows "16 dvd dir_free dp s" "dir_free dp s \<le> unat (i_size (ino dp s))"
    "dir_free dp s < unat (i_size (ino dp s)) \<Longrightarrow> dir_free dp s \<in> set (dir_offs dp s) \<and> de_inum (dirent dp (dir_free dp s) s) = 0"
proof -
  let ?f = "find (\<lambda>off. de_inum (dirent dp off s) = 0) (dir_offs dp s)"
  have "16 dvd dir_free dp s \<and> dir_free dp s \<le> unat (i_size (ino dp s)) \<and> (dir_free dp s < unat (i_size (ino dp s)) \<longrightarrow>
      dir_free dp s \<in> set (dir_offs dp s) \<and> de_inum (dirent dp (dir_free dp s) s) = 0)"
  proof (cases ?f)
    case None
    then show ?thesis using assms by (simp add: dir_free_def dir_ok_def)
  next
    case (Some x)
    then have "x \<in> set (dir_offs dp s)" "de_inum (dirent dp x s) = 0" by (auto simp: find_Some_iff)
    then show ?thesis using Some dir_offs_bound [of x dp s] by (simp add: dir_free_def)
  qed
  then show "16 dvd dir_free dp s" "dir_free dp s \<le> unat (i_size (ino dp s))"
    "dir_free dp s < unat (i_size (ino dp s)) \<Longrightarrow> dir_free dp s \<in> set (dir_offs dp s) \<and> de_inum (dirent dp (dir_free dp s) s) = 0"
    by simp_all
qed

lemma find_cong_on: "(\<And>x. x \<in> set xs \<Longrightarrow> P x = Q x) \<Longrightarrow> find P xs = find Q xs"
  by (induction xs) auto

lemma find_snoc: "find P (xs @ [x]) = (case find P xs of Some y \<Rightarrow> Some y | None \<Rightarrow> if P x then Some x else None)"
  by (induction xs) auto

text \<open>An entry is put where none was: the slot of every other key stays, that of the new one is \<open>off\<close>.\<close>

lemma linked_slot:
  assumes "can_link dp s" "dir_slot dp s (name_key name) = None" "(ucast inum :: u16) \<noteq> 0"
    "linked dp (dir_free dp s) (de_make inum name) s s'"
  shows "dir_slot dp s' key = (if key = name_key name then Some (dir_free dp s) else dir_slot dp s key)"
proof -
  define off where "off = dir_free dp s"
  let ?P = "\<lambda>k x. de_match k (dirent dp x s)" and ?Q = "\<lambda>x. de_match key (dirent dp x s')"
  have ok: "dir_ok dp s" using assms(1) by (simp add: can_link_def)
  note ff = dir_free_facts [OF ok, folded off_def]
  note ln = assms(4) [folded off_def]
  note lo = linked_offs [OF assms(1) ln ff(1,2)]
  have e: "dirent dp x s' = (if x = off then de_make inum name else dirent dp x s)"
    if "x \<in> set (dir_offs dp s) \<or> x = off" for x
    by (rule linked_dirent [OF assms(1) ln ff(1,2)]) (use that dir_offs_bound [of x dp s] ff in auto)
  have q: "?Q x \<longleftrightarrow> (if x = off then key = name_key name else ?P key x)"
    if "x \<in> set (dir_offs dp s) \<or> x = off" for x
    using e [OF that] assms(3) by (auto simp: de_match_def)
  have no: "\<not> ?P (name_key name) x" if "x \<in> set (dir_offs dp s)" for x
    using assms(2) that by (auto simp: dir_slot_def find_None_iff)
  have fr: "\<not> ?P k off" if "off < unat (i_size (ino dp s))" for k
    using ff(3) [OF that] by (simp add: de_match_def)
  show ?thesis
  proof (cases "off < unat (i_size (ino dp s))")
    case True
    then have o: "dir_offs dp s' = dir_offs dp s" "off \<in> set (dir_offs dp s)" using lo ff(3) by simp_all
    show ?thesis
    proof (cases "key = name_key name")
      case k: True
      have "find ?Q (dir_offs dp s) = Some off"
        by (rule find_set_one) (use q no k o(2) in auto)
      then show ?thesis using k o by (simp add: dir_slot_def off_def)
    next
      case k: False
      have "find ?Q (dir_offs dp s) = find (?P key) (dir_offs dp s)"
        by (rule find_cong_on) (use q fr True k in auto)
      then show ?thesis using k o by (simp add: dir_slot_def)
    qed
  next
    case False
    then have o: "dir_offs dp s' = dir_offs dp s @ [off]" using lo by simp
    have ne: "x \<noteq> off" if "x \<in> set (dir_offs dp s)" for x using dir_offs_bound [OF that] False by auto
    have "find ?Q (dir_offs dp s) = find (?P key) (dir_offs dp s)"
      by (rule find_cong_on) (use q ne in auto)
    then show ?thesis
      using q [of off] o assms(2) by (auto simp: dir_slot_def off_def find_snoc split: option.split)
  qed
qed

lemma dirlink_spec:
  assumes "can_link dp s" "dir_slot dp s (name_key name) = None" "(ucast inum :: u16) \<noteq> 0"
  shows "\<exists>s'. dirlink devs dp name inum s = Ok (0, s') \<and> dir_ok dp s' \<and> dir_map dp s' = (dir_map dp s)(name_key name \<mapsto> ucast inum)"
proof -
  have ok: "dir_ok dp s" using assms(1) by (simp add: can_link_def)
  obtain s1 where s1: "same_view s s1" "log_inv s1" "dirlookup devs dp name s = Ok (None, s1)"
    using dirlookup_spec [OF ok, of devs name] assms(2) by (auto simp: dir_result_def)
  note v1 = same_view_facts [OF s1(1)]
  have ok1: "dir_ok dp s1" by (rule dir_ok_same_view [OF ok s1(1,2)])
  obtain s2 where s2: "same_view s1 s2" "log_inv s2"
    "dirlink_free devs (unat (i_size (ino dp s))) dp 0 s1 = Ok (free_from 0 dp s1, s2)"
    using dirlink_free_spec [OF ok1, of 0 devs] v1(4) by auto
  have v: "same_view s s2" by (rule same_view_trans [OF s1(1) s2(1)])
  have fr: "free_from 0 dp s1 = dir_free dp s" "dir_free dp s2 = dir_free dp s"
    unfolding free_from_def dir_free_def offs_from_0 same_view_dir [OF s1(1)] same_view_dir [OF v] v1(4)
      same_view_facts(4) [OF v] by simp_all
  note cl = can_link_same_view [OF assms(1) v s2(2)]
  have ok2: "dir_ok dp s2" using cl by (simp add: can_link_def)
  note ff = dir_free_facts [OF ok2, unfolded fr]
  obtain s3 where s3: "writei devs dp (de_make inum name) (of_nat (dir_free dp s)) s2 = Ok (16, s3)"
    "linked dp (dir_free dp s) (de_make inum name) s2 s3"
    using writei_dirent [OF cl ff(1,2), of "de_make inum name"] by auto
  have r: "dirlink devs dp name inum s = Ok (0, s3)"
    using s1(3) s2(3) s3(1) fr v1(4) by (simp add: dirlink_def)
  have sl: "dir_slot dp s3 key = (if key = name_key name then Some (dir_free dp s) else dir_slot dp s key)" for key
    using linked_slot [OF cl _ assms(3)] s3(2) fr(2) same_view_dir(3) [OF v] assms(2) by simp
  have de: "dirent dp off s3 = (if off = dir_free dp s then de_make inum name else dirent dp off s)"
    if "off \<in> set (dir_offs dp s) \<or> off = dir_free dp s" for off
    using linked_dirent [OF cl s3(2) ff(1,2), of off] that ff same_view_dir [OF v] dir_offs_bound [of off dp s]
      same_view_facts(4) [OF v] by auto
  have ne: "off \<noteq> dir_free dp s \<and> off \<in> set (dir_offs dp s)" if "dir_slot dp s key = Some off" for off key
  proof -
    have o: "off \<in> set (dir_offs dp s)" "de_inum (dirent dp off s) \<noteq> 0"
      using that by (auto simp: dir_slot_def find_Some_iff de_match_def)
    then show ?thesis using dir_free_facts(3) [OF ok] dir_offs_bound [OF o(1)] by auto
  qed
  have "dir_map dp s3 = (dir_map dp s)(name_key name \<mapsto> ucast inum)"
  proof
    fix key
    show "dir_map dp s3 key = ((dir_map dp s)(name_key name \<mapsto> ucast inum)) key"
    proof (cases "key = name_key name")
      case True
      then show ?thesis using sl [of key] de [of "dir_free dp s"] by (simp add: dir_map_def)
    next
      case False
      then show ?thesis using sl [of key] ne [of key] de by (cases "dir_slot dp s key") (auto simp: dir_map_def)
    qed
  qed
  with r linked_dir_ok [OF cl s3(2) ff(1,2)] show ?thesis by blast
qed

section \<open>Paths\<close>

text \<open>The pieces of a path between its slashes; its elements are the pieces that are not empty.\<close>

primrec pieces :: "u8 list \<Rightarrow> u8 list list" where
  "pieces [] = [[]]"
| "pieces (c # cs) = (if c = slash then [] # pieces cs else (c # hd (pieces cs)) # tl (pieces cs))"

definition path_elems :: "u8 list \<Rightarrow> u8 list list" where
  "path_elems path = map (take DIRSIZ) (filter (\<lambda>w. w \<noteq> []) (pieces path))"

text \<open>The walk of \<open>namex\<close> along a list of elements.\<close>

primrec walk :: "'a fs_state_scheme devsw \<Rightarrow> u8 list list \<Rightarrow> bool \<Rightarrow> nat \<Rightarrow> u8 list \<Rightarrow> 'a fs_state_scheme \<Rightarrow>
    ((nat \<times> u8 list) option \<times> 'a fs_state_scheme) res" where
  "walk devs [] parent ip name s =
     (if parent then bindr (iput ip s) (\<lambda>s. Ok (None, s)) else Ok (Some (ip, name), s))"
| "walk devs (w # ws) parent ip name s =
     bindr (ilock ip s) (\<lambda>s.
     if i_type (ino ip s) \<noteq> T_DIR \<and> i_type (ino ip s) \<noteq> T_SDIR then
       bindr (iunlockput ip s) (\<lambda>s. Ok (None, s))
     else if parent \<and> ws = [] then
       bindr (iunlock ip s) (\<lambda>s. Ok (Some (ip, w), s))
     else
       bindr (dirlookup devs ip w s) (\<lambda>(r, s).
       case r of
         None \<Rightarrow> bindr (iunlockput ip s) (\<lambda>s. Ok (None, s))
       | Some (next, off) \<Rightarrow> bindr (iunlockput ip s) (\<lambda>s. walk devs ws parent next w s)))"

lemma pieces_not_Nil [simp]: "pieces path \<noteq> []"
  by (cases path) simp_all

lemma elems_drop_slashes: "path_elems (dropWhile (\<lambda>c. c = slash) path) = path_elems path"
  by (induction path) (auto simp: path_elems_def)

lemma pieces_first:
  "pieces path = takeWhile (\<lambda>c. c \<noteq> slash) path #
     (case dropWhile (\<lambda>c. c \<noteq> slash) path of [] \<Rightarrow> [] | c # cs \<Rightarrow> pieces cs)"
  by (induction path) auto

lemma path_elems_first:
  assumes "path \<noteq> []" "hd path \<noteq> slash"
  shows "path_elems path = take DIRSIZ (takeWhile (\<lambda>c. c \<noteq> slash) path) #
    path_elems (dropWhile (\<lambda>c. c = slash) (dropWhile (\<lambda>c. c \<noteq> slash) path))"
proof -
  have "takeWhile (\<lambda>c. c \<noteq> slash) path \<noteq> []" using assms by (cases path) auto
  then have "path_elems path = take DIRSIZ (takeWhile (\<lambda>c. c \<noteq> slash) path) #
      map (take DIRSIZ) (filter (\<lambda>w. w \<noteq> []) (case dropWhile (\<lambda>c. c \<noteq> slash) path of [] \<Rightarrow> [] | c # cs \<Rightarrow> pieces cs))"
    by (subst (1) path_elems_def, subst pieces_first) simp
  also have "map (take DIRSIZ) (filter (\<lambda>w. w \<noteq> []) (case dropWhile (\<lambda>c. c \<noteq> slash) path of [] \<Rightarrow> [] | c # cs \<Rightarrow> pieces cs)) =
      path_elems (dropWhile (\<lambda>c. c \<noteq> slash) path)"
  proof (cases "dropWhile (\<lambda>c. c \<noteq> slash) path")
    case Nil
    show ?thesis unfolding Nil by (simp add: path_elems_def)
  next
    case (Cons c cs)
    then have "c = slash" using hd_dropWhile [of "\<lambda>c. c \<noteq> slash" path] by simp
    then show ?thesis using Cons by (simp add: path_elems_def)
  qed
  finally show ?thesis by (simp add: elems_drop_slashes)
qed

lemma skipelem_elems:
  "skipelem path = None \<longleftrightarrow> path_elems path = []"
  "skipelem path = Some (name, rest) \<Longrightarrow> path_elems path = name # path_elems rest \<and> (rest = [] \<longleftrightarrow> path_elems rest = [])"
proof -
  let ?p = "dropWhile (\<lambda>c. c = slash) path"
  have h: "q \<noteq> [] \<Longrightarrow> hd q \<noteq> slash" if "q = dropWhile (\<lambda>c. c = slash) r" for q r
    using that hd_dropWhile [of "\<lambda>c. c = slash" r] by simp
  have e: "path_elems q = [] \<longleftrightarrow> q = []" if "q = dropWhile (\<lambda>c. c = slash) r" for q r
    using h [OF that] path_elems_first [of q] by (cases "q = []") (auto simp: path_elems_def)
  show "skipelem path = None \<longleftrightarrow> path_elems path = []"
    using e [OF refl, of path] by (simp add: skipelem_def Let_def elems_drop_slashes)
  assume a: "skipelem path = Some (name, rest)"
  then have p: "?p \<noteq> []" and n: "name = take DIRSIZ (takeWhile (\<lambda>c. c \<noteq> slash) ?p)"
    and r: "rest = dropWhile (\<lambda>c. c = slash) (dropWhile (\<lambda>c. c \<noteq> slash) ?p)"
    by (auto simp: skipelem_def Let_def split: if_splits)
  show "path_elems path = name # path_elems rest \<and> (rest = [] \<longleftrightarrow> path_elems rest = [])"
    using path_elems_first [OF p h [OF refl p]] n r e [OF r] elems_drop_slashes [of path] by simp
qed

section \<open>A sample directory\<close>

text \<open>
  A directory with two entries in block 60, both with the name of 14 bytes 1 and the number 257;
  the inode cache holds its inode and a free entry.
\<close>

definition sample_dir_inode :: inode where
  "sample_dir_inode = sample_inode\<lparr>i_type := T_DIR, i_size := 32, i_addrs := 60 # replicate 12 0\<rparr>"

lemma sample_dir:
  obtains s :: fs_state where "can_link 0 s" "dir_map 0 s (replicate 14 1) = Some 257"
    "dir_slot 0 s (name_key [0x61]) = None" "ino 0 s = sample_dir_inode" "log_start s = 2" "disksize s = 1000"
    "dir_slot 0 s (replicate 14 1) = Some 0" "icache s = [sample_dir_inode, sample_dir_inode\<lparr>i_ref := 0\<rparr>]"
proof -
  obtain l :: log_state where l: "log_inv l" "locked l = {}" "log_start l = 2" "log_size l = 30" "lh_n l = 1"
    "log_outstanding l = 1" "disksize l = 1000" "view l 60 = replicate BSIZE 1"
    using sample_txn by metis
  define s where "s = log_state.extend l (fs_state.fields sample_superblock [sample_dir_inode, sample_dir_inode\<lparr>i_ref := 0\<rparr>] 0)"
  have m: "log_state.more s = fs_state.fields sample_superblock [sample_dir_inode, sample_dir_inode\<lparr>i_ref := 0\<rparr>] 0" by (simp add: s_def extend_views)
  have f: "icache s = [sample_dir_inode, sample_dir_inode\<lparr>i_ref := 0\<rparr>]" "sb s = sample_superblock"
    using m by (cases s; simp add: fs_state.defs)+
  have e: "log_inv s = log_inv l" "locked s = locked l" "log_start s = log_start l" "log_size s = log_size l"
    "lh_n s = lh_n l" "log_outstanding s = log_outstanding l" "disksize s = disksize l" "view s = view l"
    by (simp_all add: s_def extend_views)
  have i: "ino 0 s = sample_dir_inode" by (simp add: ino_def f)
  note ii = sample_dir_inode_def sample_inode_def
  have b: "iblk 0 s = 32" by (simp add: iblk_def i f ii sample_superblock_def IBLOCK_def IPB_def)
  have "can_update 0 s"
    unfolding can_update_def i b f block_ok_def e using l by (simp add: ii in_log_def NBUF_def)
  moreover have "k = 0" if "k * 512 < 32" for k :: nat using that by simp
  then have "dir_ok 0 s"
    unfolding dir_ok_def dir_blocks_ok_def i block_ok_def e using l
    by (auto simp: ii in_log_def NBUF_def fs_consts)
  moreover have "dir_nblocks 0 s = 1" by (simp add: dir_nblocks_def i ii BSIZE_def)
  ultimately have cl: "can_link 0 s"
    unfolding can_link_def i b e using l by (simp add: ii BSIZE_def NBUF_def)
  have de: "dirent 0 off s = replicate 16 1" if "off < 32" "16 dvd off" for off
    using that entry_in_block [of off] by (simp add: dirent_def i ii e l slice_def BSIZE_def)
  have offs: "dir_offs 0 s = [0, 16]" by (simp add: dir_offs_def i ii upt_rec)
  have nk: "de_inum (replicate 16 1) = 257" "name_key (de_name (replicate 16 1)) = replicate 14 1"
    "name_key [0x61] = 0x61 # replicate 13 0"
    by (simp_all add: de_inum_def de_name_def get16_def of_le16_def slice_def name_key_def DIRSIZ_def lstr_def numeral_eq_Suc)
  have ne: "replicate 14 (1 :: u8) \<noteq> 0x61 # replicate 13 0" by (simp add: numeral_eq_Suc)
  have "dir_map 0 s (replicate 14 1) = Some 257" "dir_slot 0 s (name_key [0x61]) = None" "dir_slot 0 s (replicate 14 1) = Some 0"
    using ne by (simp_all add: dir_map_def dir_slot_def offs de de_match_def nk)
  then show ?thesis using that cl i e l f(1) by metis
qed

section \<open>Properties\<close>

text \<open>
  C9. \<open>dirlookup\<close> implements lookup in the map that the bytes of a directory stand for, for a
  directory in direct blocks that nobody holds.  A name without an entry gives no inode.  For any other
  name the result is the offset of its first entry and the entry of the inode cache for the inode number
  of the name, with one more reference, or recycled from a free one if the inode was not in the cache;
  no other entry of the cache and no block changes.  Only when there is no entry to take does the call
  not return but panic.
\<close>

theorem dirlookup_is_lookup:
  assumes "dir_ok dp s"
  shows "case dir_map dp s (name_key name) of
      None \<Rightarrow> \<exists>s'. dirlookup devs dp name s = Ok (None, s') \<and> log_inv s' \<and> view s' = view s \<and> icache s' = icache s
    | Some inum \<Rightarrow>
        if \<exists>i \<in> set (icache s). ihit 1 (ucast inum) i \<or> i_ref i = 0
        then \<exists>ip s'. dirlookup devs dp name s = Ok (Some (ip, the (dir_slot dp s (name_key name))), s') \<and> log_inv s' \<and>
          view s' = view s \<and> ip < length (icache s) \<and> icache s' = (icache s)[ip := taken 1 (ucast inum) (ino ip s)] \<and>
          (ihit 1 (ucast inum) (ino ip s) \<or> i_ref (ino ip s) = 0 \<and> (\<forall>i \<in> set (icache s). \<not> ihit 1 (ucast inum) i))
        else dirlookup devs dp name s = Fail (Panic ''iget: no inodes'')"
proof -
  obtain s' where s': "same_view s s'" "log_inv s'"
    "dirlookup devs dp name s = dir_result dp (dir_slot dp s (name_key name)) s'"
    using dirlookup_spec [OF assms] by blast
  note v = same_view_facts [OF s'(1)]
  show ?thesis
  proof (cases "dir_slot dp s (name_key name)")
    case None
    then show ?thesis using s'(2,3) v by (simp add: dir_map_def dir_result_def)
  next
    case (Some off)
    define inum where "inum = de_inum (dirent dp off s)"
    have m: "dir_map dp s (name_key name) = Some inum" using Some by (simp add: dir_map_def inum_def)
    have r: "dirlookup devs dp name s = bindr (iget 1 (ucast inum) s') (\<lambda>(ip, s). Ok (Some (ip, off), s))"
      using s'(3) Some same_view_dir(1) [OF s'(1)] by (simp add: dir_result_def inum_def)
    show ?thesis
    proof (cases "\<exists>i \<in> set (icache s). ihit 1 (ucast inum) i \<or> i_ref i = 0")
      case True
      then obtain ip where ip: "iget 1 (ucast inum) s' = Ok (ip, upd_ip ip (taken 1 (ucast inum)) s')" "ip < length (icache s)"
        "ihit 1 (ucast inum) (ino ip s) \<or> i_ref (ino ip s) = 0 \<and> (\<forall>i \<in> set (icache s). \<not> ihit 1 (ucast inum) i)"
        using iget_takes [of s' 1 "ucast inum"] v by metis
      have "icache (upd_ip ip (taken 1 (ucast inum)) s') = (icache s)[ip := taken 1 (ucast inum) (ino ip s)]"
        using v by (simp add: upd_ip_def ino_def)
      then show ?thesis using True m Some r ip s'(2) v(1) by auto
    next
      case False
      then show ?thesis using m r iget_full [of s' 1 "ucast inum"] v(5) by auto
    qed
  qed
qed

theorem dirlookup_is_lookup_witness:
  "\<exists>s :: fs_state. (\<exists>s'. dirlookup devs0 0 [0x61] s = Ok (None, s')) \<and>
    (\<exists>s'. dirlookup devs0 0 (replicate 14 1) s = Ok (Some (1, 0), s') \<and> i_inum (ino 1 s') = 257 \<and> i_ref (ino 1 s') = 1)"
proof -
  obtain s :: fs_state where s: "can_link 0 s" "dir_map 0 s (replicate 14 1) = Some 257"
    "dir_slot 0 s (name_key [0x61]) = None" "ino 0 s = sample_dir_inode" "dir_slot 0 s (replicate 14 1) = Some 0"
    "icache s = [sample_dir_inode, sample_dir_inode\<lparr>i_ref := 0\<rparr>]"
    by (rule sample_dir)
  have ok: "dir_ok 0 s" using s(1) by (simp add: can_link_def)
  have k: "name_key (replicate 14 1) = replicate 14 1" by (simp add: name_key_def DIRSIZ_def lstr_def numeral_eq_Suc)
  have n: "\<not> ihit 1 257 sample_dir_inode" by (simp add: ihit_def sample_dir_inode_def sample_inode_def)
  obtain s1 where s1: "dirlookup devs0 0 [0x61] s = Ok (None, s1)"
    using dirlookup_is_lookup [OF ok, where name = "[0x61]" and devs = devs0] s(3) by (auto simp: dir_map_def)
  obtain ip s2 where s2: "dirlookup devs0 0 (replicate 14 1) s = Ok (Some (ip, 0), s2)" "ip < 2"
    "icache s2 = (icache s)[ip := taken 1 257 (ino ip s)]" "ihit 1 257 (ino ip s) \<or> i_ref (ino ip s) = 0"
    using dirlookup_is_lookup [OF ok, where name = "replicate 14 1" and devs = devs0] s(2,5,6) by (auto simp: k)
  have "ip = 1"
    using s2(2,4) s(4) n by (cases ip) (auto simp: sample_dir_inode_def sample_inode_def)
  then have "ino 1 s2 = taken 1 257 (sample_dir_inode\<lparr>i_ref := 0\<rparr>)" using s2(3) s(6) by (simp add: ino_def)
  then show ?thesis using s1 s2(1) \<open>ip = 1\<close> by (intro exI [of _ s]) (auto simp: taken_def ihit_def)
qed

text \<open>
  C23. The loop of \<open>namex\<close>, which cuts one element after the other from the path with
  \<open>skipelem\<close>, is the walk along the pieces between the slashes: empty pieces are skipped, pieces
  longer than \<open>DIRSIZ\<close> are cut off, and the parent directory is returned at the last of them.
\<close>

theorem namex_walks_elements:
  "namex_loop devs path parent ip name s = walk devs (path_elems path) parent ip name s"
proof (induction "length path" arbitrary: path ip name s rule: less_induct)
  case less
  show ?case
  proof (cases "skipelem path")
    case None
    then show ?thesis using skipelem_elems(1) [of path] by (simp add: namex_loop.simps [of _ path])
  next
    case (Some r)
    then obtain w rest where r: "skipelem path = Some (w, rest)" by (cases r) auto
    note e = skipelem_elems(2) [OF r]
    have ih: "namex_loop devs rest parent = walk devs (path_elems rest) parent"
      by (intro ext less) (rule skipelem_shorter [OF r])
    show ?thesis using r e by (simp add: namex_loop.simps [of _ path], unfold ih, simp cong: if_cong)
  qed
qed

text \<open>
  C8. \<open>dirlink\<close> implements the update of the map.  For a name that the directory does not have
  it succeeds, in the first free entry or behind the last one: afterwards the name is mapped to the
  inode number, every other name to what it was mapped to, and the directory is well-formed.
\<close>

theorem dirlink_is_update:
  assumes "can_link dp s" "dir_map dp s (name_key name) = None" "(ucast inum :: u16) \<noteq> 0"
  shows "\<exists>s'. dirlink devs dp name inum s = Ok (0, s') \<and> dir_ok dp s' \<and>
    dir_map dp s' = (dir_map dp s)(name_key name \<mapsto> ucast inum)"
  by (rule dirlink_spec) (use assms in \<open>simp_all add: dir_map_def\<close>)

theorem dirlink_is_update_witness:
  "\<exists>(s :: fs_state) s'. dirlink devs0 0 [0x61] 7 s = Ok (0, s') \<and> dir_map 0 s' (name_key [0x61]) = Some 7 \<and>
    dir_map 0 s' (replicate 14 1) = Some 257"
proof -
  obtain s :: fs_state where s: "can_link 0 s" "dir_map 0 s (replicate 14 1) = Some 257"
    "dir_slot 0 s (name_key [0x61]) = None"
    by (rule sample_dir)
  have k: "dir_map 0 s (name_key [0x61]) = None" "name_key [0x61] \<noteq> replicate 14 1"
    using s(2,3) by (auto simp: dir_map_def)
  obtain s' where "dirlink devs0 0 [0x61] 7 s = Ok (0, s')"
    "dir_map 0 s' = (dir_map 0 s)(name_key [0x61] \<mapsto> ucast (7 :: u32))"
    using dirlink_is_update [OF s(1) k(1), of 7 devs0] by auto
  then show ?thesis using s(2) k(2) by (intro exI [of _ s] exI [of _ s']) auto
qed

end
