(* ===== verification/Xv6_Fref.thy ===== *)
theory Xv6_Fref
  imports Xv6_Sysfile Xv6_Inode
begin

text \<open>
  Reference counts of open files: \<open>sys_dup\<close> and \<open>sys_close\<close> keep the difference between the
  count in the file table and the number of descriptors of the process that refer to the file,
  which are the references of the other processes.  For \<open>close\<close> this rests on the lower layers: the
  log and the inodes leave the file table and the descriptors alone.
\<close>

section \<open>What the lower layers leave alone\<close>

named_theorems frames

lemma upd_buf_more [simp]: "bstate.more (upd_buf i f s) = bstate.more s"
  by (simp add: upd_buf_def)

lemma upd_buf_log_more [simp]: "log_state.more (upd_buf i f s) = log_state.more s"
  by (cases s) (simp add: upd_buf_def)

lemma set_bdata_log_more [simp]: "log_state.more (set_bdata i d s) = log_state.more s"
  by (simp add: set_bdata_def)

lemma log_more_bstate: "bstate.more s' = bstate.more s \<Longrightarrow> log_state.more s' = log_state.more s"
  by (cases s; cases s') simp

lemma iderw_more: "iderw i s = Ok s' \<Longrightarrow> bstate.more s' = bstate.more s"
  by (auto simp: iderw_def Let_def split: if_splits)

lemma lock_buf_more: "lock_buf i s = Ok s' \<Longrightarrow> bstate.more s' = bstate.more s"
  by (auto simp: lock_buf_def res_simps)

lemma bget_more: "bget dev b s = Ok (i, s') \<Longrightarrow> bstate.more s' = bstate.more s"
  by (auto simp: bget_def res_simps split: option.splits dest!: lock_buf_more)

lemma bread_frame [frames]:
  assumes "bread dev b s = Ok (i, s')"
  shows "log_state.more s' = log_state.more s"
  by (rule log_more_bstate)
    (use assms in \<open>auto simp: bread_def res_simps split: if_splits dest!: bget_more iderw_more\<close>)

lemma bwrite_frame [frames]: "bwrite i s = Ok s' \<Longrightarrow> log_state.more s' = log_state.more s"
  by (rule log_more_bstate) (auto simp: bwrite_def split: if_splits dest!: iderw_more)

lemma brelse_frame [frames]: "brelse i s = Ok s' \<Longrightarrow> log_state.more s' = log_state.more s"
  by (rule log_more_bstate) (auto simp: brelse_def Let_def split: if_splits)

lemma install_trans_loop_frame [frames]:
  "install_trans_loop k tail s = Ok s' \<Longrightarrow> log_state.more s' = log_state.more s"
  by (induction k arbitrary: tail s) (auto simp: res_simps dest!: frames)

lemma write_log_loop_frame [frames]:
  "write_log_loop k tail s = Ok s' \<Longrightarrow> log_state.more s' = log_state.more s"
  by (induction k arbitrary: tail s) (auto simp: res_simps dest!: frames)

lemma write_head_frame [frames]: "write_head s = Ok s' \<Longrightarrow> log_state.more s' = log_state.more s"
  by (auto simp: write_head_def res_simps dest!: frames)

lemma commit_frame [frames]: "commit s = Ok s' \<Longrightarrow> log_state.more s' = log_state.more s"
  by (auto simp: commit_def write_log_def install_trans_def res_simps split: if_splits dest!: frames)

lemma begin_op_frame [frames]: "begin_op s = Ok s' \<Longrightarrow> log_state.more s' = log_state.more s"
  by (auto simp: begin_op_def split: if_splits)

lemma end_op_frame [frames]: "end_op s = Ok s' \<Longrightarrow> log_state.more s' = log_state.more s"
  by (auto simp: end_op_def Let_def res_simps split: if_splits dest!: frames)

lemma log_write_frame [frames]: "log_write b s = Ok s' \<Longrightarrow> log_state.more s' = log_state.more s"
  by (auto simp: log_write_def set_lh_block_def Let_def res_simps split: if_splits)

text \<open>The inode layer adds fields of its own; what lies above it is \<open>fs_state.more\<close>.\<close>

named_theorems fs_frames

lemmas log_fs_frames [fs_frames] =
  bread_frame [THEN fs_more(5)] brelse_frame [THEN fs_more(5)] log_write_frame [THEN fs_more(5)]
  begin_op_frame [THEN fs_more(5)] end_op_frame [THEN fs_more(5)]

lemma upd_ip_more [simp]: "fs_state.more (upd_ip ip f s) = fs_state.more s"
  by (simp add: upd_ip_def)

lemma set_bdata_fs_more [simp]: "fs_state.more (set_bdata i d s) = fs_state.more s"
  by (rule fs_more(5)) simp

lemma readsb_frame [fs_frames]: "readsb dev s = Ok (q, s') \<Longrightarrow> fs_state.more s' = fs_state.more s"
  by (auto simp: readsb_def Let_def res_simps dest!: fs_frames)

lemma bfree_frame [fs_frames]: "bfree dev b s = Ok s' \<Longrightarrow> fs_state.more s' = fs_state.more s"
  by (auto simp: bfree_def Let_def res_simps split: if_splits dest!: fs_frames)

lemma iupdate_frame [fs_frames]: "iupdate ip s = Ok s' \<Longrightarrow> fs_state.more s' = fs_state.more s"
  by (auto simp: iupdate_def Let_def res_simps dest!: fs_frames)

lemma itrunc_direct_frame [fs_frames]: "itrunc_direct k i ip s = Ok s' \<Longrightarrow> fs_state.more s' = fs_state.more s"
  by (induction k arbitrary: i s) (auto simp: res_simps split: if_splits dest!: fs_frames)

lemma itrunc_indirect_frame [fs_frames]:
  "itrunc_indirect k j bp dev s = Ok s' \<Longrightarrow> fs_state.more s' = fs_state.more s"
  by (induction k arbitrary: j s) (auto simp: Let_def res_simps split: if_splits dest!: fs_frames)

lemma itrunc_frame [fs_frames]: "itrunc ip s = Ok s' \<Longrightarrow> fs_state.more s' = fs_state.more s"
  by (auto simp: itrunc_def res_simps split: if_splits dest!: fs_frames)

lemma iput_frame [fs_frames]: "iput ip s = Ok s' \<Longrightarrow> fs_state.more s' = fs_state.more s"
  by (auto simp: iput_def res_simps split: if_splits dest!: fs_frames)

lemma fs_more_file:
  assumes "fs_state.more s' = fs_state.more s"
  shows "ftable s' = ftable s" "ofile s' = ofile s"
  using assms by (cases s; cases s'; simp)+

section \<open>Closing a file\<close>

text \<open>\<open>fileclose\<close> takes one reference and touches no other entry and no descriptor.\<close>

lemma kpipeclose_frame:
  "kpipeclose p w s = Ok s' \<Longrightarrow> ftable s' = ftable s \<and> ofile s' = ofile s"
  by (auto simp: kpipeclose_def Let_def res_simps split: prod.splits if_splits)

lemma upd_file_sel [simp]:
  "ofile (upd_file f g s) = ofile s" "length (ftable (upd_file f g s)) = length (ftable s)"
  "f < length (ftable s) \<Longrightarrow> fil h (upd_file f g s) = (if h = f then g (fil f s) else fil h s)"
  by (simp_all add: upd_file_def fil_def)

text \<open>What \<open>fileclose\<close> does with the object of the last reference.\<close>

lemma close_last:
  assumes "(case f_type ff of FD_PIPE \<Rightarrow> kpipeclose (f_pipe ff) (f_writable ff) s
      | FD_INODE \<Rightarrow> bindr (begin_op s) (\<lambda>s. bindr (iput (f_ip ff) s) end_op)
      | FD_NONE \<Rightarrow> Ok s) = Ok s'"
  shows "ftable s' = ftable s" "ofile s' = ofile s"
proof -
  have "ftable s' = ftable s \<and> ofile s' = ofile s"
  proof (cases "f_type ff")
    case FD_PIPE
    show ?thesis by (rule kpipeclose_frame) (use assms FD_PIPE in simp)
  next
    case FD_INODE
    then have "bindr (begin_op s) (\<lambda>s. bindr (iput (f_ip ff) s) end_op) = Ok s'" using assms by simp
    then obtain t u where t: "begin_op s = Ok t" "iput (f_ip ff) t = Ok u" "end_op u = Ok s'"
      by (elim bindrE)
    have "fs_state.more s' = fs_state.more s"
      using begin_op_frame [THEN fs_more(5), OF t(1)] iput_frame [OF t(2)] end_op_frame [THEN fs_more(5), OF t(3)] by simp
    then show ?thesis by (intro conjI fs_more_file)
  next
    case FD_NONE
    then show ?thesis using assms by simp
  qed
  then show "ftable s' = ftable s" "ofile s' = ofile s" by simp_all
qed

lemma fileclose_shared:
  "f < length (ftable s) \<Longrightarrow> 1 < f_ref (fil f s) \<Longrightarrow> fileclose f s = Ok (upd_file f (\<lambda>x. x\<lparr>f_ref := f_ref x - 1\<rparr>) s)"
  by (simp add: fileclose_def Let_def)

lemma fileclose_refs:
  assumes "fileclose f s = Ok s'" "f < length (ftable s)"
  shows "f_ref (fil h s') = f_ref (fil h s) - (if h = f then 1 else 0)" "ofile s' = ofile s"
    "length (ftable s') = length (ftable s)" "1 \<le> f_ref (fil f s)"
proof -
  let ?s1 = "upd_file f (\<lambda>x. x\<lparr>f_ref := f_ref x - 1\<rparr>) s"
  let ?s2 = "upd_file f (\<lambda>x. x\<lparr>f_ref := 0, f_type := FD_NONE\<rparr>) ?s1"
  show r: "1 \<le> f_ref (fil f s)" using assms by (auto simp: fileclose_def split: if_splits)
  have "f_ref (fil h s') = f_ref (fil h s) - (if h = f then 1 else 0) \<and> ofile s' = ofile s \<and>
    length (ftable s') = length (ftable s)"
  proof (cases "1 < f_ref (fil f s)")
    case True
    then have "s' = ?s1" using assms fileclose_shared [of f s] by simp
    then show ?thesis using assms(2) by simp
  next
    case False
    define ff where "ff = fil f ?s1"
    define s2 where "s2 = ?s2"
    have e: "(case f_type ff of FD_PIPE \<Rightarrow> kpipeclose (f_pipe ff) (f_writable ff) s2
        | FD_INODE \<Rightarrow> bindr (begin_op s2) (\<lambda>s. bindr (iput (f_ip ff) s) end_op)
        | FD_NONE \<Rightarrow> Ok s2) = Ok s'"
      using assms r False unfolding fileclose_def Let_def ff_def [symmetric] s2_def [symmetric] by (simp add: ff_def)
    note k = close_last [OF e]
    have "fil h s2 = (if h = f then (fil f s)\<lparr>f_ref := 0, f_type := FD_NONE\<rparr> else fil h s)"
      "ofile s2 = ofile s" "length (ftable s2) = length (ftable s)"
      using assms(2) by (simp_all add: s2_def)
    then show ?thesis using k r False by (simp add: fil_def)
  qed
  then show "f_ref (fil h s') = f_ref (fil h s) - (if h = f then 1 else 0)" "ofile s' = ofile s"
    "length (ftable s') = length (ftable s)" by simp_all
qed

section \<open>Descriptors\<close>

definition open_refs :: "nat \<Rightarrow> nat option list \<Rightarrow> int" where
  "open_refs f fds = int (length (filter (\<lambda>x. x = Some f) fds))"

definition other_refs :: "nat \<Rightarrow> 'a file_state_scheme \<Rightarrow> int" where
  "other_refs f s = f_ref (fil f s) - open_refs f (ofile s)"

text \<open>\<open>fds_ok\<close>: sixteen descriptors, each null or a file of the table that is counted.\<close>

definition fds_ok :: "'a file_state_scheme \<Rightarrow> bool" where
  "fds_ok s \<longleftrightarrow> length (ofile s) = NOFILE \<and>
     (\<forall>f. Some f \<in> set (ofile s) \<longrightarrow> f < length (ftable s)) \<and> (\<forall>f < length (ftable s). 0 \<le> other_refs f s)"

lemma open_refs_simps [simp]:
  "open_refs f [] = 0" "open_refs f (x # fds) = (if x = Some f then 1 else 0) + open_refs f fds"
  by (simp_all add: open_refs_def)

lemma open_refs_update:
  assumes "fd < length fds"
  shows "open_refs f (fds[fd := x]) = open_refs f fds - (if fds ! fd = Some f then 1 else 0) + (if x = Some f then 1 else 0)"
  using assms
proof (induction fds arbitrary: fd)
  case (Cons y fds)
  then show ?case by (cases fd) simp_all
qed simp

lemma fdalloc_scan_spec: "fdalloc_scan xs k = Some fd \<Longrightarrow> k \<le> fd \<and> fd - k < length xs \<and> xs ! (fd - k) = None"
proof (induction xs k rule: fdalloc_scan.induct)
  case (2 x xs k)
  then show ?case by (auto simp: nth_Cons' Suc_diff_le split: if_splits)
qed simp

lemma open_refs_pos: "Some f \<in> set fds \<Longrightarrow> 1 \<le> open_refs f fds"
proof (induction fds)
  case (Cons x fds)
  have "0 \<le> open_refs f fds" by (simp add: open_refs_def)
  then show ?case using Cons by auto
qed simp

lemma argfd_facts:
  assumes "argfd n s = Some (fd, f)" "fds_ok s"
  shows "fd < length (ofile s)" "ofile s ! fd = Some f" "f < length (ftable s)" "1 \<le> f_ref (fil f s)"
proof -
  show fd: "fd < length (ofile s)" "ofile s ! fd = Some f"
    using assms by (auto simp: argfd_def fds_ok_def Let_def split: option.splits if_splits)
  then have m: "Some f \<in> set (ofile s)" by (metis nth_mem)
  then show f: "f < length (ftable s)" using assms(2) by (simp add: fds_ok_def)
  have "0 \<le> other_refs f s" using assms(2) f by (simp add: fds_ok_def)
  then show "1 \<le> f_ref (fil f s)" using open_refs_pos [OF m] by (simp add: other_refs_def)
qed

text \<open>A step that moves one reference between the descriptors and the table keeps \<open>fds_ok\<close>.\<close>

lemma fds_ok_move:
  assumes "fds_ok s" "\<And>h. h < length (ftable s) \<Longrightarrow> other_refs h s' = other_refs h s"
    "length (ftable s') = length (ftable s)" "ofile s' = (ofile s)[fd := x]" "\<And>f. x = Some f \<Longrightarrow> f < length (ftable s)"
  shows "fds_ok s'"
proof -
  have "f < length (ftable s)" if "Some f \<in> set ((ofile s)[fd := x])" for f
    using set_update_subset_insert [of "ofile s" fd x] that assms(1,5) by (auto simp: fds_ok_def)
  then show ?thesis using assms by (simp add: fds_ok_def)
qed

lemma sys_dup_refs:
  assumes "fds_ok s"
  obtains r s' where "sys_dup s = Ok (r, s')" "fds_ok s'" "length (ftable s') = length (ftable s)"
    "\<And>h. h < length (ftable s) \<Longrightarrow> other_refs h s' = other_refs h s"
proof (cases "\<exists>fd f fd'. argfd 0 s = Some (fd, f) \<and> fdalloc_scan (ofile s) 0 = Some fd'")
  case True
  then obtain fd f fd' where a: "argfd 0 s = Some (fd, f)" "fdalloc_scan (ofile s) 0 = Some fd'" by blast
  note af = argfd_facts [OF a(1) assms]
  have n: "fd' < length (ofile s)" "ofile s ! fd' = None" using fdalloc_scan_spec [OF a(2)] by simp_all
  define t where "t = upd_file f (\<lambda>x. x\<lparr>f_ref := f_ref x + 1\<rparr>) (s\<lparr>ofile := (ofile s)[fd' := Some f]\<rparr>)"
  have e: "sys_dup s = Ok (int fd', t)"
    using a af(4) by (simp add: sys_dup_def fdalloc_def filedup_def fil_def t_def)
  have tf: "ofile t = (ofile s)[fd' := Some f]" "length (ftable t) = length (ftable s)"
    "\<And>h. f_ref (fil h t) = f_ref (fil h s) + (if h = f then 1 else 0)"
    using af(3) by (simp_all add: t_def upd_file_def fil_def)
  then have o: "other_refs h t = other_refs h s" for h
    using open_refs_update [OF n(1), of h "Some f"] n(2) by (simp add: other_refs_def)
  show ?thesis by (rule that [OF e fds_ok_move [OF assms o tf(2,1)] tf(2) o]) (use af(3) in simp)
next
  case False
  then have "sys_dup s = Ok (- 1, s)"
    by (auto simp: sys_dup_def fdalloc_def split: option.splits)
  then show ?thesis using that assms by blast
qed

lemma sys_close_refs:
  assumes "fds_ok s" "sys_close s = Ok (r, s')"
  shows "fds_ok s' \<and> length (ftable s') = length (ftable s) \<and> (\<forall>h < length (ftable s). other_refs h s' = other_refs h s)"
proof (cases "argfd 0 s")
  case None
  then show ?thesis using assms by (simp add: sys_close_def)
next
  case (Some p)
  then obtain fd f where a: "argfd 0 s = Some (fd, f)" by (cases p) auto
  note af = argfd_facts [OF a assms(1)]
  define t where "t = s\<lparr>ofile := (ofile s)[fd := None]\<rparr>"
  have t: "ftable t = ftable s" "ofile t = (ofile s)[fd := None]" "\<And>h. fil h t = fil h s"
    by (simp_all add: t_def fil_def)
  have c: "fileclose f t = Ok s'" using assms(2) a by (auto simp: sys_close_def t_def res_simps)
  note cl = fileclose_refs [OF c, unfolded t(1,3), OF af(3)]
  have o: "other_refs h s' = other_refs h s" for h
    using cl(1) [of h] cl(2) t(2) open_refs_update [OF af(1), of h None] af(2) by (simp add: other_refs_def)
  have "fds_ok s'" by (rule fds_ok_move [OF assms(1) o cl(3), of fd None]) (use cl(2) t(2) in simp_all)
  then show ?thesis using o cl(3) by blast
qed

section \<open>Properties\<close>

text \<open>File 0 is open as descriptor 0 here and once more in another process.\<close>

definition sample_fds :: sys_state where
  "sample_fds = \<lparr>cur_pid = 1, memdisk = (\<lambda>_. []), disksize = 0, dhist = [], bufs = [], log_start = 0, log_size = 0,
     log_outstanding = 0, log_committing = False, log_dev = 0, lh_n = 0, lh_block = [],
     sb = sample_superblock, icache = [], cwd = 0,
     ftable = [\<lparr>f_type = FD_INODE, f_ref = 2, f_readable = True, f_writable = True, f_pipe = 0, f_ip = 0, f_off = 0\<rparr>],
     pipes = (\<lambda>_. pipe_init []), kpool = \<lparr>use_lock = False, freelist = 0, kmem_mem = (\<lambda>_. 0)\<rparr>,
     kend = 0x80100000, ofile = Some 0 # replicate 15 None, pkilled = False, psz = 4096,
     umem = (\<lambda>_. 0), tf_esp = 0, count_array = [], inits = False, numberz = 0\<rparr>"

text \<open>
  C15. Reference counts of open files are exact.  \<open>dup\<close> always returns, and it and \<open>close\<close>
  keep, for every file of the table, the references that are not descriptors of the running process:
  one descriptor more is one count more, one less is one less, so that a file is freed neither while
  a descriptor refers to it nor, when the last one is closed, kept.
\<close>

theorem fd_refs_balanced:
  assumes "fds_ok s"
  shows "(\<exists>r s'. sys_dup s = Ok (r, s') \<and> fds_ok s' \<and> (\<forall>f < length (ftable s). other_refs f s' = other_refs f s)) \<and>
    (\<forall>r s'. sys_close s = Ok (r, s') \<longrightarrow> fds_ok s' \<and> (\<forall>f < length (ftable s). other_refs f s' = other_refs f s))"
proof (rule conjI)
  obtain r s' where "sys_dup s = Ok (r, s')" "fds_ok s'" "\<And>h. h < length (ftable s) \<Longrightarrow> other_refs h s' = other_refs h s"
    by (rule sys_dup_refs [OF assms]) blast
  then show "\<exists>r s'. sys_dup s = Ok (r, s') \<and> fds_ok s' \<and> (\<forall>f < length (ftable s). other_refs f s' = other_refs f s)"
    by blast
qed (use sys_close_refs [OF assms] in blast)

theorem fd_refs_balanced_witness:
  "(\<exists>r s'. sys_dup sample_fds = Ok (r, s') \<and> other_refs 0 s' = 1) \<and>
   (\<exists>s'. sys_close sample_fds = Ok (0, s') \<and> other_refs 0 s' = 1 \<and> f_ref (fil 0 s') = 1)"
proof -
  have o: "other_refs 0 sample_fds = 1" "length (ftable sample_fds) = 1"
    by (simp_all add: other_refs_def fil_def sample_fds_def open_refs_def)
  have ok: "fds_ok sample_fds"
    using o by (simp add: fds_ok_def sample_fds_def NOFILE_def)
  have a: "argfd 0 sample_fds = Some (0, 0)"
    by (simp add: argfd_def argint_def fetchint_def sample_fds_def load32_def NOFILE_def of_le32_def)
  let ?t = "sample_fds\<lparr>ofile := (ofile sample_fds)[0 := None]\<rparr>"
  have t: "0 < length (ftable ?t)" "f_ref (fil 0 ?t) = 2" by (simp_all add: fil_def sample_fds_def)
  obtain s' where "sys_close sample_fds = Ok (0, s')" "f_ref (fil 0 s') = 1"
    using fileclose_shared [of 0 ?t] t upd_file_sel(3) [OF t(1), of 0] by (simp add: sys_close_def a)
  then show ?thesis using fd_refs_balanced [OF ok] o by fastforce
qed

end
