(* ===== verification/Xv6_Ide.thy ===== *)
theory Xv6_Ide
  imports Xv6_Bio
begin

unbundle bit_operations_syntax

text \<open>
  The IDE driver, \<^verbatim>\<open>ide.c\<close>: the queue of requests that is linked through the \<open>qnext\<close> fields of the
  buffers, the start of a request at the ports of the disk, and the interrupt that ends it.  The kernel is
  linked with this driver or with \<^verbatim>\<open>memide.c\<close>, whose \<open>iderw\<close> is that of the buffer cache's theory;
  a request and its interrupt have the effect of that one.

  The disk is a parameter: the functions that the port instructions compute on its state.  What the
  driver relies on, the behaviour of an ATA disk, is the predicate \<open>ata_ok\<close>.  The code between
  \<open>acquire\<close> and \<open>release\<close> of \<open>idelock\<close> is one step; \<open>iderw\<close> is split where it sleeps.
  \<open>wakeup\<close> records its channel.  The loop that waits for the disk has fuel, a parameter again.
\<close>

section \<open>The driver\<close>

abbreviation SECTOR_SIZE :: nat where "SECTOR_SIZE \<equiv> 512"
abbreviation IDE_BSY :: u8 where "IDE_BSY \<equiv> 0x80"
abbreviation IDE_DRDY :: u8 where "IDE_DRDY \<equiv> 0x40"
abbreviation IDE_DF :: u8 where "IDE_DF \<equiv> 0x20"
abbreviation IDE_ERR :: u8 where "IDE_ERR \<equiv> 0x01"
abbreviation IDE_CMD_READ :: u8 where "IDE_CMD_READ \<equiv> 0x20"
abbreviation IDE_CMD_WRITE :: u8 where "IDE_CMD_WRITE \<equiv> 0x30"
abbreviation IDE_CMD_RDMUL :: u8 where "IDE_CMD_RDMUL \<equiv> 0xc4"
abbreviation IDE_CMD_WRMUL :: u8 where "IDE_CMD_WRMUL \<equiv> 0xc5"

text \<open>The port instructions; \<open>insl\<close> and \<open>outsl\<close> move a block through port 0x1f0.\<close>

record 'd ata =
  a_inb :: "u16 \<Rightarrow> 'd \<Rightarrow> u8 \<times> 'd"
  a_outb :: "u16 \<Rightarrow> u8 \<Rightarrow> 'd \<Rightarrow> 'd"
  a_insl :: "'d \<Rightarrow> u8 list \<times> 'd"
  a_outsl :: "u8 list \<Rightarrow> 'd \<Rightarrow> 'd"

record 'd ide_state = bstate +
  idequeue :: "nat option"
  qnext :: "nat \<Rightarrow> nat option"
  havedisk1 :: bool
  woken :: "nat list"
  idedev :: 'd

primrec idewait :: "nat \<Rightarrow> 'd ata \<Rightarrow> bool \<Rightarrow> 'd \<Rightarrow> (int \<times> 'd) res" where
  "idewait 0 hw checkerr d = Fail NoFuel"
| "idewait (Suc n) hw checkerr d =
     (let (r, d) = a_inb hw 0x1f7 d in
      if r AND (IDE_BSY OR IDE_DRDY) \<noteq> IDE_DRDY then idewait n hw checkerr d
      else if checkerr \<and> r AND (IDE_DF OR IDE_ERR) \<noteq> 0 then Ok (- 1, d)
      else Ok (0, d))"

primrec probe_disk1 :: "nat \<Rightarrow> 'd ata \<Rightarrow> 'd \<Rightarrow> bool \<times> 'd" where
  "probe_disk1 0 hw d = (False, d)"
| "probe_disk1 (Suc i) hw d = (let (r, d) = a_inb hw 0x1f7 d in if r \<noteq> 0 then (True, d) else probe_disk1 i hw d)"

definition ideinit :: "nat \<Rightarrow> 'd ata \<Rightarrow> 'd ide_state \<Rightarrow> 'd ide_state res" where
  "ideinit n hw s =
     bindr (idewait n hw False (idedev s)) (\<lambda>(r, d).
     let d = a_outb hw 0x1f6 (0xe0 OR push_bit 4 1) d;
         (found, d) = probe_disk1 1000 hw d
     in Ok (s\<lparr>havedisk1 := havedisk1 s \<or> found, idedev := a_outb hw 0x1f6 (0xe0 OR push_bit 4 0) d\<rparr>))"

definition idestart :: "nat \<Rightarrow> 'd ata \<Rightarrow> nat option \<Rightarrow> 'd ide_state \<Rightarrow> 'd ide_state res" where
  "idestart n hw p s =
     (case p of
        None \<Rightarrow> Fail (Panic ''idestart'')
      | Some i \<Rightarrow>
          (let b = bufs s ! i in
           if b_blockno b \<ge> of_nat FSSIZE then Fail (Panic ''incorrect blockno'')
           else
             (let sector_per_block = BSIZE div SECTOR_SIZE;
                  sector = b_blockno b * of_nat sector_per_block;
                  read_cmd = (if sector_per_block = 1 then IDE_CMD_READ else IDE_CMD_RDMUL);
                  write_cmd = (if sector_per_block = 1 then IDE_CMD_WRITE else IDE_CMD_WRMUL)
              in if sector_per_block > 7 then Fail (Panic ''idestart'')
                 else
                   bindr (idewait n hw False (idedev s)) (\<lambda>(r, d).
                   let d = a_outb hw 0x3f6 0 d;
                       d = a_outb hw 0x1f2 (of_nat sector_per_block) d;
                       d = a_outb hw 0x1f3 (ucast (sector AND 0xff)) d;
                       d = a_outb hw 0x1f4 (ucast (drop_bit 8 sector AND 0xff)) d;
                       d = a_outb hw 0x1f5 (ucast (drop_bit 16 sector AND 0xff)) d;
                       d = a_outb hw 0x1f6 (ucast (0xe0 OR push_bit 4 (b_dev b AND 1) OR (drop_bit 24 sector AND 0x0f))) d
                   in if b_dirty b
                      then Ok (s\<lparr>idedev := a_outsl hw (b_data b) (a_outb hw 0x1f7 write_cmd d)\<rparr>)
                      else Ok (s\<lparr>idedev := a_outb hw 0x1f7 read_cmd d\<rparr>)))))"

definition ideintr :: "nat \<Rightarrow> 'd ata \<Rightarrow> 'd ide_state \<Rightarrow> 'd ide_state res" where
  "ideintr n hw s =
     (case idequeue s of
        None \<Rightarrow> Ok s
      | Some b \<Rightarrow>
          (let s = s\<lparr>idequeue := qnext s b\<rparr> in
           bindr (if \<not> b_dirty (bufs s ! b) then
                    bindr (idewait n hw True (idedev s)) (\<lambda>(r, d).
                    if r \<ge> 0 then
                      (let (bytes, d) = a_insl hw d in
                       Ok (upd_buf b (\<lambda>x. x\<lparr>b_data := bytes\<rparr>) (s\<lparr>idedev := d\<rparr>)))
                    else Ok (s\<lparr>idedev := d\<rparr>))
                  else Ok s) (\<lambda>s.
           let s = upd_buf b (\<lambda>x. x\<lparr>b_valid := True, b_dirty := False\<rparr>) s;
               s = s\<lparr>woken := woken s @ [b]\<rparr>
           in if idequeue s \<noteq> None then idestart n hw (idequeue s) s else Ok s)))"

text \<open>The pointer \<open>pp\<close> of the loop in \<open>iderw\<close>: \<open>None\<close> is \<open>&idequeue\<close>, \<open>Some b\<close> is \<open>&b->qnext\<close>.\<close>

primrec queue_end :: "nat \<Rightarrow> nat option \<Rightarrow> 'd ide_state \<Rightarrow> nat option res" where
  "queue_end 0 pp s = Fail NoFuel"
| "queue_end (Suc k) pp s =
     (case (case pp of None \<Rightarrow> idequeue s | Some b \<Rightarrow> qnext s b) of
        None \<Rightarrow> Ok pp
      | Some b \<Rightarrow> queue_end k (Some b) s)"

definition iderw_submit :: "nat \<Rightarrow> 'd ata \<Rightarrow> nat \<Rightarrow> 'd ide_state \<Rightarrow> 'd ide_state res" where
  "iderw_submit n hw b s =
     (let x = bufs s ! b in
      if \<not> holdingsleep (b_lock x) then Fail (Panic ''iderw: buf not locked'')
      else if b_valid x \<and> \<not> b_dirty x then Fail (Panic ''iderw: nothing to do'')
      else if b_dev x \<noteq> 0 \<and> \<not> havedisk1 s then Fail (Panic ''iderw: ide disk 1 not present'')
      else
        (let s = s\<lparr>qnext := (qnext s)(b := None)\<rparr> in
         bindr (queue_end (Suc NBUF) None s) (\<lambda>pp.
         let s = (case pp of None \<Rightarrow> s\<lparr>idequeue := Some b\<rparr> | Some c \<Rightarrow> s\<lparr>qnext := (qnext s)(c := Some b)\<rparr>) in
         if idequeue s = Some b then idestart n hw (Some b) s else Ok s)))"

definition iderw_wait :: "nat \<Rightarrow> 'd ide_state \<Rightarrow> 'd ide_state res" where
  "iderw_wait b s =
     (if b_valid (bufs s ! b) \<and> \<not> b_dirty (bufs s ! b) then Ok s else Fail (Blocked ''iderw''))"

section \<open>The disk\<close>

definition ata_status :: "'d ata \<Rightarrow> 'd \<Rightarrow> u8" where
  "ata_status hw d = fst (a_inb hw 0x1f7 d)"

definition ata_poll :: "'d ata \<Rightarrow> 'd \<Rightarrow> 'd" where
  "ata_poll hw d = snd (a_inb hw 0x1f7 d)"

definition ata_ready :: "'d ata \<Rightarrow> 'd \<Rightarrow> bool" where
  "ata_ready hw d \<longleftrightarrow> ata_status hw d AND 0xC0 = 0x40"

text \<open>The command block: control, count, the three address bytes, the drive byte, the command.\<close>

definition ata_command :: "'d ata \<Rightarrow> u8 \<Rightarrow> u8 \<Rightarrow> u8 \<Rightarrow> u8 \<Rightarrow> u8 \<Rightarrow> 'd \<Rightarrow> 'd" where
  "ata_command hw r3 r4 r5 r6 cmd d =
     a_outb hw 0x1f7 cmd (a_outb hw 0x1f6 r6 (a_outb hw 0x1f5 r5 (a_outb hw 0x1f4 r4
       (a_outb hw 0x1f3 r3 (a_outb hw 0x1f2 1 (a_outb hw 0x3f6 0 d))))))"

definition lba28 :: "u8 \<Rightarrow> u8 \<Rightarrow> u8 \<Rightarrow> u8 \<Rightarrow> nat" where
  "lba28 r3 r4 r5 r6 = unat r3 + 2 ^ 8 * unat r4 + 2 ^ 16 * unat r5 + 2 ^ 24 * unat (r6 AND 0x0f)"

text \<open>
  An ATA disk with the sectors \<open>cont\<close> by drive and address: it becomes ready within \<open>n\<close> polls, without
  an error; a command with the address in the registers selects a sector, \<open>sel\<close>; after a write
  command a block of data is stored there, after a read command it is delivered.
\<close>

definition ata_ok :: "nat \<Rightarrow> 'd ata \<Rightarrow> ('d \<Rightarrow> bool \<times> nat \<Rightarrow> block) \<Rightarrow> ('d \<Rightarrow> (bool \<times> nat) option) \<Rightarrow> bool" where
  "ata_ok n hw cont sel \<longleftrightarrow>
     (\<forall>d. \<exists>k < n. ata_ready hw ((ata_poll hw ^^ k) d)) \<and>
     (\<forall>d. ata_ready hw d \<longrightarrow> ata_status hw d AND 0x21 = 0) \<and>
     (\<forall>d. cont (ata_poll hw d) = cont d \<and> sel (ata_poll hw d) = sel d) \<and>
     (\<forall>r3 r4 r5 r6 cmd d. cmd = IDE_CMD_READ \<or> cmd = IDE_CMD_WRITE \<longrightarrow>
        cont (ata_command hw r3 r4 r5 r6 cmd d) = cont d \<and>
        sel (ata_command hw r3 r4 r5 r6 cmd d) = Some (bit r6 4, lba28 r3 r4 r5 r6)) \<and>
     (\<forall>d a xs r3 r4 r5 r6. length xs = BSIZE \<and> sel (ata_command hw r3 r4 r5 r6 IDE_CMD_WRITE d) = Some a \<longrightarrow>
        cont (a_outsl hw xs (ata_command hw r3 r4 r5 r6 IDE_CMD_WRITE d)) = (cont d)(a := xs)) \<and>
     (\<forall>d a. sel d = Some a \<longrightarrow> fst (a_insl hw d) = cont d a \<and> cont (snd (a_insl hw d)) = cont d)"

lemma ata_okD:
  assumes "ata_ok n hw cont sel" "cmd = IDE_CMD_READ \<or> cmd = IDE_CMD_WRITE"
  shows "cont (ata_command hw r3 r4 r5 r6 cmd d) = cont d"
    "sel (ata_command hw r3 r4 r5 r6 cmd d) = Some (bit r6 4, lba28 r3 r4 r5 r6)"
    "length xs = BSIZE \<Longrightarrow> sel (ata_command hw r3 r4 r5 r6 IDE_CMD_WRITE d) = Some a \<Longrightarrow>
       cont (a_outsl hw xs (ata_command hw r3 r4 r5 r6 IDE_CMD_WRITE d)) = (cont d)(a := xs)"
    "sel d = Some a \<Longrightarrow> fst (a_insl hw d) = cont d a \<and> cont (snd (a_insl hw d)) = cont d"
  using assms unfolding ata_ok_def by blast+

lemma idewait_ready:
  assumes "ata_ok n hw cont sel" "\<exists>k < m. ata_ready hw ((ata_poll hw ^^ k) d)"
  shows "\<exists>d'. idewait m hw c d = Ok (0, d') \<and> cont d' = cont d \<and> sel d' = sel d"
  using assms(2)
proof (induction m arbitrary: d)
  case (Suc m)
  have e: "a_inb hw 0x1f7 d = (ata_status hw d, ata_poll hw d)" by (simp add: ata_status_def ata_poll_def)
  have p: "cont (ata_poll hw d) = cont d" "sel (ata_poll hw d) = sel d" using assms(1) by (simp_all add: ata_ok_def)
  have bits: "IDE_BSY OR IDE_DRDY = 0xC0" "IDE_DRDY = 0x40" "IDE_DF OR IDE_ERR = 0x21"
    by simp_all
  show ?case
  proof (cases "ata_ready hw d")
    case True
    then have "ata_status hw d AND 0x21 = 0" using assms(1) by (simp add: ata_ok_def)
    then show ?thesis using True e p bits by (simp add: ata_ready_def)
  next
    case False
    obtain k where k: "k < Suc m" "ata_ready hw ((ata_poll hw ^^ k) d)" using Suc.prems by blast
    then obtain j where "k = Suc j" using False by (cases k) auto
    then have "\<exists>j < m. ata_ready hw ((ata_poll hw ^^ j) (ata_poll hw d))"
      using k by (auto simp: funpow_swap1)
    from Suc.IH [OF this] show ?thesis using False e p bits by (simp add: ata_ready_def)
  qed
qed simp

lemma idewait_ok:
  assumes "ata_ok n hw cont sel"
  shows "\<exists>d'. idewait n hw c d = Ok (0, d') \<and> cont d' = cont d \<and> sel d' = sel d"
  by (rule idewait_ready [OF assms]) (use assms in \<open>simp add: ata_ok_def\<close>)

text \<open>The registers that \<open>idestart\<close> writes address the sector of the block.\<close>

lemma sector_registers:
  fixes sector dev :: u32
  assumes "sector < 2 ^ 28"
  defines "r6 \<equiv> ucast (0xe0 OR push_bit 4 (dev AND 1) OR (drop_bit 24 sector AND 0x0f)) :: u8"
  shows "lba28 (ucast (sector AND 0xff)) (ucast (drop_bit 8 sector AND 0xff)) (ucast (drop_bit 16 sector AND 0xff)) r6 =
    unat sector" "bit r6 4 \<longleftrightarrow> bit dev 0"
proof -
  show b: "bit r6 4 \<longleftrightarrow> bit dev 0" by (auto simp: r6_def bit_simps)
  have ff: "(0xff :: u32) = mask 8" "(0x0f :: u32) = mask 4" "(0x0f :: u8) = mask 4"
    by (simp_all add: mask_eq_exp_minus_1)
  have m: "unat (ucast (w AND 0xff) :: u8) = unat w mod 2 ^ 8" for w :: u32
    unfolding ff take_bit_eq_mask [symmetric] by (simp add: unsigned_ucast_eq unsigned_take_bit_eq take_bit_eq_mod unat_mod)
  have d: "unat (drop_bit k w) = unat w div 2 ^ k" for k and w :: u32
    by (subst unat_drop_bit_eq) (simp only: drop_bit_eq_div)
  have low: "\<not> bit (0xe0 :: u32) k \<and> \<not> bit (0x10 :: u32) k" if "k < 4" for k
  proof -
    have "k = 0 \<or> k = 1 \<or> k = 2 \<or> k = 3" using that by linarith
    then show ?thesis by auto
  qed
  have "r6 AND 0x0f = ucast (drop_bit 24 sector AND 0x0f)"
    unfolding r6_def ff by (rule bit_word_eqI) (use low in \<open>auto simp: bit_simps\<close>)
  then have "unat (r6 AND 0x0f) = unat sector div 2 ^ 24 mod 2 ^ 4"
    unfolding ff take_bit_eq_mask [symmetric]
    by (simp add: unsigned_ucast_eq unsigned_take_bit_eq d take_bit_eq_mod unat_mod)
  moreover have "unat sector < 2 ^ 28" using assms(1) by (simp add: word_less_nat_alt)
  moreover have "x mod 256 + 256 * (x div 256 mod 256) + 65536 * (x div 65536 mod 256) + 16777216 * (x div 16777216) = x" for x :: nat
    using mod_mult2_eq [of x 256 256] mod_mult2_eq [of x 65536 256] mod_mult_div_eq [of x 16777216] by simp
  ultimately show "lba28 (ucast (sector AND 0xff)) (ucast (drop_bit 8 sector AND 0xff))
      (ucast (drop_bit 16 sector AND 0xff)) r6 = unat sector"
    by (simp add: lba28_def m d)
qed

section \<open>The queue\<close>

fun qchain :: "nat option \<Rightarrow> (nat \<Rightarrow> nat option) \<Rightarrow> nat list \<Rightarrow> bool" where
  "qchain q nx [] \<longleftrightarrow> q = None"
| "qchain q nx (x # xs) \<longleftrightarrow> q = Some x \<and> qchain (nx x) nx xs"

text \<open>A request that \<open>iderw\<close> accepts: the buffer is locked, for drive 1, and has something to do.\<close>

definition req_ok :: "'d ide_state \<Rightarrow> nat \<Rightarrow> bool" where
  "req_ok s i \<longleftrightarrow> (let b = bufs s ! i in i < NBUF \<and> i < length (bufs s) \<and> holdingsleep (b_lock b) \<and>
     \<not> (b_valid b \<and> \<not> b_dirty b) \<and> b_dev b = 1 \<and> b_blockno b < of_nat FSSIZE \<and> b_blockno b < disksize s \<and>
     length (b_data b) = BSIZE)"

text \<open>The disk works on a request: it has stored its data, or selected its sector.\<close>

definition started :: "('d \<Rightarrow> bool \<times> nat \<Rightarrow> block) \<Rightarrow> ('d \<Rightarrow> (bool \<times> nat) option) \<Rightarrow> 'd ide_state \<Rightarrow> nat \<Rightarrow> bool" where
  "started cont sel s i \<longleftrightarrow> (let b = bufs s ! i; a = (True, unat (b_blockno b)) in
     if b_dirty b then cont (idedev s) a = b_data b else sel (idedev s) = Some a)"

text \<open>The queue holds the requests \<open>xs\<close> in this order, and the disk works on the first of them.\<close>

definition ide_queue :: "('d \<Rightarrow> bool \<times> nat \<Rightarrow> block) \<Rightarrow> ('d \<Rightarrow> (bool \<times> nat) option) \<Rightarrow> 'd ide_state \<Rightarrow> nat list \<Rightarrow> bool" where
  "ide_queue cont sel s xs \<longleftrightarrow> qchain (idequeue s) (qnext s) xs \<and> distinct xs \<and> (\<forall>x \<in> set xs. req_ok s x) \<and>
     havedisk1 s \<and> (xs \<noteq> [] \<longrightarrow> started cont sel s (hd xs))"

lemma qchain_cong: "(\<And>x. x \<in> set xs \<Longrightarrow> nx x = ny x) \<Longrightarrow> qchain q nx xs = qchain q ny xs"
  by (induction xs arbitrary: q) auto

lemma qchain_snoc:
  assumes "qchain q nx xs" "b \<notin> set xs" "distinct xs" "xs \<noteq> []" "nx b = None"
  shows "qchain q (nx(last xs := Some b)) (xs @ [b])"
  using assms
proof (induction xs arbitrary: q)
  case (Cons x xs)
  show ?case
  proof (cases "xs = []")
    case True
    then show ?thesis using Cons.prems by auto
  next
    case False
    then have "x \<noteq> last xs" using Cons.prems(3) by auto
    then show ?thesis using Cons False by simp
  qed
qed simp

lemma queue_end_qchain:
  assumes "qchain (case pp of None \<Rightarrow> idequeue s | Some b \<Rightarrow> qnext s b) (qnext s) xs" "length xs < k"
  shows "queue_end k pp s = Ok (if xs = [] then pp else Some (last xs))"
  using assms
proof (induction k arbitrary: pp xs)
  case (Suc k)
  show ?case
  proof (cases xs)
    case Nil
    then show ?thesis using Suc.prems by simp
  next
    case (Cons x ys)
    then have "queue_end k (Some x) s = Ok (if ys = [] then Some x else Some (last ys))"
      using Suc.prems by (intro Suc.IH) simp_all
    then show ?thesis using Suc.prems Cons by auto
  qed
qed simp

section \<open>Starting a request\<close>

lemma idestart_ok:
  assumes "ata_ok n hw cont sel" "req_ok s i"
  shows "\<exists>d. idestart n hw (Some i) s = Ok (s\<lparr>idedev := d\<rparr>) \<and> started cont sel (s\<lparr>idedev := d\<rparr>) i \<and>
    cont d = (if b_dirty (bufs s ! i) then (cont (idedev s))((True, unat (b_blockno (bufs s ! i))) := b_data (bufs s ! i))
              else cont (idedev s))"
proof -
  define b where "b = bufs s ! i"
  have r: "b_blockno b < of_nat FSSIZE" "b_dev b = 1" "length (b_data b) = BSIZE"
    using assms(2) by (simp_all add: req_ok_def b_def Let_def)
  have sz: "BSIZE div SECTOR_SIZE = 1" by (simp add: BSIZE_def )
  let ?q = "b_blockno b"
  let ?r6 = "ucast (0xe0 OR push_bit 4 (b_dev b AND 1) OR (drop_bit 24 ?q AND 0x0f)) :: u8"
  define cmd where "cmd = ata_command hw (ucast (?q AND 0xff)) (ucast (drop_bit 8 ?q AND 0xff)) (ucast (drop_bit 16 ?q AND 0xff)) ?r6"
  obtain d where d: "idewait n hw False (idedev s) = Ok (0, d)" "cont d = cont (idedev s)" "sel d = sel (idedev s)"
    using idewait_ok [OF assms(1)] by blast
  have "?q < 2 ^ 28" using r(1) by (simp add: FSSIZE_def word_less_nat_alt)
  note reg = sector_registers [OF this, of "b_dev b"]
  have c: "cont (cmd c d) = cont (idedev s)" "sel (cmd c d) = Some (True, unat ?q)"
    if "c = IDE_CMD_READ \<or> c = IDE_CMD_WRITE" for c
    using ata_okD(1,2) [OF assms(1) that] reg r(2) d(2) by (simp_all add: cmd_def)
  have w: "cont (a_outsl hw (b_data b) (cmd IDE_CMD_WRITE d)) = (cont (idedev s))((True, unat ?q) := b_data b)"
    using ata_okD(3) [OF assms(1) disjI2 [OF refl] r(3) c(2) [of IDE_CMD_WRITE, unfolded cmd_def]] d(2) by (simp add: cmd_def)
  have e: "idestart n hw (Some i) s =
      Ok (s\<lparr>idedev := (if b_dirty b then a_outsl hw (b_data b) (cmd IDE_CMD_WRITE d) else cmd IDE_CMD_READ d)\<rparr>)"
    using r(1) d(1) sz by (simp add: idestart_def b_def [symmetric] Let_def cmd_def ata_command_def)
  show ?thesis
    using e c w by (cases "b_dirty b") (auto simp: started_def b_def [symmetric] Let_def)
qed

section \<open>Requests and interrupts\<close>

text \<open>What the driver's state adds does not matter to a request.\<close>

lemma req_ok_cong: "bufs s' ! i = bufs s ! i \<Longrightarrow> length (bufs s') = length (bufs s) \<Longrightarrow> disksize s' = disksize s \<Longrightarrow>
    req_ok s' i = req_ok s i"
  by (simp add: req_ok_def)

lemma chain_length:
  assumes "distinct xs" "\<forall>x \<in> set xs. req_ok s x"
  shows "length xs \<le> NBUF"
proof -
  have "set xs \<subseteq> {..<NBUF}" using assms(2) by (auto simp: req_ok_def Let_def)
  then show ?thesis using card_mono [of "{..<NBUF}" "set xs"] assms(1) by (simp add: distinct_card)
qed

lemma submit_ok:
  assumes hw: "ata_ok n hw cont sel" and q: "ide_queue cont sel s xs" and r: "req_ok s i" "i \<notin> set xs"
  shows "\<exists>s'. iderw_submit n hw i s = Ok s' \<and> ide_queue cont sel s' (xs @ [i]) \<and> bufs s' = bufs s \<and>
    disksize s' = disksize s \<and> woken s' = woken s \<and>
    cont (idedev s') = (if xs = [] \<and> b_dirty (bufs s ! i)
      then (cont (idedev s))((True, unat (b_blockno (bufs s ! i))) := b_data (bufs s ! i)) else cont (idedev s))"
proof -
  let ?t = "s\<lparr>qnext := (qnext s)(i := None)\<rparr>"
  have c: "qchain (idequeue s) ((qnext s)(i := None)) xs"
  proof -
    have "qchain (idequeue s) ((qnext s)(i := None)) xs = qchain (idequeue s) (qnext s) xs"
      by (rule qchain_cong) (use r(2) in auto)
    then show ?thesis using q by (simp add: ide_queue_def)
  qed
  have "length xs < Suc NBUF" using chain_length [of xs s] q by (simp add: ide_queue_def)
  then have e: "queue_end (Suc NBUF) None ?t = Ok (if xs = [] then None else Some (last xs))"
    using c by (intro queue_end_qchain) simp_all
  have g: "holdingsleep (b_lock (bufs s ! i))" "\<not> (b_valid (bufs s ! i) \<and> \<not> b_dirty (bufs s ! i))" "havedisk1 s"
    using r(1) q by (simp_all add: req_ok_def Let_def ide_queue_def)
  show ?thesis
  proof (cases "xs = []")
    case True
    define u where "u = ?t\<lparr>idequeue := Some i\<rparr>"
    have u: "req_ok u i" using r(1) by (simp add: u_def req_ok_def)
    obtain d where d: "idestart n hw (Some i) u = Ok (u\<lparr>idedev := d\<rparr>)" "started cont sel (u\<lparr>idedev := d\<rparr>) i"
      "cont d = (if b_dirty (bufs s ! i) then (cont (idedev s))((True, unat (b_blockno (bufs s ! i))) := b_data (bufs s ! i))
        else cont (idedev s))"
      using idestart_ok [OF hw u] by (auto simp: u_def)
    have "iderw_submit n hw i s = Ok (u\<lparr>idedev := d\<rparr>)"
      using g e True d(1) by (simp add: iderw_submit_def Let_def u_def del: queue_end.simps)
    moreover have "ide_queue cont sel (u\<lparr>idedev := d\<rparr>) [i]"
      using d(2) u g(3) by (simp add: ide_queue_def u_def req_ok_def)
    moreover have "bufs (u\<lparr>idedev := d\<rparr>) = bufs s" "disksize (u\<lparr>idedev := d\<rparr>) = disksize s"
      "woken (u\<lparr>idedev := d\<rparr>) = woken s" by (simp_all add: u_def)
    ultimately show ?thesis using True d(3) by (intro exI [of _ "u\<lparr>idedev := d\<rparr>"]) simp
  next
    case False
    define u where "u = ?t\<lparr>qnext := ((qnext s)(i := None))(last xs := Some i)\<rparr>"
    have hd: "idequeue s = Some (hd xs)" "hd xs \<noteq> i" using c False r(2) by (cases xs; auto)+
    have "iderw_submit n hw i s = Ok u"
      using g e False hd by (simp add: iderw_submit_def Let_def u_def del: queue_end.simps)
    moreover have "qchain (idequeue u) (qnext u) (xs @ [i])"
      using qchain_snoc [OF c r(2) _ False] q by (simp add: u_def ide_queue_def)
    moreover have "req_ok u j = req_ok s j" "started cont sel u j = started cont sel s j" for j
      by (simp_all add: u_def req_ok_def started_def)
    moreover have "havedisk1 u" using g(3) by (simp add: u_def)
    ultimately have "iderw_submit n hw i s = Ok u" "ide_queue cont sel u (xs @ [i])"
      using q r False by (simp_all add: ide_queue_def)
    moreover have "bufs u = bufs s" "idedev u = idedev s" "disksize u = disksize s" "woken u = woken s"
      by (simp_all add: u_def)
    ultimately show ?thesis using False by simp
  qed
qed

text \<open>The buffer of a finished request.\<close>

definition done_buf :: "('d \<Rightarrow> bool \<times> nat \<Rightarrow> block) \<Rightarrow> 'd ide_state \<Rightarrow> nat \<Rightarrow> buf" where
  "done_buf cont s i = (let b = bufs s ! i in
     b\<lparr>b_data := (if b_dirty b then b_data b else cont (idedev s) (True, unat (b_blockno b))),
       b_valid := True, b_dirty := False\<rparr>)"

text \<open>The interrupt up to the start of the next request.\<close>

lemma intr_done:
  assumes hw: "ata_ok n hw cont sel" and q: "ide_queue cont sel s (x # xs)"
  obtains d where "cont d = cont (idedev s)"
    "ideintr n hw s = (let u = s\<lparr>idequeue := qnext s x, idedev := d, bufs := (bufs s)[x := done_buf cont s x],
        woken := woken s @ [x]\<rparr> in if qnext s x \<noteq> None then idestart n hw (qnext s x) u else Ok u)"
proof -
  have h: "idequeue s = Some x" "started cont sel s x" "x < length (bufs s)"
    using q by (simp_all add: ide_queue_def req_ok_def Let_def)
  show ?thesis
  proof (cases "b_dirty (bufs s ! x)")
    case True
    then show ?thesis
      using h by (intro that [of "idedev s"]) (simp_all add: ideintr_def Let_def upd_buf_def done_buf_def)
  next
    case False
    then have sel: "sel (idedev s) = Some (True, unat (b_blockno (bufs s ! x)))"
      using h(2) by (simp add: started_def Let_def)
    obtain d where d: "idewait n hw True (idedev s) = Ok (0, d)" "cont d = cont (idedev s)" "sel d = sel (idedev s)"
      using idewait_ok [OF hw] by blast
    obtain d2 where i: "a_insl hw d = (cont (idedev s) (True, unat (b_blockno (bufs s ! x))), d2)" "cont d2 = cont (idedev s)"
      using ata_okD(4) [OF hw disjI1 [OF refl], of d "(True, unat (b_blockno (bufs s ! x)))"] sel d(2,3)
      by (cases "a_insl hw d") simp
    show ?thesis
      by (rule that [OF i(2)]) (use h False d(1) i(1) in \<open>simp add: ideintr_def Let_def upd_buf_def done_buf_def\<close>)
  qed
qed

lemma intr_ok:
  assumes hw: "ata_ok n hw cont sel" and q: "ide_queue cont sel s (x # xs)"
  shows "\<exists>s'. ideintr n hw s = Ok s' \<and> ide_queue cont sel s' xs \<and> bufs s' = (bufs s)[x := done_buf cont s x] \<and>
    disksize s' = disksize s \<and> woken s' = woken s @ [x] \<and>
    cont (idedev s') = (if xs \<noteq> [] \<and> b_dirty (bufs s ! hd xs)
      then (cont (idedev s))((True, unat (b_blockno (bufs s ! hd xs))) := b_data (bufs s ! hd xs)) else cont (idedev s))"
proof -
  obtain d where d: "cont d = cont (idedev s)"
    "ideintr n hw s = (let u = s\<lparr>idequeue := qnext s x, idedev := d, bufs := (bufs s)[x := done_buf cont s x],
        woken := woken s @ [x]\<rparr> in if qnext s x \<noteq> None then idestart n hw (qnext s x) u else Ok u)"
    by (rule intr_done [OF hw q])
  define u where "u = s\<lparr>idequeue := qnext s x, idedev := d, bufs := (bufs s)[x := done_buf cont s x], woken := woken s @ [x]\<rparr>"
  have e: "ideintr n hw s = (if qnext s x \<noteq> None then idestart n hw (qnext s x) u else Ok u)"
    using d(2) by (simp add: u_def Let_def)
  have c: "qchain (qnext s x) (qnext s) xs" "x \<notin> set xs" "distinct xs" "\<forall>y \<in> set xs. req_ok s y" "havedisk1 s"
    using q by (simp_all add: ide_queue_def)
  have uf: "bufs u = (bufs s)[x := done_buf cont s x]" "woken u = woken s @ [x]" "idedev u = d" "idequeue u = qnext s x"
    "qnext u = qnext s" "havedisk1 u = havedisk1 s" "disksize u = disksize s"
    by (simp_all add: u_def)
  have ub: "bufs u ! y = bufs s ! y" "req_ok u y" if "y \<in> set xs" for y
  proof -
    have "x \<noteq> y" using c(2) that by auto
    then show b: "bufs u ! y = bufs s ! y" by (simp add: uf)
    show "req_ok u y" using req_ok_cong [OF b] c(4) that uf by simp
  qed
  show ?thesis
  proof (cases xs)
    case Nil
    then show ?thesis
      using c e uf d(1) by (intro exI [of _ u]) (simp add: ide_queue_def)
  next
    case (Cons y ys)
    then have y: "qnext s x = Some y" "y \<in> set xs" using c(1) by simp_all
    obtain d' where d': "idestart n hw (Some y) u = Ok (u\<lparr>idedev := d'\<rparr>)" "started cont sel (u\<lparr>idedev := d'\<rparr>) y"
      "cont d' = (if b_dirty (bufs u ! y) then (cont d)((True, unat (b_blockno (bufs u ! y))) := b_data (bufs u ! y)) else cont d)"
      using idestart_ok [OF hw ub(2) [OF y(2)]] uf(3) by auto
    have "req_ok (u\<lparr>idedev := d'\<rparr>) z = req_ok u z" for z by (rule req_ok_cong) simp_all
    then have "ide_queue cont sel (u\<lparr>idedev := d'\<rparr>) xs"
      using c uf ub(2) d'(2) Cons by (simp add: ide_queue_def)
    then show ?thesis
      using e y d' d(1) uf ub(1) [OF y(2)] Cons by (intro exI [of _ "u\<lparr>idedev := d'\<rparr>"]) simp
  qed
qed

section \<open>The memory disk\<close>

text \<open>
  The driver against that of \<^verbatim>\<open>memide.c\<close>, whose state \<open>m\<close> has executed the requests that are
  finished: the buffers are the same, and every block of drive 1 is that of the memory disk, with the
  data of the first request on top if it is a write, which the disk has taken already.
\<close>

definition pending :: "'d ide_state \<Rightarrow> nat list \<Rightarrow> (u32 \<Rightarrow> block) \<Rightarrow> u32 \<Rightarrow> block" where
  "pending s xs md =
     (if xs \<noteq> [] \<and> b_dirty (bufs s ! hd xs) then md(b_blockno (bufs s ! hd xs) := b_data (bufs s ! hd xs)) else md)"

definition ide_sim :: "('d \<Rightarrow> bool \<times> nat \<Rightarrow> block) \<Rightarrow> ('d \<Rightarrow> (bool \<times> nat) option) \<Rightarrow> 'd ide_state \<Rightarrow> nat list \<Rightarrow>
    'b bstate_scheme \<Rightarrow> bool" where
  "ide_sim cont sel s xs m \<longleftrightarrow> ide_queue cont sel s xs \<and> bufs m = bufs s \<and> disksize m = disksize s \<and>
     (\<forall>b. cont (idedev s) (True, unat b) = pending s xs (memdisk m) b)"

lemma ide_simD:
  assumes "ide_sim cont sel s xs m"
  shows "ide_queue cont sel s xs" "bufs m = bufs s" "disksize m = disksize s"
    "cont (idedev s) (True, unat b) = pending s xs (memdisk m) b"
  using assms by (simp_all add: ide_sim_def)

lemma unat_block_eq: "unat b = unat (c :: u32) \<longleftrightarrow> b = c"
  by (simp add: word_unat_eq_iff)

lemma memide_step:
  assumes "req_ok s x" "bufs m = bufs s" "disksize m = disksize s"
  obtains m' where "iderw x m = Ok m'" "disksize m' = disksize s"
    "memdisk m' = pending s [x] (memdisk m)"
    "bufs m' = (bufs s)[x := (let b = bufs s ! x in
       b\<lparr>b_data := (if b_dirty b then b_data b else memdisk m (b_blockno b)), b_valid := True, b_dirty := False\<rparr>)]"
proof -
  define b where "b = bufs s ! x"
  have g: "holdingsleep (b_lock b)" "\<not> (b_valid b \<and> \<not> b_dirty b)" "b_dev b = 1" "b_blockno b < disksize s"
    using assms(1) by (simp_all add: req_ok_def Let_def b_def)
  have o: "b\<lparr>b_valid := True, b_dirty := False\<rparr> = b\<lparr>b_dirty := False, b_valid := True\<rparr>" by (cases b) simp
  have f: "b\<lparr>b_data := c, b_valid := True, b_dirty := False\<rparr> = b\<lparr>b_data := c, b_valid := True\<rparr>" if "\<not> b_dirty b" for c
    using that by (cases b) simp
  show ?thesis
  proof (cases "b_dirty b")
    case True
    then have "iderw x m = Ok (upd_buf x (\<lambda>b. b\<lparr>b_dirty := False, b_valid := True\<rparr>)
        (m\<lparr>memdisk := (memdisk m)(b_blockno b := b_data b), dhist := dhist m @ [(b_blockno b, b_data b)]\<rparr>))"
      using g assms(2,3) by (simp add: iderw_def b_def [symmetric] Let_def not_le)
    then show ?thesis
      by (rule that) (use True assms(2,3) in \<open>simp_all add: upd_buf_def pending_def b_def [symmetric] Let_def o\<close>)
  next
    case False
    then have "iderw x m = Ok (upd_buf x (\<lambda>b. b\<lparr>b_data := memdisk m (b_blockno b), b_valid := True\<rparr>) m)"
      using g assms(2,3) by (simp add: iderw_def b_def [symmetric] Let_def not_le)
    then show ?thesis
      by (rule that) (use False assms(2,3) in \<open>simp_all add: upd_buf_def pending_def b_def [symmetric] Let_def f\<close>)
  qed
qed

lemma sim_submit:
  assumes hw: "ata_ok n hw cont sel" and sim: "ide_sim cont sel s xs m" and r: "req_ok s i" "i \<notin> set xs"
  shows "\<exists>s'. iderw_submit n hw i s = Ok s' \<and> ide_sim cont sel s' (xs @ [i]) m \<and> woken s' = woken s \<and>
    (\<forall>a. cont (idedev s') (False, a) = cont (idedev s) (False, a))"
proof -
  note d = ide_simD [OF sim]
  obtain s' where s': "iderw_submit n hw i s = Ok s'" "ide_queue cont sel s' (xs @ [i])" "bufs s' = bufs s"
    "disksize s' = disksize s" "woken s' = woken s"
    "cont (idedev s') = (if xs = [] \<and> b_dirty (bufs s ! i)
      then (cont (idedev s))((True, unat (b_blockno (bufs s ! i))) := b_data (bufs s ! i)) else cont (idedev s))"
    using submit_ok [OF hw d(1) r] by blast
  have "ide_sim cont sel s' (xs @ [i]) m"
    unfolding ide_sim_def using s' d by (cases xs) (auto simp: pending_def unat_block_eq)
  then show ?thesis using s' by auto
qed

lemma sim_intr:
  assumes hw: "ata_ok n hw cont sel" and sim: "ide_sim cont sel s (x # ys) m"
  shows "\<exists>s' m'. ideintr n hw s = Ok s' \<and> iderw x m = Ok m' \<and> ide_sim cont sel s' ys m' \<and>
    woken s' = woken s @ [x] \<and> iderw_wait x s' = Ok s' \<and>
    (\<forall>a. cont (idedev s') (False, a) = cont (idedev s) (False, a))"
proof -
  note d = ide_simD [OF sim]
  have x: "req_ok s x" "x \<notin> set ys" using d(1) by (simp_all add: ide_queue_def)
  have l: "x < length (bufs s)" using x(1) by (simp add: req_ok_def Let_def)
  obtain s' where s': "ideintr n hw s = Ok s'" "ide_queue cont sel s' ys" "bufs s' = (bufs s)[x := done_buf cont s x]"
    "disksize s' = disksize s" "woken s' = woken s @ [x]"
    "cont (idedev s') = (if ys \<noteq> [] \<and> b_dirty (bufs s ! hd ys)
      then (cont (idedev s))((True, unat (b_blockno (bufs s ! hd ys))) := b_data (bufs s ! hd ys)) else cont (idedev s))"
    using intr_ok [OF hw d(1)] by blast
  obtain m' where m': "iderw x m = Ok m'" "disksize m' = disksize s" "memdisk m' = pending s [x] (memdisk m)"
    "bufs m' = (bufs s)[x := (let b = bufs s ! x in
       b\<lparr>b_data := (if b_dirty b then b_data b else memdisk m (b_blockno b)), b_valid := True, b_dirty := False\<rparr>)]"
    by (rule memide_step [OF x(1) d(2,3)])
  have c: "cont (idedev s) (True, unat b) = memdisk m' b" for b
    using d(4) [of b] by (simp add: m'(3) pending_def)
  have "bufs m' = bufs s'"
    using d(4) by (simp add: m'(4) s'(3) done_buf_def Let_def pending_def)
  moreover have "bufs s' ! hd ys = bufs s ! hd ys" if "ys \<noteq> []"
    using that x(2) s'(3) by (metis hd_in_set nth_list_update_neq)
  then have "cont (idedev s') (True, unat b) = pending s' ys (memdisk m') b" for b
    using c by (auto simp: s'(6) pending_def unat_block_eq)
  ultimately have "ide_sim cont sel s' ys m'" using s' m'(2) by (simp add: ide_sim_def)
  moreover have "iderw_wait x s' = Ok s'" using s'(3) l by (simp add: iderw_wait_def done_buf_def Let_def)
  ultimately show ?thesis using s' m'(1) by auto
qed

section \<open>A sample disk\<close>

text \<open>A disk that is always ready, with its sectors and its registers.\<close>

type_synonym sample_dev = "(bool \<times> nat \<Rightarrow> block) \<times> (u16 \<Rightarrow> u8)"

definition dev_sel :: "sample_dev \<Rightarrow> bool \<times> nat" where
  "dev_sel d = (bit (snd d 0x1f6) 4, lba28 (snd d 0x1f3) (snd d 0x1f4) (snd d 0x1f5) (snd d 0x1f6))"

definition sample_hw :: "sample_dev ata" where
  "sample_hw = \<lparr>a_inb = (\<lambda>p d. (if p = 0x1f7 then 0x40 else snd d p, d)), a_outb = (\<lambda>p v d. (fst d, (snd d)(p := v))),
     a_insl = (\<lambda>d. (fst d (dev_sel d), d)), a_outsl = (\<lambda>xs d. ((fst d)(dev_sel d := xs), snd d))\<rparr>"

lemma sample_hw_ok: "ata_ok 1 sample_hw fst (\<lambda>d. Some (dev_sel d))"
  by (auto simp: ata_ok_def sample_hw_def ata_ready_def ata_status_def ata_poll_def ata_command_def dev_sel_def)

definition sample_ide :: "sample_dev ide_state" where
  "sample_ide = \<lparr>cur_pid = 1, memdisk = (\<lambda>_. []), disksize = 1000, dhist = [],
     bufs = map (\<lambda>k. \<lparr>b_valid = False, b_dirty = (k = 1), b_dev = 1, b_blockno = of_nat k + 7,
         b_lock = \<lparr>sl_locked = True, sl_pid = 1\<rparr>, b_refcnt = 1, b_prev = 0, b_next = 0, b_data = replicate BSIZE 0\<rparr>) [0, 1],
     idequeue = None, qnext = (\<lambda>_. None), havedisk1 = True, woken = [], idedev = (\<lambda>a. replicate BSIZE 9, \<lambda>_. 0)\<rparr>"

text \<open>The same state with the memory disk.\<close>

definition sample_mem :: bstate where
  "sample_mem = \<lparr>cur_pid = 1, memdisk = (\<lambda>_. replicate BSIZE 9), disksize = 1000, dhist = [], bufs = bufs sample_ide\<rparr>"

lemma sample_ide_sim: "ide_sim fst (\<lambda>d. Some (dev_sel d)) sample_ide [] sample_mem" "req_ok sample_ide 0" "req_ok sample_ide 1"
  by (simp_all add: ide_sim_def ide_queue_def pending_def sample_mem_def sample_ide_def req_ok_def holdingsleep_def NBUF_def FSSIZE_def)

section \<open>Properties\<close>

text \<open>
  C11. Requests to the disk are served in the order in which they are made, and the driver is simulated
  by that of \<^verbatim>\<open>memide.c\<close>, on the buffers and on every block of the disk.  \<open>iderw\<close> puts a request at
  the end of the queue, and the state of the memory disk remains the same.  The interrupt finishes the
  first request, which is a call of \<open>iderw\<close> of \<^verbatim>\<open>memide.c\<close>; it wakes the process that waits for it,
  which then returns, and starts the next request.  When the queue is empty, the blocks of the disk are
  those of the memory disk.  The other drive does not change.
\<close>

theorem ide_fifo_refines_memide:
  assumes "ata_ok n hw cont sel" "ide_sim cont sel s xs m"
  shows "(\<forall>i. req_ok s i \<longrightarrow> i \<notin> set xs \<longrightarrow>
      (\<exists>s'. iderw_submit n hw i s = Ok s' \<and> ide_sim cont sel s' (xs @ [i]) m \<and> woken s' = woken s \<and>
        (\<forall>a. cont (idedev s') (False, a) = cont (idedev s) (False, a)))) \<and>
    (\<forall>x ys. xs = x # ys \<longrightarrow> (\<exists>s' m'. ideintr n hw s = Ok s' \<and> iderw x m = Ok m' \<and> ide_sim cont sel s' ys m' \<and>
      woken s' = woken s @ [x] \<and> iderw_wait x s' = Ok s' \<and>
      (\<forall>a. cont (idedev s') (False, a) = cont (idedev s) (False, a)))) \<and>
    (xs = [] \<longrightarrow> ideintr n hw s = Ok s \<and> (\<forall>b. cont (idedev s) (True, unat b) = memdisk m b))"
proof (intro conjI)
  show "\<forall>i. req_ok s i \<longrightarrow> i \<notin> set xs \<longrightarrow>
      (\<exists>s'. iderw_submit n hw i s = Ok s' \<and> ide_sim cont sel s' (xs @ [i]) m \<and> woken s' = woken s \<and>
        (\<forall>a. cont (idedev s') (False, a) = cont (idedev s) (False, a)))"
    using sim_submit [OF assms] by blast
  show "\<forall>x ys. xs = x # ys \<longrightarrow> (\<exists>s' m'. ideintr n hw s = Ok s' \<and> iderw x m = Ok m' \<and> ide_sim cont sel s' ys m' \<and>
      woken s' = woken s @ [x] \<and> iderw_wait x s' = Ok s' \<and>
      (\<forall>a. cont (idedev s') (False, a) = cont (idedev s) (False, a)))"
    using sim_intr [OF assms(1)] assms(2) by blast
  show "xs = [] \<longrightarrow> ideintr n hw s = Ok s \<and> (\<forall>b. cont (idedev s) (True, unat b) = memdisk m b)"
    using ide_simD(1,4) [OF assms(2)] by (auto simp: ide_queue_def ideintr_def pending_def)
qed

text \<open>A write of block 8 and a read of block 7, with their interrupts.\<close>

theorem ide_fifo_refines_memide_witness:
  "\<exists>s1 s2 s3 s4. iderw_submit 1 sample_hw 1 sample_ide = Ok s1 \<and> iderw_submit 1 sample_hw 0 s1 = Ok s2 \<and>
    ideintr 1 sample_hw s2 = Ok s3 \<and> ideintr 1 sample_hw s3 = Ok s4 \<and> woken s4 = [1, 0] \<and>
    fst (idedev s4) (True, 8) = replicate BSIZE 0 \<and> fst (idedev s4) (True, 7) = replicate BSIZE 9 \<and>
    b_data (bufs s4 ! 0) = replicate BSIZE 9"
proof -
  let ?sel = "\<lambda>d. Some (dev_sel d)"
  note step = ide_fifo_refines_memide [OF sample_hw_ok]
  obtain s1 where s1: "iderw_submit 1 sample_hw 1 sample_ide = Ok s1" "ide_sim fst ?sel s1 [1] sample_mem"
    "woken s1 = woken sample_ide"
    using step [OF sample_ide_sim(1)] sample_ide_sim(3) by auto
  have "req_ok s1 0 = req_ok sample_ide 0"
    by (rule req_ok_cong) (use ide_simD(2,3) [OF s1(2)] ide_simD(2,3) [OF sample_ide_sim(1)] in simp_all)
  then obtain s2 where s2: "iderw_submit 1 sample_hw 0 s1 = Ok s2" "ide_sim fst ?sel s2 [1, 0] sample_mem"
    "woken s2 = woken s1"
    using step [OF s1(2)] sample_ide_sim(2) by auto
  obtain s3 m3 where s3: "ideintr 1 sample_hw s2 = Ok s3" "iderw 1 sample_mem = Ok m3" "ide_sim fst ?sel s3 [0] m3"
    "woken s3 = woken s2 @ [1]"
    using step [OF s2(2)] by auto
  obtain s4 m4 where s4: "ideintr 1 sample_hw s3 = Ok s4" "iderw 0 m3 = Ok m4" "ide_sim fst ?sel s4 [] m4"
    "woken s4 = woken s3 @ [0]"
    using step [OF s3(3)] by auto
  have c: "fst (idedev s4) (True, unat b) = memdisk m4 b" for b using step [OF s4(3)] by blast
  have "memdisk m4 8 = replicate BSIZE 0" "memdisk m4 7 = replicate BSIZE 9" "b_data (bufs m4 ! 0) = replicate BSIZE 9"
    using s3(2) s4(2)
    by (auto simp: iderw_def sample_mem_def sample_ide_def holdingsleep_def upd_buf_def Let_def split: if_splits)
  moreover have "woken sample_ide = []" by (simp add: sample_ide_def)
  ultimately show ?thesis
    using s1 s2 s3 s4 c [of 8] c [of 7] ide_simD(2) [OF s4(3)] by auto
qed

text \<open>
  C28. A read that the disk ends with an error is not noticed: \<open>ideintr\<close> skips the transfer when
  \<open>idewait\<close> reports the error, but marks the buffer valid all the same, so that \<open>iderw\<close> returns and the
  caller takes what the buffer held before for the block.
\<close>

theorem ide_read_error_unnoticed:
  assumes "idequeue s = Some b" "qnext s b = None" "b < length (bufs s)" "\<not> b_dirty (bufs s ! b)"
    "idewait n hw True (idedev s) = Ok (- 1, d)"
  shows "\<exists>s'. ideintr n hw s = Ok s' \<and> b_data (bufs s' ! b) = b_data (bufs s ! b) \<and> iderw_wait b s' = Ok s'"
  using assms by (simp add: ideintr_def Let_def iderw_wait_def upd_buf_def)

text \<open>The sample disk with the error bit set.\<close>

definition broken_hw :: "sample_dev ata" where
  "broken_hw = sample_hw\<lparr>a_inb := (\<lambda>p d. (0x41, d))\<rparr>"

theorem ide_read_error_unnoticed_witness:
  "\<exists>s'. ideintr 1 broken_hw (sample_ide\<lparr>idequeue := Some 0\<rparr>) = Ok s' \<and> b_data (bufs s' ! 0) = replicate BSIZE 0 \<and>
    iderw_wait 0 s' = Ok s'"
proof -
  let ?s = "sample_ide\<lparr>idequeue := Some 0\<rparr>"
  have "idequeue ?s = Some 0" "qnext ?s 0 = None" "0 < length (bufs ?s)" "\<not> b_dirty (bufs ?s ! 0)"
    "idewait 1 broken_hw True (idedev ?s) = Ok (- 1, idedev ?s)" "b_data (bufs ?s ! 0) = replicate BSIZE 0"
    by (simp_all add: sample_ide_def broken_hw_def )
  then show ?thesis using ide_read_error_unnoticed [of ?s 0 1 broken_hw "idedev ?s"] by metis
qed

end
