(* ===== verification/Xv6_Asm.thy ===== *)
theory Xv6_Asm
  imports Xv6_Prelude
begin

text \<open>
  The assembly of the kernel: the trap entry points that \<^verbatim>\<open>vectors.pl\<close> generates, the trap frame
  that \<^verbatim>\<open>trapasm.S\<close> builds and takes down, and the context switch of \<^verbatim>\<open>swtch.S\<close>.

  A program is the list of its instructions, of which only those that the files use are modelled.
  Memory is read and written in words at addresses that are multiples of four apart.  The C
  function \<open>trap\<close> runs between the two halves of \<open>alltraps\<close>.
\<close>

section \<open>The machine\<close>

datatype reg = EAX | ECX | EDX | EBX | ESP | EBP | ESI | EDI

datatype sreg = DS | ES | FS | GS

record machine =
  regs :: "reg \<Rightarrow> u32"
  sregs :: "sreg \<Rightarrow> u16"
  m_eip :: u32
  m_cs :: u16
  m_eflags :: u32
  m_ss :: u16
  wmem :: "u32 \<Rightarrow> u32"

datatype instr =
    Pushl reg
  | PushlI u32
  | PushS sreg
  | Pushal
  | Popl reg
  | PopS sreg
  | Popal
  | MovwI u16
  | MovwS sreg
  | Movl reg reg
  | Load u32 reg reg
  | Store reg reg
  | AddI u32 reg
  | Ret
  | Iret

definition set_reg :: "reg \<Rightarrow> u32 \<Rightarrow> machine \<Rightarrow> machine" where
  "set_reg r v m = m\<lparr>regs := (regs m)(r := v)\<rparr>"

definition push :: "u32 \<Rightarrow> machine \<Rightarrow> machine" where
  "push v m = (set_reg ESP (regs m ESP - 4) m)\<lparr>wmem := (wmem m)(regs m ESP - 4 := v)\<rparr>"

definition top :: "machine \<Rightarrow> u32" where
  "top m = wmem m (regs m ESP)"

definition pop :: "machine \<Rightarrow> machine" where
  "pop m = set_reg ESP (regs m ESP + 4) m"

definition pop_to :: "reg \<Rightarrow> machine \<Rightarrow> machine" where
  "pop_to r m = set_reg r (top m) (pop m)"

text \<open>
  \<open>movw\<close> loads the low half of \<open>eax\<close>.  \<open>iret\<close> takes the stack pointer and its segment too when
  the code segment that it returns to has another privilege level.
\<close>

definition iret :: "machine \<Rightarrow> machine" where
  "iret m =
     (let cpl = m_cs m AND 3; eip = top m; m = pop m; cs = ucast (top m); m = pop m; fl = top m; m = pop m;
          m = m\<lparr>m_eip := eip, m_cs := cs, m_eflags := fl\<rparr>
      in if cs AND 3 \<noteq> cpl
         then (let sp = top m; m = pop m; ss = ucast (top m) in set_reg ESP sp (m\<lparr>m_ss := ss\<rparr>))
         else m)"

fun exec1 :: "instr \<Rightarrow> machine \<Rightarrow> machine" where
  "exec1 (Pushl r) m = push (regs m r) m"
| "exec1 (PushlI v) m = push v m"
| "exec1 (PushS r) m = push (ucast (sregs m r)) m"
| "exec1 Pushal m = fold push [regs m EAX, regs m ECX, regs m EDX, regs m EBX, regs m ESP, regs m EBP, regs m ESI, regs m EDI] m"
| "exec1 (Popl r) m = pop_to r m"
| "exec1 (PopS r) m = (pop m)\<lparr>sregs := (sregs m)(r := ucast (top m))\<rparr>"
| "exec1 Popal m =
     pop_to EAX (pop_to ECX (pop_to EDX (pop_to EBX (pop (pop_to EBP (pop_to ESI (pop_to EDI m)))))))"
| "exec1 (MovwI v) m = set_reg EAX ((regs m EAX AND 0xFFFF0000) OR ucast v) m"
| "exec1 (MovwS r) m = m\<lparr>sregs := (sregs m)(r := ucast (regs m EAX))\<rparr>"
| "exec1 (Movl r q) m = set_reg q (regs m r) m"
| "exec1 (Load off r q) m = set_reg q (wmem m (regs m r + off)) m"
| "exec1 (Store r q) m = m\<lparr>wmem := (wmem m)(regs m q := regs m r)\<rparr>"
| "exec1 (AddI v r) m = set_reg r (regs m r + v) m"
| "exec1 Ret m = (pop m)\<lparr>m_eip := top m\<rparr>"
| "exec1 Iret m = iret m"

definition run :: "instr list \<Rightarrow> machine \<Rightarrow> machine" where
  "run is m = fold exec1 is m"

section \<open>The programs\<close>

abbreviation SEG_KCODE :: u16 where "SEG_KCODE \<equiv> 1"
abbreviation SEG_KDATA :: u16 where "SEG_KDATA \<equiv> 2"
abbreviation SEG_KCPU :: u16 where "SEG_KCPU \<equiv> 3"

definition vector_code :: "nat \<Rightarrow> instr list" where
  "vector_code i =
     (if \<not> (i = 8 \<or> (i \<ge> 10 \<and> i \<le> 14) \<or> i = 17) then [PushlI 0] else []) @ [PushlI (of_nat i)]"

definition alltraps_code :: "instr list" where
  "alltraps_code =
     [PushS DS, PushS ES, PushS FS, PushS GS, Pushal,
      MovwI (push_bit 3 SEG_KDATA), MovwS DS, MovwS ES,
      MovwI (push_bit 3 SEG_KCPU), MovwS FS, MovwS GS,
      Pushl ESP]"

text \<open>Behind the call of \<open>trap\<close>, and \<open>trapret\<close>.\<close>

definition after_trap :: "instr list" where
  "after_trap = [AddI 4 ESP]"

definition trapret_code :: "instr list" where
  "trapret_code = [Popal, PopS GS, PopS FS, PopS ES, PopS DS, AddI 8 ESP, Iret]"

definition swtch_code :: "instr list" where
  "swtch_code =
     [Load 4 ESP EAX, Load 8 ESP EDX,
      Pushl EBP, Pushl EBX, Pushl ESI, Pushl EDI,
      Store ESP EAX, Movl EDX ESP,
      Popl EDI, Popl ESI, Popl EBX, Popl EBP, Ret]"

text \<open>
  What the hardware does at a trap: from user mode it takes the kernel stack \<open>ksp\<close> of the task
  and saves the user's; then it saves the flags, the code segment and the program counter and, for the
  traps that have one, an error code.
\<close>

definition hw_trap :: "u32 \<Rightarrow> u16 \<Rightarrow> u32 option \<Rightarrow> machine \<Rightarrow> machine" where
  "hw_trap ksp kss err m =
     (let sp = regs m ESP;
          m1 = (if m_cs m AND 3 \<noteq> 0 then push sp (push (ucast (m_ss m)) ((set_reg ESP ksp m)\<lparr>m_ss := kss\<rparr>)) else m);
          m2 = push (m_eip m) (push (ucast (m_cs m)) (push (m_eflags m) m1));
          m3 = (case err of None \<Rightarrow> m2 | Some e \<Rightarrow> push e m2)
      in m3\<lparr>m_cs := push_bit 3 SEG_KCODE\<rparr>)"

section \<open>Stacks\<close>

definition words_at :: "(u32 \<Rightarrow> u32) \<Rightarrow> u32 \<Rightarrow> u32 list \<Rightarrow> bool" where
  "words_at w a xs \<longleftrightarrow> (\<forall>k < length xs. w (a + 4 * of_nat k) = xs ! k)"

definition stack :: "machine \<Rightarrow> u32 list \<Rightarrow> bool" where
  "stack m xs \<longleftrightarrow> words_at (wmem m) (regs m ESP) xs \<and> length xs < 2 ^ 20"

lemma words_at_simps [simp]:
  "words_at w a []" "words_at w a (x # xs) \<longleftrightarrow> w a = x \<and> words_at w (a + 4) xs"
proof -
  show "words_at w a []" by (simp add: words_at_def)
  have "(\<forall>k < Suc n. P k) \<longleftrightarrow> P 0 \<and> (\<forall>k < n. P (Suc k))" for n and P :: "nat \<Rightarrow> bool"
    by (metis less_Suc_eq_0_disj zero_less_Suc)
  then show "words_at w a (x # xs) \<longleftrightarrow> w a = x \<and> words_at w (a + 4) xs"
    by (simp add: words_at_def algebra_simps)
qed

lemma word_below:
  fixes a :: u32
  assumes "k < 2 ^ 29"
  shows "a + 4 * of_nat k \<noteq> a - 4"
proof
  assume "a + 4 * of_nat k = a - 4"
  then have "(4 * of_nat k + 4 :: u32) = 0" by (simp add: eq_diff_eq add.assoc)
  then have "(of_nat (4 * k + 4) :: u32) = 0" by simp
  moreover have "unat (of_nat (4 * k + 4) :: u32) = 4 * k + 4" using assms by (intro unat_of_nat32) simp
  ultimately show False by simp
qed

lemma words_at_push:
  assumes "words_at w a xs" "length xs < 2 ^ 29"
  shows "words_at (w(a - 4 := v)) a xs"
  using assms word_below [of _ a] by (auto simp: words_at_def)

lemma stack_push:
  assumes "stack m xs" "Suc (length xs) < 2 ^ 20"
  shows "stack (push v m) (v # xs)"
  using words_at_push [of "wmem m" "regs m ESP" xs v] assms by (simp add: stack_def push_def set_reg_def)

lemma stack_pop:
  assumes "stack m (v # xs)"
  shows "top m = v" "stack (pop m) xs"
  using assms by (simp_all add: stack_def top_def pop_def set_reg_def)

lemma push_sel [simp]:
  "regs (push v m) r = (if r = ESP then regs m ESP - 4 else regs m r)" "sregs (push v m) = sregs m"
  "m_eip (push v m) = m_eip m" "m_cs (push v m) = m_cs m" "m_eflags (push v m) = m_eflags m" "m_ss (push v m) = m_ss m"
  by (simp_all add: push_def set_reg_def)

lemma pop_sel [simp]:
  "regs (pop m) r = (if r = ESP then regs m ESP + 4 else regs m r)" "sregs (pop m) = sregs m" "wmem (pop m) = wmem m"
  "m_eip (pop m) = m_eip m" "m_cs (pop m) = m_cs m" "m_eflags (pop m) = m_eflags m" "m_ss (pop m) = m_ss m"
  by (simp_all add: pop_def set_reg_def)

lemma set_reg_sel [simp]:
  "regs (set_reg r v m) q = (if q = r then v else regs m q)" "sregs (set_reg r v m) = sregs m" "wmem (set_reg r v m) = wmem m"
  "m_eip (set_reg r v m) = m_eip m" "m_cs (set_reg r v m) = m_cs m" "m_eflags (set_reg r v m) = m_eflags m"
  "m_ss (set_reg r v m) = m_ss m"
  by (simp_all add: set_reg_def)

lemma stack_other [simp]:
  "r \<noteq> ESP \<Longrightarrow> stack (set_reg r v m) xs = stack m xs" "stack (m\<lparr>sregs := f\<rparr>) xs = stack m xs"
  "stack (m\<lparr>m_cs := c\<rparr>) xs = stack m xs" "stack (m\<lparr>m_eip := e\<rparr>) xs = stack m xs" "stack (m\<lparr>m_eflags := fl\<rparr>) xs = stack m xs"
  "stack (m\<lparr>m_ss := z\<rparr>) xs = stack m xs" "stack m []"
  by (simp_all add: stack_def)

section \<open>The trap frame\<close>

text \<open>The words of \<open>struct trapframe\<close> for the interrupted machine \<open>u\<close>; the selectors are padded to words.\<close>

definition frame_tail :: "machine \<Rightarrow> u32 list" where
  "frame_tail u = [m_eip u, ucast (m_cs u), m_eflags u] @ (if m_cs u AND 3 \<noteq> 0 then [regs u ESP, ucast (m_ss u)] else [])"

definition trapframe_words :: "machine \<Rightarrow> u32 \<Rightarrow> u32 \<Rightarrow> u32 \<Rightarrow> u32 list" where
  "trapframe_words u oesp trapno err =
     [regs u EDI, regs u ESI, regs u EBP, oesp, regs u EBX, regs u EDX, regs u ECX, regs u EAX,
      ucast (sregs u GS), ucast (sregs u FS), ucast (sregs u ES), ucast (sregs u DS), trapno, err] @ frame_tail u"

definition trap_enter :: "u32 \<Rightarrow> u16 \<Rightarrow> nat \<Rightarrow> u32 option \<Rightarrow> machine \<Rightarrow> machine" where
  "trap_enter ksp kss i err u = run (vector_code i @ alltraps_code) (hw_trap ksp kss err u)"

lemma hw_trap_facts:
  "stack (hw_trap ksp kss err u) ((case err of None \<Rightarrow> [] | Some e \<Rightarrow> [e]) @ frame_tail u)"
  "r \<noteq> ESP \<Longrightarrow> regs (hw_trap ksp kss err u) r = regs u r" "sregs (hw_trap ksp kss err u) = sregs u"
  "m_cs (hw_trap ksp kss err u) = push_bit 3 SEG_KCODE"
proof -
  define m1 where "m1 = (if m_cs u AND 3 \<noteq> 0 then push (regs u ESP) (push (ucast (m_ss u)) ((set_reg ESP ksp u)\<lparr>m_ss := kss\<rparr>)) else u)"
  have e: "hw_trap ksp kss err u = (case err of None \<Rightarrow> push (m_eip u) (push (ucast (m_cs u)) (push (m_eflags u) m1))
      | Some e \<Rightarrow> push e (push (m_eip u) (push (ucast (m_cs u)) (push (m_eflags u) m1))))\<lparr>m_cs := push_bit 3 SEG_KCODE\<rparr>"
    unfolding hw_trap_def Let_def m1_def ..
  have s1: "stack m1 (if m_cs u AND 3 \<noteq> 0 then [regs u ESP, ucast (m_ss u)] else [])"
    by (auto simp: m1_def intro!: stack_push)
  have "stack (push (m_eip u) (push (ucast (m_cs u)) (push (m_eflags u) m1))) (frame_tail u)"
    unfolding frame_tail_def append_Cons append_Nil by (intro stack_push s1) auto
  then show "stack (hw_trap ksp kss err u) ((case err of None \<Rightarrow> [] | Some e \<Rightarrow> [e]) @ frame_tail u)"
    unfolding e by (cases err) (auto simp: stack_push frame_tail_def)
  show "r \<noteq> ESP \<Longrightarrow> regs (hw_trap ksp kss err u) r = regs u r" "sregs (hw_trap ksp kss err u) = sregs u"
    unfolding e by (cases err; simp add: m1_def)+
  show "m_cs (hw_trap ksp kss err u) = push_bit 3 SEG_KCODE" by (simp add: e)
qed

lemma alltraps_stack:
  assumes "stack m xs" "length xs + 13 < 2 ^ 20"
  shows "stack (run alltraps_code m)
    ((regs m ESP - 48) # [regs m EDI, regs m ESI, regs m EBP, regs m ESP - 16, regs m EBX, regs m EDX, regs m ECX, regs m EAX,
      ucast (sregs m GS), ucast (sregs m FS), ucast (sregs m ES), ucast (sregs m DS)] @ xs)"
    "regs (run alltraps_code m) ESP = regs m ESP - 52" "m_cs (run alltraps_code m) = m_cs m"
  using assms by (simp_all add: run_def alltraps_code_def) (intro stack_push; simp)+

lemma ucast_selector [simp]: "ucast (ucast x :: u32) = (x :: u16)"
  by (rule bit_word_eqI) (simp add: bit_simps)

text \<open>A trap frame on the stack is loaded back by the code behind \<open>trap\<close>.\<close>

definition resumed :: "machine \<Rightarrow> machine \<Rightarrow> bool" where
  "resumed u m \<longleftrightarrow> (\<forall>r. r \<noteq> ESP \<longrightarrow> regs m r = regs u r) \<and> (\<forall>r. sregs m r = sregs u r) \<and> m_eip m = m_eip u \<and>
     m_cs m = m_cs u \<and> m_eflags m = m_eflags u \<and> (m_cs u AND 3 \<noteq> 0 \<longrightarrow> regs m ESP = regs u ESP \<and> m_ss m = m_ss u)"

lemma all_regs: "(\<forall>r. P r) \<longleftrightarrow> P EAX \<and> P ECX \<and> P EDX \<and> P EBX \<and> P ESP \<and> P EBP \<and> P ESI \<and> P EDI"
  by (metis reg.exhaust)

lemma all_sregs: "(\<forall>r. P r) \<longleftrightarrow> P DS \<and> P ES \<and> P FS \<and> P GS"
  by (metis sreg.exhaust)

lemma trapret_resumes:
  assumes "stack m (p # trapframe_words u oesp trapno err)" "m_cs m AND 3 = 0"
  shows "resumed u (run (after_trap @ trapret_code) m)"
    "m_cs u AND 3 = 0 \<Longrightarrow> regs (run (after_trap @ trapret_code) m) ESP = regs m ESP + 72"
  using assms
  by (cases "m_cs u AND 3 = 0"; simp add: resumed_def all_regs all_sregs run_def after_trap_def trapret_code_def
    iret_def pop_to_def top_def stack_def trapframe_words_def frame_tail_def Let_def)+

lemma run_append [simp]: "run (is @ js) m = run js (run is m)"
  by (simp add: run_def)

text \<open>The traps for which the processor pushes an error code, by its documentation.\<close>

definition hw_error_code :: "(nat \<Rightarrow> bool) \<Rightarrow> bool" where
  "hw_error_code has_err \<longleftrightarrow> (\<forall>i < 256. has_err i \<longleftrightarrow> i \<in> {8, 10, 11, 12, 13, 14, 17})"

lemma vector_stack:
  fixes ksp :: u32 and kss :: u16 and u :: machine
  assumes "hw_error_code has_err" "i < 256" "has_err i \<longleftrightarrow> err \<noteq> None"
  defines "m \<equiv> run (vector_code i) (hw_trap ksp kss err u)"
  shows "stack m (of_nat i # (case err of None \<Rightarrow> 0 | Some e \<Rightarrow> e) # frame_tail u)"
    "r \<noteq> ESP \<Longrightarrow> regs m r = regs u r" "sregs m = sregs u" "m_cs m = push_bit 3 SEG_KCODE"
proof -
  define h where "h = hw_trap ksp kss err u"
  note hf = hw_trap_facts [where ksp = ksp and kss = kss and err = err and u = u, folded h_def]
  have v: "m = (if err = None then push (of_nat i) (push 0 h) else push (of_nat i) h)"
    using assms(1-3) by (auto simp: m_def run_def vector_code_def hw_error_code_def h_def)
  show "stack m (of_nat i # (case err of None \<Rightarrow> 0 | Some e \<Rightarrow> e) # frame_tail u)"
  proof (cases err)
    case None
    then have "stack h (frame_tail u)" using hf(1) by simp
    then have "stack (push (of_nat i) (push 0 h)) (of_nat i # 0 # frame_tail u)"
      by (intro stack_push) (simp_all add: frame_tail_def)
    then show ?thesis using None v by simp
  next
    case (Some e)
    then have "stack h (e # frame_tail u)" using hf(1) by simp
    then have "stack (push (of_nat i) h) (of_nat i # e # frame_tail u)"
      by (intro stack_push) (simp_all add: frame_tail_def)
    then show ?thesis using Some v by simp
  qed
  show "r \<noteq> ESP \<Longrightarrow> regs m r = regs u r" "sregs m = sregs u" "m_cs m = push_bit 3 SEG_KCODE"
    using hf(2-4) by (simp_all add: v)
qed

lemma trap_enter_frame:
  fixes ksp :: u32 and kss :: u16 and u :: machine
  assumes "hw_error_code has_err" "i < 256" "has_err i \<longleftrightarrow> err \<noteq> None"
  defines "m \<equiv> trap_enter ksp kss i err u"
  shows "\<exists>oesp. stack m ((regs m ESP + 4) # trapframe_words u oesp (of_nat i) (case err of None \<Rightarrow> 0 | Some e \<Rightarrow> e))"
    "m_cs m AND 3 = 0"
proof -
  define h where "h = run (vector_code i) (hw_trap ksp kss err u)"
  note v = vector_stack [OF assms(1-3), where ksp = ksp and kss = kss and u = u, folded h_def]
  have m: "m = run alltraps_code h" by (simp add: m_def trap_enter_def h_def)
  have l: "length (of_nat i # (case err of None \<Rightarrow> 0 | Some e \<Rightarrow> e) # frame_tail u) + 13 < 2 ^ 20"
    by (simp add: frame_tail_def)
  note a = alltraps_stack [OF v(1) l, folded m]
  show "\<exists>oesp. stack m ((regs m ESP + 4) # trapframe_words u oesp (of_nat i) (case err of None \<Rightarrow> 0 | Some e \<Rightarrow> e))"
    using a(1,2) v(2,3) by (intro exI [of _ "regs h ESP - 16"]) (simp add: trapframe_words_def)
  show "m_cs m AND 3 = 0" using a(3) v(4) by simp
qed

section \<open>Context switches\<close>

text \<open>The words of \<open>struct context\<close>.\<close>

definition context_words :: "machine \<Rightarrow> u32 \<Rightarrow> u32 list" where
  "context_words m eip = [regs m EDI, regs m ESI, regs m EBX, regs m EBP, eip]"

text \<open>
  At a call of \<open>swtch\<close>: the return address and the two arguments are on the stack; the cell that
  \<open>old\<close> points to and the context \<open>new\<close> lie apart from the four words below the stack pointer.
\<close>

definition apart :: "u32 \<Rightarrow> nat \<Rightarrow> u32 \<Rightarrow> bool" where
  "apart a n b \<longleftrightarrow> (\<forall>k < n. a + 4 * of_nat k \<noteq> b)"

definition swtch_call :: "machine \<Rightarrow> u32 \<Rightarrow> u32 \<Rightarrow> u32 \<Rightarrow> bool" where
  "swtch_call m ret old new \<longleftrightarrow> stack m [ret, old, new] \<and> apart (regs m ESP - 16) 5 old \<and> apart new 5 old \<and>
     apart new 5 (regs m ESP - 4) \<and> apart new 5 (regs m ESP - 8) \<and> apart new 5 (regs m ESP - 12) \<and>
     apart new 5 (regs m ESP - 16)"

lemma words_at_upd: "apart a n b \<Longrightarrow> length xs = n \<Longrightarrow> words_at (w(b := v)) a xs = words_at w a xs"
  by (auto simp: words_at_def apart_def)

lemma words_at_append: "words_at w a (xs @ ys) \<Longrightarrow> words_at w a xs"
  by (auto simp: words_at_def nth_append)

text \<open>The first half saves the registers, the second half loads those of the other context.\<close>

definition swtch_saved :: "machine \<Rightarrow> machine" where
  "swtch_saved m = run (take 6 swtch_code) m"

lemma swtch_save:
  assumes "swtch_call m ret old new"
  shows "words_at (wmem (swtch_saved m)) (regs m ESP - 16) (context_words m ret)" "regs (swtch_saved m) ESP = regs m ESP - 16"
    "regs (swtch_saved m) EAX = old" "regs (swtch_saved m) EDX = new"
    "wmem (swtch_saved m) = (wmem m)(regs m ESP - 4 := regs m EBP, regs m ESP - 8 := regs m EBX,
       regs m ESP - 12 := regs m ESI, regs m ESP - 16 := regs m EDI)"
proof -
  let ?m = "set_reg EDX new (set_reg EAX old m)"
  have a: "stack m [ret, old, new]" using assms by (simp add: swtch_call_def)
  then have v: "wmem m (regs m ESP + 4) = old" "wmem m (regs m ESP + 8) = new" by (simp_all add: stack_def add.commute)
  have e: "swtch_saved m = push (regs m EDI) (push (regs m ESI) (push (regs m EBX) (push (regs m EBP) ?m)))"
    using v by (simp add: swtch_saved_def run_def swtch_code_def)
  have "stack (swtch_saved m) (context_words m ret @ [old, new])"
    unfolding e context_words_def append.simps by (intro stack_push) (use a in simp_all)
  then have w: "words_at (wmem (swtch_saved m)) (regs (swtch_saved m) ESP) (context_words m ret @ [old, new])"
    by (simp only: stack_def)
  show sp: "regs (swtch_saved m) ESP = regs m ESP - 16" "regs (swtch_saved m) EAX = old" "regs (swtch_saved m) EDX = new"
    by (simp_all add: e)
  show "words_at (wmem (swtch_saved m)) (regs m ESP - 16) (context_words m ret)"
    by (rule words_at_append [OF w [unfolded sp(1)]])
  show "wmem (swtch_saved m) = (wmem m)(regs m ESP - 4 := regs m EBP, regs m ESP - 8 := regs m EBX,
       regs m ESP - 12 := regs m ESI, regs m ESP - 16 := regs m EDI)"
    by (simp add: e push_def set_reg_def)
qed

lemma swtch_run:
  assumes c: "swtch_call m ret old new" and w: "words_at (wmem m) new [edi, esi, ebx, ebp, eip]"
  defines "m' \<equiv> run swtch_code m"
  shows "wmem m' old = regs m ESP - 16" "words_at (wmem m') (regs m ESP - 16) (context_words m ret)"
    "context_words m' (m_eip m') = [edi, esi, ebx, ebp, eip]" "regs m' ESP = new + 20"
proof -
  note s = swtch_save [OF c]
  define w2 where "w2 = (wmem (swtch_saved m))(old := regs m ESP - 16)"
  have ap: "apart (regs m ESP - 16) 5 old" "apart new 5 old" "apart new 5 (regs m ESP - 4)" "apart new 5 (regs m ESP - 8)"
    "apart new 5 (regs m ESP - 12)" "apart new 5 (regs m ESP - 16)"
    using c by (simp_all add: swtch_call_def)
  have five: "length [edi, esi, ebx, ebp, eip] = 5" by simp
  have n: "words_at w2 new [edi, esi, ebx, ebp, eip]"
    unfolding w2_def s(5) words_at_upd [OF ap(2) five] words_at_upd [OF ap(6) five] words_at_upd [OF ap(5) five]
      words_at_upd [OF ap(4) five] words_at_upd [OF ap(3) five] by (rule w)
  have o: "words_at w2 (regs m ESP - 16) (context_words m ret)"
    unfolding w2_def using s(1) words_at_upd [OF ap(1), of "context_words m ret"]
    by (simp add: context_words_def del: words_at_simps)
  have sp: "take 6 swtch_code @ drop 6 swtch_code = swtch_code" by simp
  have "m' = run (drop 6 swtch_code) (swtch_saved m)"
    unfolding m'_def swtch_saved_def by (subst sp [symmetric]) (simp only: run_append)
  then have e: "m' = run [Popl EDI, Popl ESI, Popl EBX, Popl EBP, Ret] ((swtch_saved m)\<lparr>wmem := w2, regs := (regs (swtch_saved m))(ESP := new)\<rparr>)"
    using s(2-4) by (simp add: run_def swtch_code_def w2_def set_reg_def)
  have wm: "wmem m' = w2" by (simp add: e run_def pop_to_def)
  show "wmem m' old = regs m ESP - 16" by (simp add: wm w2_def)
  show "words_at (wmem m') (regs m ESP - 16) (context_words m ret)" using o by (simp add: wm)
  show "context_words m' (m_eip m') = [edi, esi, ebx, ebp, eip]" "regs m' ESP = new + 20"
    using n by (simp_all add: e run_def pop_to_def top_def context_words_def)
qed

section \<open>Properties\<close>

text \<open>A machine in user mode at address 16, with a kernel stack at 0x8000; a machine in the kernel.\<close>

definition sample_user :: machine where
  "sample_user = \<lparr>regs = (\<lambda>r. if r = ESP then 0x3000 else 7), sregs = (\<lambda>_. 0x2b), m_eip = 16, m_cs = 0x23, m_eflags = 0x200,
     m_ss = 0x2b, wmem = (\<lambda>_. 0)\<rparr>"

definition sample_kernel :: machine where
  "sample_kernel = \<lparr>regs = (\<lambda>r. if r = ESP then 0x8000 else 5), sregs = (\<lambda>_. 0x10), m_eip = 0, m_cs = 8, m_eflags = 0,
     m_ss = 0x10, wmem = (\<lambda>a. if a = 0x8000 then 0x1234 else if a = 0x8004 then 0x6000 else if a = 0x8008 then 0x7000
       else if a = 0x7010 then 0x5678 else 9)\<rparr>"

definition sample_back :: machine where
  "sample_back = sample_kernel\<lparr>regs := (\<lambda>r. if r = ESP then 0x6f00 else 3), wmem := (\<lambda>a. if a = 0x6f00 then 0x9999
     else if a = 0x6f04 then 0x6004 else if a = 0x6f08 then 0x7ff0 else if a = 0x8000 then 0x1234 else 5)\<rparr>"

text \<open>
  C12. Every trap builds the same frame and can be undone.  For each of the 256 vectors, whether the
  processor pushes an error code for it or not and whether it came from user mode or from the kernel, the
  stub and \<open>alltraps\<close> call \<open>trap\<close> with a pointer to the words of \<open>struct trapframe\<close>: the interrupted
  registers, the number of the vector, the error code or 0, and what the hardware saved.  When \<open>trap\<close> returns,
  in kernel mode, with these words still on the stack, \<open>trapret\<close> resumes the interrupted machine.
\<close>

theorem trap_frame_round_trip:
  assumes "hw_error_code has_err" "i < 256" "has_err i \<longleftrightarrow> err \<noteq> None"
  shows "\<exists>tf oesp. stack (trap_enter ksp kss i err u)
      (tf # trapframe_words u oesp (of_nat i) (case err of None \<Rightarrow> 0 | Some e \<Rightarrow> e)) \<and>
    tf = regs (trap_enter ksp kss i err u) ESP + 4 \<and>
    (\<forall>m. regs m ESP = regs (trap_enter ksp kss i err u) ESP \<and> m_cs m = m_cs (trap_enter ksp kss i err u) \<and>
      stack m (tf # trapframe_words u oesp (of_nat i) (case err of None \<Rightarrow> 0 | Some e \<Rightarrow> e)) \<longrightarrow>
      resumed u (run (after_trap @ trapret_code) m))"
proof -
  let ?m = "trap_enter ksp kss i err u"
  obtain oesp where o: "stack ?m ((regs ?m ESP + 4) # trapframe_words u oesp (of_nat i) (case err of None \<Rightarrow> 0 | Some e \<Rightarrow> e))"
    using trap_enter_frame(1) [OF assms] by blast
  have "m_cs ?m AND 3 = 0" by (rule trap_enter_frame(2) [OF assms])
  then show ?thesis using o trapret_resumes(1) by (intro exI [of _ "regs ?m ESP + 4"] exI [of _ oesp]) auto
qed

theorem trap_frame_round_trip_witness:
  "\<exists>tf oesp. stack (trap_enter 0x8000 0x10 64 None sample_user) (tf # trapframe_words sample_user oesp 64 0) \<and>
    resumed sample_user (run (after_trap @ trapret_code) (trap_enter 0x8000 0x10 64 None sample_user))"
proof -
  have "hw_error_code (\<lambda>i. i \<in> {8, 10, 11, 12, 13, 14, 17})" by (simp add: hw_error_code_def)
  from trap_frame_round_trip [OF this, of 64 None "0x8000" "0x10" sample_user] show ?thesis by auto
qed

text \<open>
  C16. A context switch can be switched back.  \<open>swtch\<close> leaves in the cell that \<open>old\<close> points to the
  address of a \<open>struct context\<close> with the registers of the caller and its return address, and continues at the
  context \<open>new\<close> with the registers saved there; so a later \<open>swtch\<close> to what the cell holds, with the saved
  words unchanged, returns from this call with the registers of this caller.
\<close>

theorem swtch_round_trip:
  assumes "swtch_call m ret old new" "words_at (wmem m) new [edi, esi, ebx, ebp, eip]"
    "swtch_call m2 ret2 old2 (wmem (run swtch_code m) old)"
    "words_at (wmem m2) (wmem (run swtch_code m) old) (context_words m ret)"
  shows "context_words (run swtch_code m) (m_eip (run swtch_code m)) = [edi, esi, ebx, ebp, eip] \<and>
    regs (run swtch_code m) ESP = new + 20 \<and>
    words_at (wmem (run swtch_code m)) (wmem (run swtch_code m) old) (context_words m ret) \<and>
    context_words (run swtch_code m2) (m_eip (run swtch_code m2)) = context_words m ret \<and>
    regs (run swtch_code m2) ESP = regs m ESP + 4"
  using swtch_run [OF assms(1,2)] swtch_run [OF assms(3) assms(4) [unfolded context_words_def]]
  by (simp add: context_words_def)

lemma all_less_5: "(\<forall>k < 5. P k) \<longleftrightarrow> P 0 \<and> P 1 \<and> P 2 \<and> P 3 \<and> P (4 :: nat)"
  by (auto simp: less_Suc_eq numeral_eq_Suc)

theorem swtch_round_trip_witness:
  "m_eip (run swtch_code sample_kernel) = 0x5678 \<and> m_eip (run swtch_code sample_back) = 0x1234 \<and>
   regs (run swtch_code sample_back) EBX = 5"
proof -
  have c: "swtch_call sample_kernel 0x1234 0x6000 0x7000" "words_at (wmem sample_kernel) 0x7000 [9, 9, 9, 9, 0x5678]"
    by (simp_all add: swtch_call_def stack_def sample_kernel_def apart_def all_less_5)
  have w: "wmem (run swtch_code sample_kernel) 0x6000 = 0x7ff0"
    using swtch_run(1) [OF c] by (simp add: sample_kernel_def)
  have b: "swtch_call sample_back 0x9999 0x6004 0x7ff0"
    "words_at (wmem sample_back) 0x7ff0 (context_words sample_kernel 0x1234)"
    by (simp_all add: swtch_call_def stack_def sample_back_def sample_kernel_def apart_def all_less_5 context_words_def)
  have "context_words (run swtch_code sample_kernel) (m_eip (run swtch_code sample_kernel)) = [9, 9, 9, 9, 0x5678] \<and>
    context_words (run swtch_code sample_back) (m_eip (run swtch_code sample_back)) = context_words sample_kernel 0x1234"
    using swtch_round_trip [OF c, of sample_back "0x9999" "0x6004"] b w by simp
  then show ?thesis by (simp add: context_words_def sample_kernel_def)
qed

end
