(* ===== verification/Xv6_Gates.thy ===== *)
theory Xv6_Gates
  imports Xv6_Syscall Xv6_Asm
begin

unbundle bit_operations_syntax

text \<open>
  The descriptor tables of the processor: the interrupt gates of \<open>tvinit\<close> in \<^verbatim>\<open>trap.c\<close> and the segments
  of \<open>seginit\<close> in \<^verbatim>\<open>vm.c\<close>, with the bit fields of \<^verbatim>\<open>mmu.h\<close>, and the segments that the boot code
  writes with the macro of \<^verbatim>\<open>asm.h\<close>.
\<close>

section \<open>Gates\<close>

record gatedesc =
  off_15_0 :: u16
  gd_cs :: u16
  gd_args :: "5 word"
  gd_rsv1 :: "3 word"
  gd_type :: "4 word"
  gd_s :: "1 word"
  gd_dpl :: "2 word"
  gd_p :: "1 word"
  off_31_16 :: u16

abbreviation STS_IG32 :: "4 word" where "STS_IG32 \<equiv> 0xE"
abbreviation STS_TG32 :: "4 word" where "STS_TG32 \<equiv> 0xF"
abbreviation DPL_USER :: "2 word" where "DPL_USER \<equiv> 3"

definition SETGATE :: "bool \<Rightarrow> u16 \<Rightarrow> u32 \<Rightarrow> 2 word \<Rightarrow> gatedesc" where
  "SETGATE istrap sel off d =
     \<lparr>off_15_0 = ucast (off AND 0xffff), gd_cs = sel, gd_args = 0, gd_rsv1 = 0,
      gd_type = (if istrap then STS_TG32 else STS_IG32), gd_s = 0, gd_dpl = d, gd_p = 1,
      off_31_16 = ucast (drop_bit 16 off)\<rparr>"

text \<open>The table is filled entry by entry; \<open>vectors\<close> is the table of addresses in \<^verbatim>\<open>vectors.S\<close>.\<close>

definition tvinit :: "(nat \<Rightarrow> u32) \<Rightarrow> gatedesc list \<times> 'a sc_state_scheme \<Rightarrow> gatedesc list \<times> 'a sc_state_scheme" where
  "tvinit vectors = (\<lambda>(idt, s).
     (let idt = fold (\<lambda>i idt. idt[i := SETGATE False (push_bit 3 SEG_KCODE) (vectors i) 0]) [0..<256] idt;
          idt = idt[unat T_SYSCALL := SETGATE True (push_bit 3 SEG_KCODE) (vectors (unat T_SYSCALL)) DPL_USER]
      in (idt, s\<lparr>tickslock := initlock ''time'' (tickslock s)\<rparr>)))"

definition gate_offset :: "gatedesc \<Rightarrow> u32" where
  "gate_offset g = push_bit 16 (ucast (off_31_16 g)) OR ucast (off_15_0 g)"

section \<open>Segments\<close>

record segdesc =
  lim_15_0 :: u16
  base_15_0 :: u16
  base_23_16 :: u8
  sd_type :: "4 word"
  sd_s :: "1 word"
  sd_dpl :: "2 word"
  sd_p :: "1 word"
  lim_19_16 :: "4 word"
  sd_avl :: "1 word"
  sd_rsv1 :: "1 word"
  sd_db :: "1 word"
  sd_g :: "1 word"
  base_31_24 :: u8

abbreviation STA_X :: "4 word" where "STA_X \<equiv> 8"
abbreviation STA_W :: "4 word" where "STA_W \<equiv> 2"
abbreviation STA_R :: "4 word" where "STA_R \<equiv> 2"

definition SEG :: "4 word \<Rightarrow> u32 \<Rightarrow> u32 \<Rightarrow> 2 word \<Rightarrow> segdesc" where
  "SEG type base lim dpl =
     \<lparr>lim_15_0 = ucast (drop_bit 12 lim AND 0xffff), base_15_0 = ucast (base AND 0xffff),
      base_23_16 = ucast (drop_bit 16 base AND 0xff), sd_type = type, sd_s = 1, sd_dpl = dpl, sd_p = 1,
      lim_19_16 = ucast (drop_bit 28 lim), sd_avl = 0, sd_rsv1 = 0, sd_db = 1, sd_g = 1,
      base_31_24 = ucast (drop_bit 24 base)\<rparr>"

text \<open>The bytes of a descriptor: the fields from the low bits on.\<close>

definition segdesc_bytes :: "segdesc \<Rightarrow> u8 list" where
  "segdesc_bytes d = le16 (lim_15_0 d) @ le16 (base_15_0 d) @ [base_23_16 d,
     ucast (sd_type d) OR push_bit 4 (ucast (sd_s d)) OR push_bit 5 (ucast (sd_dpl d)) OR push_bit 7 (ucast (sd_p d)),
     ucast (lim_19_16 d) OR push_bit 4 (ucast (sd_avl d)) OR push_bit 5 (ucast (sd_rsv1 d)) OR push_bit 6 (ucast (sd_db d)) OR
       push_bit 7 (ucast (sd_g d)),
     base_31_24 d]"

text \<open>The macro of the assembler: two words and four bytes.\<close>

definition SEG_ASM :: "u8 \<Rightarrow> u32 \<Rightarrow> u32 \<Rightarrow> u8 list" where
  "SEG_ASM type base lim = le16 (ucast (drop_bit 12 lim AND 0xffff)) @ le16 (ucast (base AND 0xffff)) @
     [ucast (drop_bit 16 base AND 0xff), 0x90 OR type, 0xC0 OR ucast (drop_bit 28 lim AND 0xf), ucast (drop_bit 24 base AND 0xff)]"

definition seginit :: "u32 \<Rightarrow> segdesc list \<Rightarrow> segdesc list" where
  "seginit cpu_addr gdt =
     (let gdt = gdt[unat SEG_KCODE := SEG (STA_X OR STA_R) 0 0xffffffff 0];
          gdt = gdt[unat SEG_KDATA := SEG STA_W 0 0xffffffff 0];
          gdt = gdt[4 := SEG (STA_X OR STA_R) 0 0xffffffff DPL_USER];
          gdt = gdt[5 := SEG STA_W 0 0xffffffff DPL_USER]
      in gdt[unat SEG_KCPU := SEG STA_W cpu_addr 8 0])"

section \<open>Lemmas\<close>

lemma fold_fill:
  assumes "length xs = n"
  shows "fold (\<lambda>i xs. xs[i := f i]) [0..<n] xs = map f [0..<n]"
proof -
  have "fold (\<lambda>i xs. xs[i := f i]) [0..<k] xs = map f [0..<k] @ drop k xs" if "k \<le> n" for k
    using that
  proof (induction k)
    case (Suc k)
    then have "drop k xs = xs ! k # drop (Suc k) xs" using assms by (simp add: Cons_nth_drop_Suc)
    then show ?case using Suc by (simp add: list_update_append)
  qed simp
  from this [of n] show ?thesis using assms by simp
qed

lemma ucast_split: "push_bit 16 (ucast (ucast (drop_bit 16 w) :: u16)) OR ucast (ucast (w AND 0xffff) :: u16) = (w :: u32)"
proof -
  have m: "(0xffff :: u32) = mask 16" by (simp add: mask_eq_exp_minus_1)
  show ?thesis unfolding m
  proof (rule bit_word_eqI)
    fix k assume "k < LENGTH(32)"
    then show "bit (push_bit 16 (ucast (ucast (drop_bit 16 w) :: u16)) OR ucast (ucast (w AND mask 16) :: u16) :: u32) k = bit w k"
      by (cases "k < 16") (auto simp: bit_simps)
  qed
qed

lemma gate_offset_SETGATE: "gate_offset (SETGATE t c off d) = off"
  by (simp add: gate_offset_def SETGATE_def ucast_split)

section \<open>Properties\<close>

text \<open>
  C25. The gates of \<open>tvinit\<close>: every entry of the table leads to its own stub in the kernel's code
  segment; the gate of the system call alone may be entered by an instruction of user code, and alone leaves
  interrupts enabled, all others being interrupt gates of privilege level 0.
\<close>

theorem tvinit_gates:
  assumes "length idt = 256" "i < 256"
  shows "length (fst (tvinit vectors (idt, s))) = 256 \<and> (let g = fst (tvinit vectors (idt, s)) ! i in
    gate_offset g = vectors i \<and> gd_cs g = 8 \<and> gd_p g = 1 \<and> gd_dpl g = (if i = unat T_SYSCALL then DPL_USER else 0) \<and>
    gd_type g = (if i = unat T_SYSCALL then STS_TG32 else STS_IG32))"
proof -
  have "fst (tvinit vectors (idt, s)) = (map (\<lambda>i. SETGATE False (push_bit 3 SEG_KCODE) (vectors i) 0) [0..<256])
      [unat T_SYSCALL := SETGATE True (push_bit 3 SEG_KCODE) (vectors (unat T_SYSCALL)) DPL_USER]"
    using fold_fill [OF assms(1), of "\<lambda>i. SETGATE False (push_bit 3 SEG_KCODE) (vectors i) 0"] by (simp add: tvinit_def)
  moreover have "gd_cs (SETGATE t (push_bit 3 SEG_KCODE) off d) = 8" "gd_p (SETGATE t c off d) = 1"
    "gd_dpl (SETGATE t c off d) = d" "gd_type (SETGATE t c off d) = (if t then STS_TG32 else STS_IG32)" for t c off d
    by (simp_all add: SETGATE_def)
  ultimately show ?thesis
    using assms(2) by (auto simp: gate_offset_SETGATE nth_list_update T_SYSCALL_def Let_def)
qed

text \<open>A gate table of zeros.\<close>

definition sample_idt :: "gatedesc list" where
  "sample_idt = replicate 256 (SETGATE False 0 0 0)"

theorem tvinit_gates_witness:
  "gd_dpl (fst (tvinit (\<lambda>i. 0x80100000 + 8 * of_nat i) (sample_idt, sample_sc)) ! 64) = DPL_USER \<and>
   gate_offset (fst (tvinit (\<lambda>i. 0x80100000 + 8 * of_nat i) (sample_idt, sample_sc)) ! 64) = 0x80100200"
  using tvinit_gates [of sample_idt 64 "\<lambda>i. 0x80100000 + 8 * of_nat i" sample_sc]
  by (simp add: sample_idt_def T_SYSCALL_def Let_def)

text \<open>
  The boot loader and the kernel use the same segments: the bytes that the assembler macro
  \<open>SEG_ASM\<close> emits for a type, a base and a limit are the bytes of the descriptor that the C macro \<open>SEG\<close> builds
  for them at privilege level 0.
\<close>

theorem seg_asm_equals_seg:
  "segdesc_bytes (SEG type base lim 0) = SEG_ASM (ucast type) base lim"
proof -
  have f: "(0xf :: u32) = mask 4" "(0xff :: u32) = mask 8" by (simp_all add: mask_eq_exp_minus_1)
  have "ucast type OR push_bit 4 1 OR push_bit 5 0 OR push_bit 7 1 = 0x90 OR (ucast type :: u8)"
    by (simp add: or.commute or.left_commute)
  moreover have "ucast (ucast (drop_bit 28 lim) :: 4 word) OR push_bit 4 0 OR push_bit 5 0 OR push_bit 6 1 OR push_bit 7 1 =
      0xC0 OR (ucast (drop_bit 28 lim AND 0xf) :: u8)"
  proof -
    have "ucast (ucast (drop_bit 28 lim) :: 4 word) = (ucast (drop_bit 28 lim AND 0xf) :: u8)"
      unfolding f by (rule bit_word_eqI) (auto simp: bit_simps)
    then show ?thesis by (simp add: or.commute or.left_commute)
  qed
  moreover have "ucast (drop_bit 24 base) = (ucast (drop_bit 24 base AND 0xff) :: u8)"
    unfolding f by (rule bit_word_eqI) (auto simp: bit_simps)
  ultimately show ?thesis by (simp add: segdesc_bytes_def SEG_def SEG_ASM_def)
qed

end
