(* ===== verification/Xv6_Mp.thy ===== *)
theory Xv6_Mp
  imports Xv6_Kalloc
begin

unbundle bit_operations_syntax

text \<open>
  Start-up of the processors, \<^verbatim>\<open>mp.c\<close>: the search for the tables that the BIOS leaves in memory, and
  \<open>mpinit\<close>, which walks the configuration table; and the clock of \<^verbatim>\<open>lapic.c\<close>.

  The structures of \<^verbatim>\<open>mp.h\<close> are bytes of the kernel's memory at their offsets.  \<open>mpinit\<close> may run
  forever, so its loop has fuel; the fuel of the search is the number of its steps.
\<close>

section \<open>Searching\<close>

primrec sum_loop :: "nat \<Rightarrow> mem \<Rightarrow> u32 \<Rightarrow> int \<Rightarrow> int" where
  "sum_loop 0 m p acc = acc"
| "sum_loop (Suc k) m p acc = sum_loop k m (p + 1) (acc + uint (m p))"

definition mp_sum :: "mem \<Rightarrow> u32 \<Rightarrow> nat \<Rightarrow> u8" where
  "mp_sum m addr len = word_of_int (sum_loop len m addr 0)"

definition is_mp :: "mem \<Rightarrow> u32 \<Rightarrow> bool" where
  "is_mp m p \<longleftrightarrow> memcmp (rd m p) (lstr (cbytes ''_MP_'')) 4 = 0 \<and> mp_sum m p 16 = 0"

primrec mpsearch1_loop :: "nat \<Rightarrow> mem \<Rightarrow> u32 \<Rightarrow> u32 \<Rightarrow> u32 option" where
  "mpsearch1_loop 0 m p e = None"
| "mpsearch1_loop (Suc k) m p e =
     (if p < e then if is_mp m p then Some p else mpsearch1_loop k m (p + 16) e else None)"

definition mpsearch1 :: "mem \<Rightarrow> u32 \<Rightarrow> nat \<Rightarrow> u32 option" where
  "mpsearch1 m a len = (let addr = P2V a in mpsearch1_loop (len div 16 + 1) m addr (addr + of_nat len))"

definition mpsearch :: "mem \<Rightarrow> u32 option" where
  "mpsearch m =
     (let bda = P2V 0x400;
          p = push_bit 4 (push_bit 8 (ucast (m (bda + 0x0F))) OR ucast (m (bda + 0x0E))) :: u32;
          found = (if p \<noteq> 0 then mpsearch1 m p 1024
                   else (let p = (push_bit 8 (ucast (m (bda + 0x14))) OR ucast (m (bda + 0x13))) * 1024
                         in mpsearch1 m (p - 1024) 1024))
      in case found of Some mp \<Rightarrow> Some mp | None \<Rightarrow> mpsearch1 m 0xF0000 0x10000)"

definition load16 :: "mem \<Rightarrow> u32 \<Rightarrow> u16" where
  "load16 m p = of_le16 [m p, m (p + 1)]"

text \<open>The configuration table and the structure that points to it.\<close>

definition mpconfig :: "mem \<Rightarrow> (u32 \<times> u32) option" where
  "mpconfig m =
     (case mpsearch m of
        None \<Rightarrow> None
      | Some mp \<Rightarrow>
          if load32 m (mp + 4) = 0 then None
          else
            (let conf = P2V (load32 m (mp + 4)) in
             if memcmp (rd m conf) (lstr (cbytes ''PCMP'')) 4 \<noteq> 0 then None
             else if m (conf + 6) \<noteq> 1 \<and> m (conf + 6) \<noteq> 4 then None
             else if mp_sum m conf (unat (load16 m (conf + 4))) \<noteq> 0 then None
             else Some (conf, mp)))"

section \<open>mpinit\<close>

abbreviation NCPU :: nat where "NCPU \<equiv> 8"
abbreviation MPPROC :: u8 where "MPPROC \<equiv> 0"
abbreviation MPBUS :: u8 where "MPBUS \<equiv> 1"
abbreviation MPIOAPIC :: u8 where "MPIOAPIC \<equiv> 2"
abbreviation MPIOINTR :: u8 where "MPIOINTR \<equiv> 3"
abbreviation MPLINTR :: u8 where "MPLINTR \<equiv> 4"

record mp_state =
  apicids :: "u8 list"
  ismp :: bool
  ncpu :: nat
  ioapicid :: u8
  lapic :: u32
  mp_outs :: "(u16 \<times> u8) list"

text \<open>The loop over the entries: the \<open>break\<close> of the default case leaves the \<open>switch\<close>, not the loop.\<close>

primrec mpinit_loop :: "nat \<Rightarrow> mem \<Rightarrow> u32 \<Rightarrow> u32 \<Rightarrow> mp_state \<Rightarrow> mp_state res" where
  "mpinit_loop 0 m p e s = Fail NoFuel"
| "mpinit_loop (Suc k) m p e s =
     (if p < e then
        if m p = MPPROC then
          mpinit_loop k m (p + 20) e
            (if ncpu s < NCPU then s\<lparr>apicids := (apicids s)[ncpu s := m (p + 1)], ncpu := ncpu s + 1\<rparr> else s)
        else if m p = MPIOAPIC then mpinit_loop k m (p + 8) e (s\<lparr>ioapicid := m (p + 1)\<rparr>)
        else if m p = MPBUS \<or> m p = MPIOINTR \<or> m p = MPLINTR then mpinit_loop k m (p + 8) e s
        else mpinit_loop k m p e (s\<lparr>ismp := False\<rparr>)
      else Ok s)"

text \<open>\<open>imcr\<close> is what the port 0x23 holds.\<close>

definition mpinit :: "nat \<Rightarrow> mem \<Rightarrow> u8 \<Rightarrow> mp_state \<Rightarrow> mp_state res" where
  "mpinit n m imcr s =
     (case mpconfig m of
        None \<Rightarrow> Ok s
      | Some (conf, mp) \<Rightarrow>
          (let s = s\<lparr>ismp := True, lapic := load32 m (conf + 36)\<rparr> in
           bindr (mpinit_loop n m (conf + 44) (conf + ucast (load16 m (conf + 4))) s) (\<lambda>s.
           if \<not> ismp s then Ok (s\<lparr>ncpu := 1, lapic := 0, ioapicid := 0\<rparr>)
           else if m (mp + 12) \<noteq> 0 then Ok (s\<lparr>mp_outs := mp_outs s @ [(0x22, 0x70), (0x23, imcr OR 1)]\<rparr>)
           else Ok s)))"

section \<open>The clock\<close>

record rtcdate =
  second :: u32
  minute :: u32
  hour :: u32
  day :: u32
  month :: u32
  year :: u32

text \<open>The clock chip is an argument: what its registers hold at the \<open>t\<close>-th read.\<close>

definition fill_rtcdate :: "(nat \<Rightarrow> u8 \<Rightarrow> u8) \<Rightarrow> nat \<Rightarrow> rtcdate \<times> nat" where
  "fill_rtcdate cmos t =
     (\<lparr>second = ucast (cmos t 0x00), minute = ucast (cmos (t + 1) 0x02), hour = ucast (cmos (t + 2) 0x04),
       day = ucast (cmos (t + 3) 0x07), month = ucast (cmos (t + 4) 0x08), year = ucast (cmos (t + 5) 0x09)\<rparr>, t + 6)"

primrec cmostime_loop :: "nat \<Rightarrow> (nat \<Rightarrow> u8 \<Rightarrow> u8) \<Rightarrow> nat \<Rightarrow> rtcdate res" where
  "cmostime_loop 0 cmos t = Fail NoFuel"
| "cmostime_loop (Suc k) cmos t =
     (let (t1, t) = fill_rtcdate cmos t in
      if cmos t 0x0a AND 0x80 \<noteq> 0 then cmostime_loop k cmos (t + 1)
      else
        (let (t2, t) = fill_rtcdate cmos (t + 1) in
         if t1 = t2 then Ok t1 else cmostime_loop k cmos t))"

definition CONV :: "u32 \<Rightarrow> u32" where
  "CONV x = drop_bit 4 x * 10 + (x AND 0xf)"

definition cmostime :: "nat \<Rightarrow> (nat \<Rightarrow> u8 \<Rightarrow> u8) \<Rightarrow> rtcdate res" where
  "cmostime n cmos =
     (let bcd = (cmos 0 0x0b AND 4 = 0) in
      bindr (cmostime_loop n cmos 1) (\<lambda>t1.
      let t1 = (if bcd then \<lparr>second = CONV (second t1), minute = CONV (minute t1), hour = CONV (hour t1),
                  day = CONV (day t1), month = CONV (month t1), year = CONV (year t1)\<rparr> else t1)
      in Ok (t1\<lparr>year := year t1 + 2000\<rparr>)))"

section \<open>Lemmas\<close>

text \<open>A binary-coded decimal stands for its two digits; a clock that does not tick is read at once.\<close>

lemma CONV_bcd:
  assumes "a < 10" "b < 10"
  shows "CONV (16 * a + b) = 10 * a + b"
proof -
  have a: "unat a < 10" "unat b < 10" using assms by (simp_all add: word_less_nat_alt)
  have u: "unat (16 * a + b) = 16 * unat a + unat b"
    using a by (simp add: unat_word_ariths)
  have "drop_bit 4 (16 * a + b) = a" "(16 * a + b) AND 0xf = b"
  proof -
    have f: "(0xf :: u32) = mask 4" by (simp add: mask_eq_exp_minus_1)
    have "unat (drop_bit 4 (16 * a + b)) = unat a"
      using a u by (subst unat_drop_bit_eq) (simp add: drop_bit_eq_div)
    then show "drop_bit 4 (16 * a + b) = a" by (rule unsigned_word_eqI)
    have "unat ((16 * a + b) AND 0xf) = unat b"
      unfolding f take_bit_eq_mask [symmetric] unsigned_take_bit_eq u using a by (simp add: take_bit_eq_mod)
    then show "(16 * a + b) AND 0xf = b" by (rule unsigned_word_eqI)
  qed
  then show ?thesis by (simp add: CONV_def)
qed

lemma cmostime_still:
  assumes "\<And>t r. cmos t r = clk r" "clk 0x0a AND 0x80 = 0"
  shows "cmostime_loop (Suc k) cmos t = Ok (fst (fill_rtcdate cmos t))"
  using assms by (simp add: fill_rtcdate_def)

text \<open>The search returns a structure with the signature and the checksum.\<close>

lemma mpsearch1_loop_found: "mpsearch1_loop k m p e = Some q \<Longrightarrow> is_mp m q"
  by (induction k arbitrary: p) (auto split: if_splits)

lemma mpsearch_found: "mpsearch m = Some q \<Longrightarrow> is_mp m q"
  by (auto simp: mpsearch_def mpsearch1_def Let_def split: option.splits if_splits dest: mpsearch1_loop_found)

text \<open>A table of entries of the known types.\<close>

definition entry_size :: "u8 \<Rightarrow> u32" where
  "entry_size t = (if t = MPPROC then 20 else 8)"

definition known_type :: "u8 \<Rightarrow> bool" where
  "known_type t \<longleftrightarrow> t = MPPROC \<or> t = MPIOAPIC \<or> t = MPBUS \<or> t = MPIOINTR \<or> t = MPLINTR"

fun mp_table :: "mem \<Rightarrow> u32 \<Rightarrow> u32 \<Rightarrow> u8 list \<Rightarrow> bool" where
  "mp_table m p e [] \<longleftrightarrow> \<not> p < e"
| "mp_table m p e (t # ts) \<longleftrightarrow> p < e \<and> m p = t \<and> known_type t \<and> mp_table m (p + entry_size t) e ts"

lemma mpinit_loop_known:
  assumes "p < e" "known_type (m p)"
  obtains s' where "mpinit_loop (Suc k) m p e s = mpinit_loop k m (p + entry_size (m p)) e s'" "ismp s' = ismp s"
  using assms by (auto simp: known_type_def entry_size_def split: if_splits)

lemma mpinit_loop_unknown: "p < e \<Longrightarrow> \<not> known_type (m p) \<Longrightarrow> mpinit_loop k m p e s = Fail NoFuel"
  by (induction k arbitrary: s) (auto simp: known_type_def)

lemma mpinit_loop_table: "mp_table m p e ts \<Longrightarrow> length ts < k \<Longrightarrow> \<exists>s'. mpinit_loop k m p e s = Ok s' \<and> ismp s' = ismp s"
proof (induction ts arbitrary: p k s)
  case Nil
  then show ?case by (cases k) auto
next
  case (Cons t ts)
  then obtain j where k: "k = Suc j" "length ts < j" by (cases k) auto
  obtain s' where "mpinit_loop (Suc j) m p e s = mpinit_loop j m (p + entry_size (m p)) e s'" "ismp s' = ismp s"
    by (rule mpinit_loop_known [of p e m j s]) (use Cons.prems in auto)
  then show ?case using Cons.IH [of "p + entry_size t" j s'] Cons.prems k by auto
qed

lemma mpinit_loop_ismp:
  "mpinit_loop k m p e s = Ok s' \<Longrightarrow> mp_table m p e ts \<Longrightarrow> ismp s' = ismp s"
proof (induction k arbitrary: p s ts)
  case (Suc k)
  show ?case
  proof (cases ts)
    case Nil
    then show ?thesis using Suc.prems by simp
  next
    case (Cons t us)
    then have c: "p < e" "known_type (m p)" "mp_table m (p + entry_size (m p)) e us" using Suc.prems(2) by auto
    obtain s1 where "mpinit_loop (Suc k) m p e s = mpinit_loop k m (p + entry_size (m p)) e s1" "ismp s1 = ismp s"
      by (rule mpinit_loop_known [of p e m k s, OF c(1,2)])
    then show ?thesis using Suc.IH [OF _ c(3), of s1] Suc.prems(1) by metis
  qed
qed simp

lemma mpinit_loop_returns: "mpinit_loop k m p e s = Ok s' \<Longrightarrow> \<exists>ts. mp_table m p e ts"
proof (induction k arbitrary: p s)
  case (Suc k)
  show ?case
  proof (cases "p < e")
    case True
    then have t: "known_type (m p)" using mpinit_loop_unknown [OF True] Suc.prems by (metis res.distinct(1))
    obtain s1 where "mpinit_loop (Suc k) m p e s = mpinit_loop k m (p + entry_size (m p)) e s1"
      by (rule mpinit_loop_known [of p e m k s, OF True t]) blast
    then obtain ts where "mp_table m (p + entry_size (m p)) e ts" using Suc by metis
    then show ?thesis using True t by (intro exI [of _ "m p # ts"]) simp
  next
    case False
    then show ?thesis by (intro exI [of _ "[]"]) simp
  qed
qed simp

section \<open>Properties\<close>

text \<open>
  Tables with one entry of type 9: the structure at physical address 0x9FC00, to which the BIOS data
  area points, and the configuration table at 0x1000.
\<close>

definition sample_bios :: mem where
  "sample_bios a =
     (if a = 0x8000040E then 0xC0 else if a = 0x8000040F then 0x9F
      else if a - 0x8009FC00 < 16 then (cbytes ''_MP_'' @ [0, 0x10, 0, 0, 1, 4, 0x90, 0, 0, 0, 0, 0]) ! unat (a - 0x8009FC00)
      else if a - 0x80001000 < 8 then (cbytes ''PCMP'' @ [45, 0, 4, 0x96]) ! unat (a - 0x80001000)
      else if a = 0x8000102C then 9 else 0)"

lemma sample_bios_table: "mpconfig sample_bios = Some (0x80001000, 0x8009FC00)"
  by code_simp

text \<open>
  C27. When the configuration table is found, \<open>mpinit\<close> returns if and only if all its entries are of
  the five known types; it then has recorded a multiprocessor.  At any other entry it runs forever: the
  \<open>break\<close> that should leave the loop leaves the \<open>switch\<close>, the pointer stays, and the code that falls back
  to one processor is never reached.
\<close>

theorem mpinit_returns_iff_known:
  assumes "mpconfig m = Some (conf, mp)"
  shows "((\<exists>n s'. mpinit n m imcr s = Ok s') \<longleftrightarrow> (\<exists>ts. mp_table m (conf + 44) (conf + ucast (load16 m (conf + 4))) ts)) \<and>
    (\<forall>n s'. mpinit n m imcr s = Ok s' \<longrightarrow> ismp s')"
proof -
  let ?e = "conf + ucast (load16 m (conf + 4))" and ?s = "s\<lparr>ismp := True, lapic := load32 m (conf + 36)\<rparr>"
  have tab: "\<exists>ts. mp_table m (conf + 44) ?e ts" if "mpinit n m imcr s = Ok s'" for n s'
    using that assms mpinit_loop_returns by (auto simp: mpinit_def res_simps)
  have ret: "\<exists>s'. mpinit n m imcr s = Ok s' \<and> ismp s'" if "mp_table m (conf + 44) ?e ts" "length ts < n" for n ts
  proof -
    have "\<exists>u. mpinit_loop n m (conf + 44) ?e ?s = Ok u \<and> ismp u" using mpinit_loop_table [OF that, of ?s] by simp
    then obtain u where "mpinit_loop n m (conf + 44) ?e ?s = Ok u" "ismp u" by blast
    then show ?thesis using assms by (simp add: mpinit_def)
  qed
  have "ismp s'" if "mpinit n m imcr s = Ok s'" for n s'
  proof -
    from tab [OF that] obtain ts where ts: "mp_table m (conf + 44) ?e ts" by blast
    from that assms obtain u where u: "mpinit_loop n m (conf + 44) ?e ?s = Ok u" by (auto simp: mpinit_def res_simps)
    have "ismp u" using mpinit_loop_ismp [OF u ts] by simp
    then show ?thesis using that assms u by (auto simp: mpinit_def split: if_splits)
  qed
  then show ?thesis using tab ret by blast
qed

theorem mpinit_returns_iff_known_witness:
  "\<not> (\<exists>n s'. mpinit n sample_bios 0 \<lparr>apicids = replicate 8 0, ismp = False, ncpu = 0, ioapicid = 0, lapic = 0, mp_outs = []\<rparr> = Ok s')"
proof -
  have l: "sample_bios 0x8000102C = 9" "ucast (load16 sample_bios 0x80001004) = (45 :: u32)"
    by code_simp+
  have "\<not> (\<exists>ts. mp_table sample_bios (0x80001000 + 44) (0x80001000 + 45) ts)"
  proof
    assume "\<exists>ts. mp_table sample_bios (0x80001000 + 44) (0x80001000 + 45) ts"
    then obtain ts where "mp_table sample_bios (0x80001000 + 44) (0x80001000 + 45) ts" by blast
    then show False using l(1) by (cases ts) (auto simp: known_type_def)
  qed
  then show ?thesis
    using mpinit_returns_iff_known [OF sample_bios_table, of 0 "\<lparr>apicids = replicate 8 0, ismp = False, ncpu = 0, ioapicid = 0, lapic = 0, mp_outs = []\<rparr>"]
    by (simp add: l(2))
qed

end
