(* ===== verification/Xv6_Uprogs.thy ===== *)
theory Xv6_Uprogs
  imports Xv6_Dir
begin

text \<open>
  Small user programs: \<^verbatim>\<open>ls.c\<close>, \<^verbatim>\<open>cat.c\<close>, \<^verbatim>\<open>echo.c\<close>, \<^verbatim>\<open>rm.c\<close>, \<^verbatim>\<open>mkdir.c\<close>,
  \<^verbatim>\<open>mkSmallFilesdir.c\<close> and \<^verbatim>\<open>getcounts.c\<close>, and \<open>stat\<close> of \<^verbatim>\<open>ulib.c\<close>.

  The system calls are functions: whether a path can be opened, what \<open>fstat\<close> returns for it and
  which bytes \<open>read\<close> delivers; the result of an \<open>unlink\<close>, a \<open>mkdir\<close> or a \<open>write\<close>.  A program is the
  list of its calls of \<open>printf\<close>, each with the descriptor, the format and the arguments.
\<close>

datatype parg = PStr "u8 list" | PInt int

type_synonym pcall = "int \<times> string \<times> parg list"

record os =
  os_open :: "u8 list \<Rightarrow> bool"
  os_fstat :: "u8 list \<Rightarrow> stat option"
  os_bytes :: "u8 list \<Rightarrow> u8 list"

section \<open>ls\<close>

text \<open>The loop of \<open>fmtname\<close>: \<open>Suc j\<close> stands for the pointer \<open>path + j\<close>; the result is the index after \<open>p++\<close>.\<close>

primrec fmt_loop :: "nat \<Rightarrow> u8 list \<Rightarrow> nat" where
  "fmt_loop 0 path = 0"
| "fmt_loop (Suc j) path = (if lstr path j \<noteq> slash then fmt_loop j path else Suc j)"

definition fmtname :: "u8 list \<Rightarrow> u8 list" where
  "fmtname path =
     (let p = drop (fmt_loop (Suc (length path)) path) path in
      if length p \<ge> DIRSIZ then p else p @ replicate (DIRSIZ - length p) 0x20)"

definition ulib_stat :: "os \<Rightarrow> u8 list \<Rightarrow> stat option" where
  "ulib_stat k n = (if os_open k n then os_fstat k n else None)"

definition ls_line :: "u8 list \<Rightarrow> stat \<Rightarrow> pcall" where
  "ls_line path st = (1, ''%s %d %d %d\<newline>'',
     [PStr (fmtname path), PInt (sint (st_type st)), PInt (sint (st_ino st)), PInt (sint (st_size st))])"

text \<open>The loop over the entries of a directory; \<open>buf\<close> is the path with a slash.\<close>

function ls_entries :: "os \<Rightarrow> u8 list \<Rightarrow> u8 list \<Rightarrow> pcall list" where
  "ls_entries k buf bytes =
     (if length bytes < 16 then []
      else
        (let de = take 16 bytes; rest = drop 16 bytes in
         if de_inum de = 0 then ls_entries k buf rest
         else
           (let path = buf @ takeWhile (\<lambda>c. c \<noteq> 0) (de_name de) in
            case ulib_stat k path of
              None \<Rightarrow> (1, ''ls: cannot stat %s\<newline>'', [PStr path]) # ls_entries k buf rest
            | Some st \<Rightarrow> ls_line path st # ls_entries k buf rest)))"
  by pat_completeness auto
termination
  by (relation "measure (\<lambda>(k, buf, bytes). length bytes)") auto

declare ls_entries.simps [simp del]

definition ls :: "os \<Rightarrow> u8 list \<Rightarrow> pcall list" where
  "ls k path =
     (if \<not> os_open k path then [(2, ''ls: cannot open %s\<newline>'', [PStr path])]
      else case os_fstat k path of
        None \<Rightarrow> [(2, ''ls: cannot stat %s\<newline>'', [PStr path])]
      | Some st \<Rightarrow>
          if st_type st = T_FILE then [ls_line path st]
          else if st_type st = T_SFILE then [ls_line path st]
          else if st_type st = T_DIR \<or> st_type st = T_SDIR then
            if length path + 1 + DIRSIZ + 1 > 512 then [(1, ''ls: path too long\<newline>'', [])]
            else ls_entries k (path @ [slash]) (os_bytes k path)
          else [])"

definition ls_main :: "os \<Rightarrow> u8 list list \<Rightarrow> pcall list" where
  "ls_main k argv = (if length argv < 2 then ls k [0x2E] else concat (map (ls k) (tl argv)))"

section \<open>cat, echo, rm, mkdir\<close>

text \<open>\<open>cat\<close> on the bytes of a file: the blocks written, and whether a write was refused.\<close>

function cat_loop :: "(u8 list \<Rightarrow> bool) \<Rightarrow> u8 list \<Rightarrow> u8 list \<times> bool" where
  "cat_loop wr input =
     (let buf = take 512 input in
      if buf = [] then ([], True)
      else if \<not> wr buf then ([], False)
      else (let (written, r) = cat_loop wr (drop (length buf) input) in (buf @ written, r)))"
  by pat_completeness auto
termination
  by (relation "measure (\<lambda>(wr, input). length input)") auto

declare cat_loop.simps [simp del]

definition echo_main :: "u8 list list \<Rightarrow> pcall list" where
  "echo_main argv = map (\<lambda>i. (1, ''%s%s'', [PStr (argv ! i), PStr (if i + 1 < length argv then [0x20] else [0x0A])]))
     [1..<length argv]"

text \<open>The loop of \<open>rm\<close>, \<open>mkdir\<close> and \<open>mkSmallFilesdir\<close>: it stops at the first call that fails.\<close>

primrec until_failure :: "string \<Rightarrow> (u8 list \<Rightarrow> bool) \<Rightarrow> u8 list list \<Rightarrow> u8 list list \<times> pcall list" where
  "until_failure msg call [] = ([], [])"
| "until_failure msg call (a # as) =
     (if \<not> call a then ([a], [(2, msg, [PStr a])])
      else (let (done, out) = until_failure msg call as in (a # done, out)))"

definition rm_main :: "(u8 list \<Rightarrow> bool) \<Rightarrow> u8 list list \<Rightarrow> u8 list list \<times> pcall list" where
  "rm_main unlink argv =
     (if length argv < 2 then ([], [(2, ''Usage: rm files...\<newline>'', [])])
      else until_failure ''rm: %s failed to delete\<newline>'' unlink (tl argv))"

definition mkdir_main :: "(u8 list \<Rightarrow> bool) \<Rightarrow> u8 list list \<Rightarrow> u8 list list \<times> pcall list" where
  "mkdir_main mkdir argv =
     (if length argv < 2 then ([], [(2, ''Usage: mkdir files...\<newline>'', [])])
      else until_failure ''mkdir: %s failed to create\<newline>'' mkdir (tl argv))"

section \<open>getcounts\<close>

definition sysname :: "int \<Rightarrow> string" where
  "sysname n =
     (case map_of (zip [1..22]
        [''SYS_fork'', ''SYS_exit'', ''SYS_wait'', ''SYS_pipe'', ''SYS_read'', ''SYS_kill'', ''SYS_exec'', ''SYS_fstat'',
         ''SYS_chdir'', ''SYS_dup'', ''SYS_getpid'', ''SYS_sbrk'', ''SYS_sleep'', ''SYS_uptime'', ''SYS_open'', ''SYS_write'',
         ''SYS_mkmod'', ''SYS_unlink'', ''SYS_link'', ''SYS_mkdir'', ''SYS_close'', ''SYS_getcount'']) n of
        Some s \<Rightarrow> s | None \<Rightarrow> ''SYS_unknown'')"

text \<open>The array that \<open>getcount\<close> fills is an argument, of 23 counts.\<close>

definition getcounts_main :: "u32 list \<Rightarrow> u8 list list \<Rightarrow> pcall list" where
  "getcounts_main counts argv =
     (let line = (\<lambda>i. (1, ''%s:%d\<newline>'', [PStr (cbytes (sysname (int i))), PInt (sint (counts ! i))])) in
      (1, ''Davvid_Caballero_#A20307530\<newline>'', []) #
      (if length argv = 1 then map line [1..<23]
       else if length argv = 2 \<and> argv ! 1 = cbytes ''-z'' then map line (filter (\<lambda>i. counts ! i \<noteq> 0) [1..<23])
       else []))"

section \<open>Lemmas\<close>

lemma fmt_loop_name:
  assumes "k \<le> length path"
  shows "drop (fmt_loop k path) (take k path) = rev (takeWhile (\<lambda>c. c \<noteq> slash) (rev (take k path)))"
  using assms
proof (induction k)
  case (Suc j)
  then have t: "take (Suc j) path = take j path @ [path ! j]" "lstr path j = path ! j"
    by (simp_all add: take_Suc_conv_app_nth lstr_def)
  have "fmt_loop j path \<le> j" for j by (induction j) auto
  then have "fmt_loop j path \<le> length (take j path)" using Suc by simp
  then show ?case using Suc t by (auto simp: Suc_le_eq)
qed simp

text \<open>\<open>fmtname\<close> shows what follows the last slash, padded to \<open>DIRSIZ\<close> with blanks.\<close>

lemma fmtname_last_element:
  "fmtname path = (let name = rev (takeWhile (\<lambda>c. c \<noteq> slash) (rev path)) in name @ replicate (DIRSIZ - length name) 0x20)"
proof -
  have "lstr path (length path) \<noteq> slash" by (simp add: lstr_def slash_def)
  then have "drop (fmt_loop (Suc (length path)) path) path = rev (takeWhile (\<lambda>c. c \<noteq> slash) (rev path))"
    using fmt_loop_name [of "length path" path] by simp
  then show ?thesis by (simp add: fmtname_def Let_def)
qed

lemma cat_copies: "(\<And>bs. wr bs) \<Longrightarrow> cat_loop wr input = (input, True)"
proof (induction "length input" arbitrary: input rule: less_induct)
  case less
  show ?case
  proof (cases "input = []")
    case False
    then have "cat_loop wr (drop (length (take 512 input)) input) = (drop (length (take 512 input)) input, True)"
      using less by (intro less.hyps) auto
    then show ?thesis using False less.prems by (subst cat_loop.simps) (simp add: Let_def min_def)
  qed (simp add: cat_loop.simps)
qed

lemma ls_entries_lines: "length (ls_entries k buf bytes) \<le> length bytes div 16"
proof (induction k buf bytes rule: ls_entries.induct)
  case (1 k buf bytes)
  show ?case
  proof (cases "length bytes < 16")
    case False
    have ih: "length (ls_entries k buf (drop 16 bytes)) \<le> length (drop 16 bytes) div 16"
      using 1 False by (cases "de_inum (take 16 bytes) = 0"; cases "ulib_stat k (buf @ takeWhile (\<lambda>c. c \<noteq> 0) (de_name (take 16 bytes)))") auto
    have "length bytes div 16 = Suc ((length bytes - 16) div 16)" using False by (simp add: le_div_geq)
    then show ?thesis using ih False
      by (subst ls_entries.simps) (auto simp: Let_def split: option.splits)
  qed (simp add: ls_entries.simps)
qed

text \<open>\<open>rm\<close> and \<open>mkdir\<close> call the kernel for the arguments up to the first failure.\<close>

lemma until_failure_prefix:
  "fst (until_failure msg call as) = takeWhile call as @ take 1 (dropWhile call as)"
  "snd (until_failure msg call as) = map (\<lambda>a. (2, msg, [PStr a])) (take 1 (dropWhile call as))"
  by (induction as) (auto split: prod.splits)

end
