(* ===== verification/Spec2Isabelle.thy ===== *)
theory Spec2Isabelle
  imports Xv6_Mkfs Xv6_Console Xv6_Wakeup Xv6_Grep Xv6_Sh Xv6_Dirmap Xv6_Fref Xv6_Ide Xv6_Gates Xv6_Mp Xv6_Uprogs
begin

text \<open>
  A verification development for the xv6 kernel of this repository (sources under
  \<^verbatim>\<open>src/xv6andTestsandREADME\<close>), with the small files, small directories and call counters
  that it adds, its user library, its shell, \<^verbatim>\<open>grep\<close>, \<^verbatim>\<open>wc\<close>, some smaller programs and \<^verbatim>\<open>mkfs\<close>.

  \<^bold>\<open>The program and its theories.\<close>  A system call enters through \<open>trap\<close> and the dispatcher, works
  on files or processes, and reaches the disk through inodes, the log and the buffer cache.

  \<^item> \<open>Xv6_Prelude\<close>: results \<open>Ok\<close>/\<open>Fail\<close>, where every panic, wild access and wait of the source is
    an error value; bytes, little-endian words, slices of buffers.
  \<^item> \<open>Xv6_String\<close> (\<^verbatim>\<open>string.c\<close>, \<^verbatim>\<open>x86.h\<close>): routines on memory and strings against reference definitions.
  \<^item> \<open>Xv6_Bio\<close> (\<^verbatim>\<open>bio.c\<close>, \<^verbatim>\<open>sleeplock.c\<close>, \<^verbatim>\<open>memide.c\<close>): the cache with its ring of buffers.  The locale
    \<open>block_cache\<close> is its contract, interpreted on the model as \<open>bio\<close>.
  \<^item> \<open>Xv6_Log\<close> (\<^verbatim>\<open>log.c\<close>): transactions, commit and recovery.
  \<^item> \<open>Xv6_Ide\<close> (\<^verbatim>\<open>ide.c\<close>): the disk driver with its queue and its interrupt.
  \<^item> \<open>Xv6_Fs\<close>, \<open>Xv6_Inode\<close>, \<open>Xv6_Dir\<close> (\<^verbatim>\<open>fs.c\<close>): blocks, inodes, small files; directories and paths.
    \<open>Xv6_Balloc\<close> reads the bitmap as a set of used blocks and \<open>Xv6_Dirmap\<close> a directory as a map.
  \<^item> \<open>Xv6_Kalloc\<close> (\<^verbatim>\<open>kalloc.c\<close>), \<open>Xv6_Vm\<close> (\<^verbatim>\<open>vm.c\<close>): free pages and page tables in a byte memory.
  \<^item> \<open>Xv6_Pipe\<close>, \<open>Xv6_File\<close>, \<open>Xv6_Sysfile\<close> (\<^verbatim>\<open>pipe.c\<close>, \<^verbatim>\<open>file.c\<close>, \<^verbatim>\<open>sysfile.c\<close>): pipes, open files, calls on files.
    \<open>Xv6_Fref\<close> counts the references to open files.
  \<^item> \<open>Xv6_Spinlock\<close> (\<^verbatim>\<open>spinlock.c\<close>), \<open>Xv6_Ptable\<close>, \<open>Xv6_Wakeup\<close>, \<open>Xv6_Proc\<close> (\<^verbatim>\<open>proc.c\<close>): locks as steps of
    several processors, the process table, \<open>sleep\<close> and \<open>wakeup\<close> interleaved, and the whole handlers.
  \<^item> \<open>Xv6_Exec\<close> (\<^verbatim>\<open>exec.c\<close>), \<open>Xv6_Syscall\<close> (\<^verbatim>\<open>syscall.c\<close>, \<^verbatim>\<open>sysproc.c\<close>, \<^verbatim>\<open>trap.c\<close>), \<open>Xv6_Console\<close>
    (\<^verbatim>\<open>console.c\<close>, \<^verbatim>\<open>kbd.c\<close>, \<^verbatim>\<open>uart.c\<close>), \<open>Xv6_Mkfs\<close> (\<^verbatim>\<open>mkfs.c\<close>).
  \<^item> \<open>Xv6_Asm\<close> (\<^verbatim>\<open>vectors.pl\<close>, \<^verbatim>\<open>trapasm.S\<close>, \<^verbatim>\<open>swtch.S\<close>): the assembly code as lists of instructions of a
    machine with registers and a memory of words; \<open>Xv6_Gates\<close> (\<^verbatim>\<open>mmu.h\<close>, \<^verbatim>\<open>asm.h\<close>, \<open>tvinit\<close>, \<open>seginit\<close>): the
    descriptors; \<open>Xv6_Mp\<close> (\<^verbatim>\<open>mp.c\<close>, the clock of \<^verbatim>\<open>lapic.c\<close>): the tables of the firmware.
  \<^item> \<open>Xv6_Grep\<close>, \<open>Xv6_Ulib\<close>, \<open>Xv6_Sh\<close>, \<open>Xv6_Uprogs\<close> (\<^verbatim>\<open>ls.c\<close>, \<^verbatim>\<open>cat.c\<close>, \<^verbatim>\<open>echo.c\<close>, \<^verbatim>\<open>rm.c\<close>, \<^verbatim>\<open>mkdir.c\<close>,
    \<^verbatim>\<open>getcounts.c\<close>): the user programs and their library.

  \<^bold>\<open>State.\<close>  The kernel's state is a record that each layer extends: \<open>bstate\<close>, \<open>log_state\<close>, \<open>fs_state\<close>,
  \<open>file_state\<close>, \<open>sys_state\<close>, \<open>proc_state\<close>, \<open>sc_state\<close>, \<open>con_state\<close>.  Pointers into arrays are indices;
  page tables, kernel stacks and the free list are bytes of a memory.  The open files, the
  directory, the size and the killed flag of the current process are fields of the state, saved in
  its entry of the process table on a switch.  The device table, the disk
  of \<open>Xv6_Ide\<close> (hypotheses \<open>ata_ok\<close>), the clock chip, the handlers of device interrupts in \<open>trap\<close>
  and the system calls that the programs of \<open>Xv6_Uprogs\<close> make are arguments.

  \<^bold>\<open>What is shown.\<close>
  \<^item> Disk: a crash anywhere in \<open>commit\<close> leaves all of a transaction or nothing; the cache returns the
    current content of a block; an inode written by \<open>iupdate\<close> is what \<open>ilock\<close> reads;
    requests are served in order and the memory disk simulates the driver, on the buffers and on every
    block; but a failed read goes unnoticed.
  \<^item> Names and blocks: \<open>dirlookup\<close> and \<open>dirlink\<close> are lookup and update of a map, \<open>namex\<close> is the walk
    along the elements of the path, \<open>balloc\<close> takes the first free block and \<open>bfree\<close> gives back a used one.
  \<^item> Small files: reading returns what was written within 52 bytes; past that \<open>writei\<close> runs over the
    inode, and an overwrite that does not grow the file never reaches the disk.
  \<^item> Concurrency: spinlocks exclude each other, no wakeup is lost, every zombie has a live parent,
    and until \<open>nextpid\<close> overflows a pid of its own, in all interleavings of the modelled steps.
  \<^item> Memory: pages are not handed out twice, a mapping changes one page and fails only for want of memory, arguments of calls lie
    inside the process, whose size stays below \<open>KERNBASE\<close>.
  \<^item> Entry and exit: every trap stub builds the same frame, from which \<open>trapret\<close> resumes the interrupted
    code; \<open>swtch\<close> can be switched back; only the system call gate is open to user code.
  \<^item> Firmware: \<open>mpinit\<close> returns exactly when every entry of the table has a known type.
  \<^item> Open files: \<open>sys_dup\<close> and \<open>sys_close\<close> keep the reference counts equal to the references.
  \<^item> System calls: calls 0 to 22 are counted; 23, \<open>mkSmallFilesdir\<close>, is counted outside the array.
  \<^item> User programs: the parser terminates and builds the command of its words, \<open>grep\<close> prints the
    matching lines except those it drops, \<open>malloc\<close> and \<open>free\<close> are inverse up to the free list.

  The input ring of the console (\<open>kill_line_ok\<close>, \<open>cread_loop_ok\<close>) and the image of \<open>mkfs\<close>
  (\<open>mkfs_superblock\<close>, \<open>mk_bitmap_used\<close>) have lemmas in their theories, as have the string routines, the
  order of the ring of buffers, nested interrupt disabling, \<open>printint\<close> and \<open>atoi\<close>, \<open>wc\<close>, the descriptors of
  the boot loader (\<open>seg_asm_equals_seg\<close>) and the loops of the small programs.

  \<^bold>\<open>Bounds and fuel.\<close>  Loops over arrays and lists are structural or have a measure.  The parser of the
  shell and the searches through linked lists take fuel; enough of it is part of the theorems.
  The search for the end of the disk queue has fuel for one more than \<open>NBUF\<close> buffers, the most that can wait.
  Waiting for the disk, reading the configuration table and reading a clock that changes take fuel
  because the code may not end; for the table the theorem says when it does, and the disk is ready within
  the fuel by hypothesis.
  Addresses that the source keeps below \<open>KERNBASE\<close> are natural numbers in loops, so they do not wrap.

  \<^bold>\<open>Simplifications.\<close>  Steps are sequentially consistent.  The handlers of \<open>Xv6_Proc\<close> and above run on one
  processor and are split where control leaves the process; in the file system waiting is the error
  \<open>Blocked\<close>, and the spinlocks around its tables are left out.  In \<open>Xv6_Wakeup\<close> the lock passed to
  \<open>sleep\<close> is not \<open>ptable.lock\<close>.  The user
  memory of the system calls is separate from the pages of the page tables.  Messages that the
  kernel prints for tracing are left out.  \<open>fork\<close> stores the parent and the state of the child in one step.

  The driver of \<open>Xv6_Ide\<close> is a theory of its own: the file system above runs on the disk of \<^verbatim>\<open>memide.c\<close>, the
  driver of the build \<^verbatim>\<open>kernelmemfs\<close>, which \<open>Xv6_Ide\<close> is related to.  The assembly code works on words that
  do not overlap, not on bytes.

  \<^bold>\<open>Not modelled.\<close>  The boot code, \<^verbatim>\<open>main.c\<close>, \<^verbatim>\<open>usys.S\<close> and \<^verbatim>\<open>initcode.S\<close>, which set up the processor or make one
  call.  \<^verbatim>\<open>ioapic.c\<close>, \<^verbatim>\<open>picirq.c\<close>, \<^verbatim>\<open>timer.c\<close>, \<open>uartinit\<close> and the rest of \<^verbatim>\<open>lapic.c\<close>, which only write device
  registers.  \<open>idtinit\<close>, and the part of \<open>seginit\<close> that loads registers.  \<open>procdump\<close>, which prints.  The user
  programs that only make a few calls (\<^verbatim>\<open>init.c\<close>, \<^verbatim>\<open>kill.c\<close>, \<^verbatim>\<open>ln.c\<close>, \<^verbatim>\<open>zombie.c\<close>, \<^verbatim>\<open>getcount.c\<close>, \<^verbatim>\<open>currentm.c\<close>,
  \<^verbatim>\<open>kernelm.c\<close>), and the test programs.
\<close>

end
